(* ===== verification/Knife_Prelude.thy ===== *)
theory Knife_Prelude
  imports Main "HOL-Library.Word"
begin

text \<open>
  Shared vocabulary of the development: the machine types of the C sources, the result type of
  code that can go wrong, little- and big-endian encodings of fixed-width integers, and the lemma
  collections the component theories use.

  Conventions used by every component theory:
  \<^item> \<^verbatim>\<open>unsigned int\<close>, \<^verbatim>\<open>uint32_t\<close>, \<^verbatim>\<open>uint8_t\<close>, \<dots> are words of their width, so that
    every addition, subtraction and multiplication wraps as it does in C;
  \<^item> \<^verbatim>\<open>int64_t\<close> and \<^verbatim>\<open>off64_t\<close> are \<^typ>\<open>int\<close>: overflow of a signed type is undefined in C, so
    the mathematical value is the only one the code defines;
  \<^item> a call that can end in undefined behaviour or in a failed \<^verbatim>\<open>assert\<close> returns a value of
    \<open>'a res\<close>: \<^term>\<open>Inl\<close> names what went wrong, \<^term>\<open>Inr\<close> carries the ordinary result,
    which includes the negative error codes that the C functions return.
\<close>

unbundle bit_operations_syntax

named_theorems res_simps \<open>the result type and its sequencing\<close>
named_theorems codec \<open>encodings of integers as bytes and their inverses\<close>
named_theorems heap_simps \<open>reading and writing heap cells\<close>

section \<open>Machine types\<close>

type_synonym byte = "8 word"
type_synonym u16 = "16 word"
type_synonym u32 = "32 word"
type_synonym u64 = "64 word"

text \<open>A pointer to a heap cell; \<^term>\<open>None\<close> is \<^verbatim>\<open>NULL\<close>.\<close>

type_synonym addr = nat
type_synonym ptr = "addr option"

section \<open>Results of code that can fail outside the C semantics\<close>

datatype fault =
    NullDeref        \<comment> \<open>a \<^verbatim>\<open>NULL\<close> pointer is dereferenced\<close>
  | UseAfterFree     \<comment> \<open>a cell that was freed is read or written\<close>
  | DoubleFree       \<comment> \<open>a cell is freed twice\<close>
  | AssertFailed     \<comment> \<open>an \<^verbatim>\<open>assert\<close> of the source does not hold\<close>
  | DivByZero        \<comment> \<open>an integer division or remainder by zero\<close>
  | OutOfBounds      \<comment> \<open>an array is accessed outside its bounds\<close>
  | BadShift         \<comment> \<open>a shift by a negative amount or by the width and more\<close>
  | ErrorExit        \<comment> \<open>an error handler leaves the program by \<^verbatim>\<open>longjmp\<close>\<close>
  | Diverges         \<comment> \<open>a loop does not end within the fuel\<close>

type_synonym 'a res = "fault + 'a"

definition bindR :: "'a res \<Rightarrow> ('a \<Rightarrow> 'b res) \<Rightarrow> 'b res" where
  "bindR m f = (case m of Inl e \<Rightarrow> Inl e | Inr v \<Rightarrow> f v)"

definition assertR :: "bool \<Rightarrow> fault \<Rightarrow> unit res" where
  "assertR b e = (if b then Inr () else Inl e)"

lemma bindR_simps [simp, res_simps]:
  "bindR (Inl e) f = Inl e"
  "bindR (Inr v) f = f v"
  by (simp_all add: bindR_def)

lemma bindR_eq_Inr_iff: "bindR m f = Inr y \<longleftrightarrow> (\<exists>x. m = Inr x \<and> f x = Inr y)"
  by (cases m) simp_all

lemma assertR_simps [simp, res_simps]:
  "assertR True e = Inr ()"
  "assertR False e = Inl e"
  by (simp_all add: assertR_def)

lemma assertR_eq_Inr_iff [simp]: "assertR b e = Inr u \<longleftrightarrow> b"
  by (simp add: assertR_def)

section \<open>Words\<close>

lemma xor_right_cancel_word [simp]: "(x :: 'a::len word) XOR z = y XOR z \<longleftrightarrow> x = y"
proof
  assume "x XOR z = y XOR z"
  then have "(x XOR z) XOR z = (y XOR z) XOR z" by simp
  then show "x = y" by (simp add: xor.assoc)
qed simp

lemma xor_left_cancel_word [simp]: "(z :: 'a::len word) XOR x = z XOR y \<longleftrightarrow> x = y"
  by (simp add: xor.commute [of z])

lemma unat_less_u32: "unat (w :: u32) < 4294967296"
  using unsigned_less [of w, where ?'a = nat] by simp

lemma unat_add_u32: "unat (a :: u32) + unat b < 4294967296 \<Longrightarrow> unat (a + b) = unat a + unat b"
  by (simp add: unat_word_ariths)

lemma word_of_nat_eqI: "unat w = n \<Longrightarrow> w = word_of_nat n"
  by auto

lemma unat_mult_u32: "unat (a :: u32) * unat b < 4294967296 \<Longrightarrow> unat (a * b) = unat a * unat b"
  using unat_mult_lem [of a b] by simp

lemma unat_exp_u32:
  assumes "k < 32"
  shows "unat (2 ^ k :: u32) = 2 ^ k"
proof -
  have "(2 :: nat) ^ k < 2 ^ 32" using assms by (intro power_strict_increasing) simp_all
  then have "unat (word_of_nat (2 ^ k) :: u32) = 2 ^ k" by (simp only: unat_of_nat) simp
  then show ?thesis by simp
qed

lemma unat_and_mask:
  assumes "p = 2 ^ k" "k < 32"
  shows "unat ((n :: u32) AND (p - 1)) = unat n mod unat p"
proof -
  have "unat p = 2 ^ k" using assms by (simp only: unat_exp_u32)
  moreover have "n AND (p - 1) = take_bit k n" unfolding assms(1) by (simp only: take_bit_eq_mask mask_eq_exp_minus_1)
  ultimately show ?thesis by (simp only: unsigned_take_bit_eq) (simp only: take_bit_eq_mod)
qed

lemma and_not_eq_minus: "(x :: 'a::len word) AND NOT m = x - (x AND m)"
proof -
  have "x - (x AND m) = x AND NOT (x AND m)"
    by (intro disjunctive_diff_eq_and_not bit_word_eqI) (auto simp: bit_simps)
  also have "\<dots> = x AND NOT m" by (rule bit_word_eqI) (auto simp: bit_simps)
  finally show ?thesis by (rule sym)
qed

lemma unat_of_nat_u32: "n < 2 ^ 32 \<Longrightarrow> unat (word_of_nat n :: u32) = n"
  by (simp add: unat_of_nat)

lemma word_of_nat_less_u32: "m < 2 ^ 32 \<Longrightarrow> n < 2 ^ 32 \<Longrightarrow> (word_of_nat m :: u32) < word_of_nat n \<longleftrightarrow> m < n"
  by (simp add: word_less_nat_alt unat_of_nat)

lemma word_of_nat_le_u32: "m < 2 ^ 32 \<Longrightarrow> n < 2 ^ 32 \<Longrightarrow> (word_of_nat m :: u32) \<le> word_of_nat n \<longleftrightarrow> m \<le> n"
  by (simp add: word_le_nat_alt unat_of_nat)

lemma sint_small_u32:
  assumes "unat (w :: u32) < 2147483648"
  shows "sint w = int (unat w)"
proof -
  have u: "uint w = int (unat w)" by simp
  have "sint w = signed_take_bit 31 (uint w)" by (simp add: sint_uint)
  moreover have "- 2147483648 \<le> uint w" "uint w < 2147483648" using assms u by linarith+
  then have "signed_take_bit 31 (uint w) = uint w" by (intro signed_take_bit_int_eq_self) simp_all
  ultimately have "sint w = uint w" by (rule trans)
  from this u show ?thesis by (rule trans)
qed

section \<open>Integers as byte sequences\<close>

definition u16_le :: "u16 \<Rightarrow> byte list" where
  "u16_le w = [ucast w, ucast (drop_bit 8 w)]"

definition u16_of_le :: "byte list \<Rightarrow> u16" where
  "u16_of_le bs = ucast (bs ! 0) OR push_bit 8 (ucast (bs ! 1))"

definition u32_le :: "u32 \<Rightarrow> byte list" where
  "u32_le w = [ucast w, ucast (drop_bit 8 w), ucast (drop_bit 16 w), ucast (drop_bit 24 w)]"

definition u32_of_le :: "byte list \<Rightarrow> u32" where
  "u32_of_le bs = ucast (bs ! 0) OR push_bit 8 (ucast (bs ! 1))
     OR push_bit 16 (ucast (bs ! 2)) OR push_bit 24 (ucast (bs ! 3))"

definition u32_be :: "u32 \<Rightarrow> byte list" where
  "u32_be w = [ucast (drop_bit 24 w), ucast (drop_bit 16 w), ucast (drop_bit 8 w), ucast w]"

definition u32_of_be :: "byte list \<Rightarrow> u32" where
  "u32_of_be bs = push_bit 24 (ucast (bs ! 0)) OR push_bit 16 (ucast (bs ! 1))
     OR push_bit 8 (ucast (bs ! 2)) OR ucast (bs ! 3)"

lemma length_u16_le [simp, codec]: "length (u16_le w) = 2"
  by (simp add: u16_le_def)

lemma length_u32_le [simp, codec]: "length (u32_le w) = 4"
  by (simp add: u32_le_def)

lemma length_u32_be [simp, codec]: "length (u32_be w) = 4"
  by (simp add: u32_be_def)

lemma u16_of_le_le [simp, codec]: "u16_of_le (u16_le w @ r) = w"
proof (rule bit_word_eqI)
  fix n :: nat assume "n < LENGTH(16)"
  then consider "n < 8" | "8 \<le> n \<and> n < 16" by fastforce
  then show "bit (u16_of_le (u16_le w @ r)) n \<longleftrightarrow> bit w n"
    by cases (auto simp: u16_le_def u16_of_le_def bit_simps)
qed

lemma u32_bytes_cases:
  assumes "n < LENGTH(32)"
  obtains "n < 8" | "8 \<le> n" "n < 16" | "16 \<le> n" "n < 24" | "24 \<le> n" "n < 32"
  using assms by fastforce

lemma u32_of_le_le [simp, codec]: "u32_of_le (u32_le w @ r) = w"
proof (rule bit_word_eqI)
  fix n :: nat assume "n < LENGTH(32)"
  then show "bit (u32_of_le (u32_le w @ r)) n \<longleftrightarrow> bit w n"
    by (cases rule: u32_bytes_cases) (auto simp: u32_le_def u32_of_le_def bit_simps)
qed

lemma u32_of_be_be [simp, codec]: "u32_of_be (u32_be w @ r) = w"
proof (rule bit_word_eqI)
  fix n :: nat assume "n < LENGTH(32)"
  then show "bit (u32_of_be (u32_be w @ r)) n \<longleftrightarrow> bit w n"
    by (cases rule: u32_bytes_cases) (auto simp: u32_be_def u32_of_be_def bit_simps)
qed

lemmas u16_of_le_le_Nil [simp] = u16_of_le_le [where r = "[]", simplified]
lemmas u32_of_le_le_Nil [simp] = u32_of_le_le [where r = "[]", simplified]
lemmas u32_of_be_be_Nil [simp] = u32_of_be_be [where r = "[]", simplified]

end
