(* ===== verification/Crc.thy ===== *)
theory Crc
  imports Knife_Prelude
begin

text \<open>
  The two table-driven cyclic redundancy checks of the repository: \<^verbatim>\<open>sparse_crc32\<close> of
  \<^verbatim>\<open>libsparse/sparse_crc32.c\<close>, which protects sparse images, and \<^verbatim>\<open>ext4_crc16\<close> of
  \<^verbatim>\<open>ext4_utils/crc16.c\<close>, which protects block group descriptors.  Both loops consume one byte
  per step through a table of 256 entries.  The locale \<open>table_crc\<close> states what such a table has
  to satisfy; inside it the byte-wise loop is shown equal to the bit-serial shift register, its
  steps are shown to be injective, and hence a single altered byte is shown to change the check.
  The interpretations check both tables of the source entry by entry.
\<close>

section \<open>The shift register\<close>

text \<open>One step of the reflected shift register for the generator polynomial \<open>poly\<close>.\<close>

definition crc_bit :: "'a::len word \<Rightarrow> 'a word \<Rightarrow> 'a word" where
  "crc_bit poly c = (if bit c 0 then drop_bit 1 c XOR poly else drop_bit 1 c)"

definition crc_byte :: "'a::len word \<Rightarrow> 'a word \<Rightarrow> byte \<Rightarrow> 'a word" where
  "crc_byte poly c b = (crc_bit poly ^^ 8) (c XOR ucast b)"

text \<open>One step of the loop bodies of the sources: index the table by the low byte, shift by eight.\<close>

definition crc_tab_step :: "'a::len word list \<Rightarrow> 'a word \<Rightarrow> byte \<Rightarrow> 'a word" where
  "crc_tab_step tab c b = (tab ! unat ((c XOR ucast b) AND 0xFF)) XOR drop_bit 8 c"

section \<open>The tables and the two entry points\<close>

definition crc32_tab :: "u32 list" where
  "crc32_tab =
    [0x00000000, 0x77073096, 0xee0e612c, 0x990951ba, 0x076dc419, 0x706af48f, 0xe963a535, 0x9e6495a3,
     0x0edb8832, 0x79dcb8a4, 0xe0d5e91e, 0x97d2d988, 0x09b64c2b, 0x7eb17cbd, 0xe7b82d07, 0x90bf1d91,
     0x1db71064, 0x6ab020f2, 0xf3b97148, 0x84be41de, 0x1adad47d, 0x6ddde4eb, 0xf4d4b551, 0x83d385c7,
     0x136c9856, 0x646ba8c0, 0xfd62f97a, 0x8a65c9ec, 0x14015c4f, 0x63066cd9, 0xfa0f3d63, 0x8d080df5,
     0x3b6e20c8, 0x4c69105e, 0xd56041e4, 0xa2677172, 0x3c03e4d1, 0x4b04d447, 0xd20d85fd, 0xa50ab56b,
     0x35b5a8fa, 0x42b2986c, 0xdbbbc9d6, 0xacbcf940, 0x32d86ce3, 0x45df5c75, 0xdcd60dcf, 0xabd13d59,
     0x26d930ac, 0x51de003a, 0xc8d75180, 0xbfd06116, 0x21b4f4b5, 0x56b3c423, 0xcfba9599, 0xb8bda50f,
     0x2802b89e, 0x5f058808, 0xc60cd9b2, 0xb10be924, 0x2f6f7c87, 0x58684c11, 0xc1611dab, 0xb6662d3d,
     0x76dc4190, 0x01db7106, 0x98d220bc, 0xefd5102a, 0x71b18589, 0x06b6b51f, 0x9fbfe4a5, 0xe8b8d433,
     0x7807c9a2, 0x0f00f934, 0x9609a88e, 0xe10e9818, 0x7f6a0dbb, 0x086d3d2d, 0x91646c97, 0xe6635c01,
     0x6b6b51f4, 0x1c6c6162, 0x856530d8, 0xf262004e, 0x6c0695ed, 0x1b01a57b, 0x8208f4c1, 0xf50fc457,
     0x65b0d9c6, 0x12b7e950, 0x8bbeb8ea, 0xfcb9887c, 0x62dd1ddf, 0x15da2d49, 0x8cd37cf3, 0xfbd44c65,
     0x4db26158, 0x3ab551ce, 0xa3bc0074, 0xd4bb30e2, 0x4adfa541, 0x3dd895d7, 0xa4d1c46d, 0xd3d6f4fb,
     0x4369e96a, 0x346ed9fc, 0xad678846, 0xda60b8d0, 0x44042d73, 0x33031de5, 0xaa0a4c5f, 0xdd0d7cc9,
     0x5005713c, 0x270241aa, 0xbe0b1010, 0xc90c2086, 0x5768b525, 0x206f85b3, 0xb966d409, 0xce61e49f,
     0x5edef90e, 0x29d9c998, 0xb0d09822, 0xc7d7a8b4, 0x59b33d17, 0x2eb40d81, 0xb7bd5c3b, 0xc0ba6cad,
     0xedb88320, 0x9abfb3b6, 0x03b6e20c, 0x74b1d29a, 0xead54739, 0x9dd277af, 0x04db2615, 0x73dc1683,
     0xe3630b12, 0x94643b84, 0x0d6d6a3e, 0x7a6a5aa8, 0xe40ecf0b, 0x9309ff9d, 0x0a00ae27, 0x7d079eb1,
     0xf00f9344, 0x8708a3d2, 0x1e01f268, 0x6906c2fe, 0xf762575d, 0x806567cb, 0x196c3671, 0x6e6b06e7,
     0xfed41b76, 0x89d32be0, 0x10da7a5a, 0x67dd4acc, 0xf9b9df6f, 0x8ebeeff9, 0x17b7be43, 0x60b08ed5,
     0xd6d6a3e8, 0xa1d1937e, 0x38d8c2c4, 0x4fdff252, 0xd1bb67f1, 0xa6bc5767, 0x3fb506dd, 0x48b2364b,
     0xd80d2bda, 0xaf0a1b4c, 0x36034af6, 0x41047a60, 0xdf60efc3, 0xa867df55, 0x316e8eef, 0x4669be79,
     0xcb61b38c, 0xbc66831a, 0x256fd2a0, 0x5268e236, 0xcc0c7795, 0xbb0b4703, 0x220216b9, 0x5505262f,
     0xc5ba3bbe, 0xb2bd0b28, 0x2bb45a92, 0x5cb36a04, 0xc2d7ffa7, 0xb5d0cf31, 0x2cd99e8b, 0x5bdeae1d,
     0x9b64c2b0, 0xec63f226, 0x756aa39c, 0x026d930a, 0x9c0906a9, 0xeb0e363f, 0x72076785, 0x05005713,
     0x95bf4a82, 0xe2b87a14, 0x7bb12bae, 0x0cb61b38, 0x92d28e9b, 0xe5d5be0d, 0x7cdcefb7, 0x0bdbdf21,
     0x86d3d2d4, 0xf1d4e242, 0x68ddb3f8, 0x1fda836e, 0x81be16cd, 0xf6b9265b, 0x6fb077e1, 0x18b74777,
     0x88085ae6, 0xff0f6a70, 0x66063bca, 0x11010b5c, 0x8f659eff, 0xf862ae69, 0x616bffd3, 0x166ccf45,
     0xa00ae278, 0xd70dd2ee, 0x4e048354, 0x3903b3c2, 0xa7672661, 0xd06016f7, 0x4969474d, 0x3e6e77db,
     0xaed16a4a, 0xd9d65adc, 0x40df0b66, 0x37d83bf0, 0xa9bcae53, 0xdebb9ec5, 0x47b2cf7f, 0x30b5ffe9,
     0xbdbdf21c, 0xcabac28a, 0x53b39330, 0x24b4a3a6, 0xbad03605, 0xcdd70693, 0x54de5729, 0x23d967bf,
     0xb3667a2e, 0xc4614ab8, 0x5d681b02, 0x2a6f2b94, 0xb40bbe37, 0xc30c8ea1, 0x5a05df1b, 0x2d02ef8d]"

definition sparse_crc32 :: "u32 \<Rightarrow> byte list \<Rightarrow> u32" where
  "sparse_crc32 crc_in buf =
     (let crc = crc_in XOR NOT 0;
          crc = foldl (\<lambda>crc p. (crc32_tab ! unat ((crc XOR ucast p) AND 0xFF)) XOR drop_bit 8 crc) crc buf
      in crc XOR NOT 0)"

definition crc16_tab :: "u16 list" where
  "crc16_tab =
    [0x0000, 0xc0c1, 0xc181, 0x0140, 0xc301, 0x03c0, 0x0280, 0xc241,
     0xc601, 0x06c0, 0x0780, 0xc741, 0x0500, 0xc5c1, 0xc481, 0x0440,
     0xcc01, 0x0cc0, 0x0d80, 0xcd41, 0x0f00, 0xcfc1, 0xce81, 0x0e40,
     0x0a00, 0xcac1, 0xcb81, 0x0b40, 0xc901, 0x09c0, 0x0880, 0xc841,
     0xd801, 0x18c0, 0x1980, 0xd941, 0x1b00, 0xdbc1, 0xda81, 0x1a40,
     0x1e00, 0xdec1, 0xdf81, 0x1f40, 0xdd01, 0x1dc0, 0x1c80, 0xdc41,
     0x1400, 0xd4c1, 0xd581, 0x1540, 0xd701, 0x17c0, 0x1680, 0xd641,
     0xd201, 0x12c0, 0x1380, 0xd341, 0x1100, 0xd1c1, 0xd081, 0x1040,
     0xf001, 0x30c0, 0x3180, 0xf141, 0x3300, 0xf3c1, 0xf281, 0x3240,
     0x3600, 0xf6c1, 0xf781, 0x3740, 0xf501, 0x35c0, 0x3480, 0xf441,
     0x3c00, 0xfcc1, 0xfd81, 0x3d40, 0xff01, 0x3fc0, 0x3e80, 0xfe41,
     0xfa01, 0x3ac0, 0x3b80, 0xfb41, 0x3900, 0xf9c1, 0xf881, 0x3840,
     0x2800, 0xe8c1, 0xe981, 0x2940, 0xeb01, 0x2bc0, 0x2a80, 0xea41,
     0xee01, 0x2ec0, 0x2f80, 0xef41, 0x2d00, 0xedc1, 0xec81, 0x2c40,
     0xe401, 0x24c0, 0x2580, 0xe541, 0x2700, 0xe7c1, 0xe681, 0x2640,
     0x2200, 0xe2c1, 0xe381, 0x2340, 0xe101, 0x21c0, 0x2080, 0xe041,
     0xa001, 0x60c0, 0x6180, 0xa141, 0x6300, 0xa3c1, 0xa281, 0x6240,
     0x6600, 0xa6c1, 0xa781, 0x6740, 0xa501, 0x65c0, 0x6480, 0xa441,
     0x6c00, 0xacc1, 0xad81, 0x6d40, 0xaf01, 0x6fc0, 0x6e80, 0xae41,
     0xaa01, 0x6ac0, 0x6b80, 0xab41, 0x6900, 0xa9c1, 0xa881, 0x6840,
     0x7800, 0xb8c1, 0xb981, 0x7940, 0xbb01, 0x7bc0, 0x7a80, 0xba41,
     0xbe01, 0x7ec0, 0x7f80, 0xbf41, 0x7d00, 0xbdc1, 0xbc81, 0x7c40,
     0xb401, 0x74c0, 0x7580, 0xb541, 0x7700, 0xb7c1, 0xb681, 0x7640,
     0x7200, 0xb2c1, 0xb381, 0x7340, 0xb101, 0x71c0, 0x7080, 0xb041,
     0x5000, 0x90c1, 0x9181, 0x5140, 0x9301, 0x53c0, 0x5280, 0x9241,
     0x9601, 0x56c0, 0x5780, 0x9741, 0x5500, 0x95c1, 0x9481, 0x5440,
     0x9c01, 0x5cc0, 0x5d80, 0x9d41, 0x5f00, 0x9fc1, 0x9e81, 0x5e40,
     0x5a00, 0x9ac1, 0x9b81, 0x5b40, 0x9901, 0x59c0, 0x5880, 0x9841,
     0x8801, 0x48c0, 0x4980, 0x8941, 0x4b00, 0x8bc1, 0x8a81, 0x4a40,
     0x4e00, 0x8ec1, 0x8f81, 0x4f40, 0x8d01, 0x4dc0, 0x4c80, 0x8c41,
     0x4400, 0x84c1, 0x8581, 0x4540, 0x8701, 0x47c0, 0x4680, 0x8641,
     0x8201, 0x42c0, 0x4380, 0x8341, 0x4100, 0x81c1, 0x8081, 0x4040]"

definition ext4_crc16 :: "u16 \<Rightarrow> byte list \<Rightarrow> u16" where
  "ext4_crc16 crc_in buf =
     foldl (\<lambda>crc p. (crc16_tab ! unat ((crc XOR ucast p) AND 0xFF)) XOR drop_bit 8 crc) crc_in buf"

section \<open>Linearity and injectivity of the shift register\<close>

lemma crc_bit_xor: "crc_bit poly (x XOR y) = crc_bit poly x XOR crc_bit poly y"
  by (rule bit_word_eqI) (auto simp: crc_bit_def bit_simps)

lemma crc_bits_xor: "(crc_bit poly ^^ n) (x XOR y) = (crc_bit poly ^^ n) x XOR (crc_bit poly ^^ n) y"
  by (induction n) (simp_all add: crc_bit_xor)

lemma crc_bits_high:
  "(\<And>i. i < n \<Longrightarrow> \<not> bit x i) \<Longrightarrow> (crc_bit poly ^^ n) x = drop_bit n x"
proof (induction n arbitrary: x)
  case (Suc n)
  have "crc_bit poly x = drop_bit 1 x"
    using Suc.prems [of 0] by (simp add: crc_bit_def)
  moreover have "\<not> bit (drop_bit 1 x) i" if "i < n" for i
    using Suc.prems [of "Suc i"] that by (simp add: bit_simps)
  ultimately have "(crc_bit poly ^^ n) (crc_bit poly x) = drop_bit n (drop_bit 1 x)"
    using Suc.IH by simp
  then show ?case
    by (simp add: funpow_swap1)
qed simp

lemma crc_bit_inj:
  assumes "bit poly (LENGTH('a::len) - 1)"
  shows "inj (crc_bit (poly :: 'a word))"
proof (rule injI)
  fix x y assume eq: "crc_bit poly x = crc_bit poly y"
  let ?m = "LENGTH('a) - 1"
  have top: "bit (crc_bit poly z) ?m = bit z 0" for z
    using assms by (auto simp: crc_bit_def bit_simps)
  have "bit x 0 = bit y 0"
    using top [of x] top [of y] eq by simp
  then have shift: "drop_bit 1 x = drop_bit 1 y"
    using eq by (auto simp: crc_bit_def split: if_splits)
  show "x = y"
  proof (rule bit_word_eqI)
    fix n show "bit x n = bit y n"
    proof (cases n)
      case 0 with \<open>bit x 0 = bit y 0\<close> show ?thesis by simp
    next
      case (Suc k)
      have "bit (drop_bit 1 x) k = bit (drop_bit 1 y) k" using shift by simp
      with Suc show ?thesis by (simp add: bit_simps)
    qed
  qed
qed

section \<open>What a table has to satisfy\<close>

locale table_crc =
  fixes poly :: "'a::len word" and tab :: "'a word list"
  assumes wide: "8 \<le> LENGTH('a)"
    and reflected: "bit poly (LENGTH('a) - 1)"
    and tab_entry: "i < 256 \<Longrightarrow> tab ! i = (crc_bit poly ^^ 8) (of_nat i)"
begin

lemma mask_8_eq: "(0xFF :: 'a word) = mask 8"
  by (simp add: mask_eq_exp_minus_1)

lemma mask_8_bits: "bit (0xFF :: 'a word) i \<longleftrightarrow> i < 8"
  using wide by (auto simp: mask_8_eq bit_simps)

lemma low_byte_less: "unat ((x :: 'a word) AND 0xFF) < 256"
proof -
  have "unat (x AND 0xFF) = take_bit 8 (unat x)"
    by (simp only: mask_8_eq flip: take_bit_eq_mask unsigned_take_bit_eq)
  also have "\<dots> < 2 ^ 8"
    by (rule take_bit_nat_less_exp)
  finally show ?thesis by simp
qed

lemma step_eq: "crc_tab_step tab c b = crc_byte poly c b"
proof -
  let ?x = "c XOR ucast b" and ?l = "(c XOR ucast b) AND 0xFF"
  have split: "?x = ?l XOR (?x AND NOT 0xFF)"
    by (rule bit_word_eqI) (auto simp: bit_simps)
  have high: "(crc_bit poly ^^ 8) (?x AND NOT 0xFF) = drop_bit 8 (?x AND NOT 0xFF)"
  proof (rule crc_bits_high)
    fix i :: nat assume "i < 8"
    then show "\<not> bit (?x AND NOT 0xFF) i"
      using mask_8_bits [of i] by (auto simp: bit_simps)
  qed
  have same: "drop_bit 8 (?x AND NOT 0xFF) = drop_bit 8 c"
  proof (rule bit_word_eqI)
    fix n assume n: "n < LENGTH('a)"
    have "\<not> bit b (8 + n)"
      using bit_imp_le_length by fastforce
    then show "bit (drop_bit 8 (?x AND NOT 0xFF)) n = bit (drop_bit 8 c) n"
      using mask_8_bits [of "8 + n"] by (auto simp: bit_simps dest: bit_imp_le_length)
  qed
  have low: "(crc_bit poly ^^ 8) ?l = tab ! unat ?l"
    using tab_entry [OF low_byte_less] by simp
  have "crc_byte poly c b = (crc_bit poly ^^ 8) ?l XOR (crc_bit poly ^^ 8) (?x AND NOT 0xFF)"
    unfolding crc_byte_def by (subst split) (rule crc_bits_xor)
  then show ?thesis
    by (simp only: low high same crc_tab_step_def)
qed

lemma foldl_step_eq: "foldl (crc_tab_step tab) c bs = foldl (crc_byte poly) c bs"
  by (induction bs arbitrary: c) (simp_all add: step_eq)

lemma byte_inj_state: "crc_byte poly c b = crc_byte poly c' b \<Longrightarrow> c = c'"
  using inj_fn [OF crc_bit_inj [OF reflected], of 8]
  by (auto simp: crc_byte_def dest!: injD)

lemma byte_inj_byte: "crc_byte poly c b = crc_byte poly c b' \<Longrightarrow> b = b'"
proof -
  assume "crc_byte poly c b = crc_byte poly c b'"
  then have "c XOR ucast b = c XOR ucast b'"
    using inj_fn [OF crc_bit_inj [OF reflected], of 8]
    by (auto simp: crc_byte_def dest!: injD)
  then have eq: "(ucast b :: 'a word) = ucast b'"
    by simp
  show "b = b'"
  proof (rule bit_word_eqI)
    fix n assume "n < LENGTH(8)"
    moreover have "bit (ucast b :: 'a word) n = bit (ucast b' :: 'a word) n"
      using eq by simp
    ultimately show "bit b n = bit b' n"
      using wide by (simp add: bit_simps)
  qed
qed

lemma foldl_inj_state: "foldl (crc_tab_step tab) c bs = foldl (crc_tab_step tab) c' bs \<Longrightarrow> c = c'"
  by (induction bs arbitrary: c c') (auto simp: step_eq dest: byte_inj_state)

lemma altered_byte:
  "b \<noteq> b' \<Longrightarrow> foldl (crc_tab_step tab) c (xs @ b # ys) \<noteq> foldl (crc_tab_step tab) c (xs @ b' # ys)"
  by (auto simp: step_eq dest!: foldl_inj_state byte_inj_byte)

end

section \<open>Both tables of the source satisfy it\<close>

abbreviation crc32_poly :: u32 where "crc32_poly \<equiv> 0xEDB88320"
abbreviation crc16_poly :: u16 where "crc16_poly \<equiv> 0xA001"

text \<open>
  A table of a linear map is spanned by its values at the powers of two: each power doubles the
  table built so far.  This reduces the 256 entries to eight runs of the shift register.
\<close>

definition xor_span :: "'a::len word list \<Rightarrow> 'a word list" where
  "xor_span ts = foldl (\<lambda>L t. L @ map (\<lambda>x. t XOR x) L) [0] ts"

lemma of_nat_exp_add:
  assumes "i < 2 ^ k"
  shows "(of_nat (2 ^ k + i) :: 'a::len word) = push_bit k 1 XOR of_nat i"
proof -
  have off: "\<not> bit i k" using assms by (simp add: bit_iff_odd)
  have "(of_nat (2 ^ k + i) :: 'a word) = push_bit k 1 + of_nat i"
    by (simp add: push_bit_eq_mult)
  also have "\<dots> = push_bit k 1 OR of_nat i"
    using off by (intro disjunctive_add) (auto simp: bit_simps)
  also have "\<dots> = push_bit k 1 XOR of_nat i"
    using off by (intro bit_word_eqI) (auto simp: bit_simps)
  finally show ?thesis .
qed

lemma xor_span_linear:
  assumes lin: "\<And>x y. f (x XOR y) = f x XOR f y"
  shows "map (\<lambda>i. f (of_nat i)) [0..<2 ^ k] = xor_span (map (\<lambda>j. f (push_bit j (1 :: 'a::len word))) [0..<k])"
proof (induction k)
  case 0
  have "f 0 = 0" using lin [of 0 0] by simp
  then show ?case by (simp add: xor_span_def)
next
  case (Suc k)
  have "[0..<2 ^ Suc k] = [0..<2 ^ k] @ map (\<lambda>i. 2 ^ k + i) [0..<2 ^ k]"
    using upt_add_eq_append [of 0 "2 ^ k" "2 ^ k"] map_add_upt [of "2 ^ k" "2 ^ k"]
    by (simp add: mult_2 add.commute)
  moreover have "map (\<lambda>i. f (of_nat (2 ^ k + i))) [0..<2 ^ k]
      = map (\<lambda>x. f (push_bit k 1) XOR x) (map (\<lambda>i. f (of_nat i)) [0..<2 ^ k])"
    by (auto simp: of_nat_exp_add lin simp del: of_nat_add)
  ultimately have "map (\<lambda>i. f (of_nat i)) [0..<2 ^ Suc k]
      = map (\<lambda>i. f (of_nat i)) [0..<2 ^ k] @ map (\<lambda>x. f (push_bit k 1) XOR x) (map (\<lambda>i. f (of_nat i)) [0..<2 ^ k])"
    by (simp only: map_append map_map o_def)
  then show ?case
    by (simp only: Suc.IH) (simp add: xor_span_def)
qed

lemma funpow_8: "(f ^^ 8) x = f (f (f (f (f (f (f (f x)))))))"
  by (simp add: eval_nat_numeral)

lemma tab_from_span:
  assumes "tab = xor_span (map (\<lambda>j. (crc_bit poly ^^ 8) (push_bit j 1)) [0, 1, 2, 3, 4, 5, 6, 7])"
    and "i < 256"
  shows "tab ! i = (crc_bit poly ^^ 8) (of_nat i)"
proof -
  have "[0..<8] = [0, 1, 2, 3, 4, 5, 6, 7 :: nat]" by (simp add: upt_rec)
  then have "tab = map (\<lambda>i. (crc_bit poly ^^ 8) (of_nat i)) [0..<2 ^ 8]"
    using assms(1) xor_span_linear [of "crc_bit poly ^^ 8" 8] by (simp add: crc_bits_xor)
  with assms(2) show ?thesis by simp
qed

lemma crc32_tab_span:
  "crc32_tab = xor_span (map (\<lambda>j. (crc_bit crc32_poly ^^ 8) (push_bit j 1)) [0, 1, 2, 3, 4, 5, 6, 7])"
  by (simp add: funpow_8 crc_bit_def xor_span_def crc32_tab_def)

lemma crc16_tab_span:
  "crc16_tab = xor_span (map (\<lambda>j. (crc_bit crc16_poly ^^ 8) (push_bit j 1)) [0, 1, 2, 3, 4, 5, 6, 7])"
  by (simp add: funpow_8 crc_bit_def xor_span_def crc16_tab_def)

interpretation crc32: table_crc crc32_poly crc32_tab
  by unfold_locales (simp_all add: tab_from_span [OF crc32_tab_span] bit_simps)

interpretation crc16: table_crc crc16_poly crc16_tab
  by unfold_locales (simp_all add: tab_from_span [OF crc16_tab_span] bit_simps)

lemma sparse_crc32_tab_step:
  "sparse_crc32 c bs = foldl (crc_tab_step crc32_tab) (c XOR NOT 0) bs XOR NOT 0"
  by (simp add: sparse_crc32_def crc_tab_step_def [abs_def] Let_def)

lemma ext4_crc16_tab_step: "ext4_crc16 c bs = foldl (crc_tab_step crc16_tab) c bs"
  by (simp add: ext4_crc16_def crc_tab_step_def [abs_def])

section \<open>Properties\<close>

lemma sparse_crc32_append:
  "sparse_crc32 c (xs @ ys) = sparse_crc32 (sparse_crc32 c xs) ys"
  by (simp add: sparse_crc32_tab_step xor.assoc)

lemma sparse_crc32_Nil [simp]: "sparse_crc32 c [] = c"
  by (simp add: sparse_crc32_tab_step xor.assoc)

text \<open>
  C26. The table-driven checksum of sparse images is the CRC-32 of the reflected polynomial 0xEDB88320
  computed bit by bit, for every message and every starting value: each of the 256 table entries is
  the right one.
\<close>

theorem sparse_crc32_bit_serial:
  "sparse_crc32 c bs = foldl (crc_byte crc32_poly) (c XOR NOT 0) bs XOR NOT 0"
  by (simp add: sparse_crc32_tab_step crc32.foldl_step_eq)

text \<open>
  The checksum detects every change confined to one byte, wherever it is and whatever surrounds it.
\<close>

theorem sparse_crc32_altered_byte:
  assumes "b \<noteq> b'"
  shows "sparse_crc32 c (xs @ b # ys) \<noteq> sparse_crc32 c (xs @ b' # ys)"
  using assms unfolding sparse_crc32_tab_step using crc32.altered_byte by simp

theorem sparse_crc32_altered_byte_witness:
  "sparse_crc32 0 ([0x61] @ 0x62 # [0x63]) \<noteq> sparse_crc32 0 ([0x61] @ 0x42 # [0x63])"
  by (rule sparse_crc32_altered_byte) simp

text \<open>
  The 16-bit checksum of ext4 group descriptors is the CRC-16 of the reflected polynomial 0xA001
  computed bit by bit.
\<close>

theorem ext4_crc16_bit_serial: "ext4_crc16 c bs = foldl (crc_byte crc16_poly) c bs"
  by (simp add: ext4_crc16_tab_step crc16.foldl_step_eq)

end
