(* ===== verification/Backed_Block.thy ===== *)
theory Backed_Block
  imports Knife_Prelude
begin

text \<open>
  The block list of \<^verbatim>\<open>libsparse/backed_block.c\<close>: the chunks of a sparse file, each backed by a
  memory buffer, a named file, an open descriptor or a fill value, in a singly linked list that is
  kept sorted by block number and in which adjacent compatible chunks are merged.

  The list is modelled on an explicit heap, because the code keeps a second pointer
  (\<^verbatim>\<open>last_used\<close>) into the list and frees nodes while merging, so that aliasing decides whether a
  call is safe.  A call returns \<^term>\<open>Inl\<close> when the C code would dereference \<^verbatim>\<open>NULL\<close>, touch a
  freed node, free twice, divide by zero, fail an assertion or loop forever.  Addresses are never
  reused, so every access to freed memory is seen.  Loops over the list carry fuel: the number of
  addresses ever handed out bounds the length of every acyclic list, and the lemmas below show
  that well-formed lists never run out of it.
\<close>

section \<open>Data\<close>

abbreviation EINVAL :: int where "EINVAL \<equiv> 22"
abbreviation ENOMEM :: int where "ENOMEM \<equiv> 12"

text \<open>
  The tagged union of \<^verbatim>\<open>struct backed_block\<close>.  A data pointer is a buffer and an offset into it;
  the file name is a heap string of its own, made by \<^verbatim>\<open>strdup\<close>.
\<close>

datatype backing =
    BACKED_BLOCK_DATA nat nat
  | BACKED_BLOCK_FILE ptr int
  | BACKED_BLOCK_FD int int
  | BACKED_BLOCK_FILL u32

record backed_block =
  bb_block :: u32
  bb_len :: u32
  bb_back :: backing
  bb_next :: ptr

record backed_block_list =
  data_blocks :: ptr
  last_used :: ptr
  bbl_block_size :: u32

text \<open>
  The heap: the live nodes, the live strings, the next fresh address, and for each of the coming
  allocations whether it fails (an exhausted list means success).
\<close>

record heap =
  hp_cells :: "addr \<Rightarrow> backed_block option"
  hp_strs :: "addr \<Rightarrow> string option"
  hp_brk :: addr
  hp_oom :: "bool list"

definition empty_heap :: heap where
  "empty_heap = \<lparr>hp_cells = (\<lambda>_. None), hp_strs = (\<lambda>_. None), hp_brk = 0, hp_oom = []\<rparr>"

section \<open>Heap access\<close>

definition load :: "heap \<Rightarrow> ptr \<Rightarrow> backed_block res" where
  "load h p = (case p of None \<Rightarrow> Inl NullDeref
     | Some a \<Rightarrow> (case hp_cells h a of None \<Rightarrow> Inl UseAfterFree | Some bb \<Rightarrow> Inr bb))"

definition modify :: "heap \<Rightarrow> ptr \<Rightarrow> (backed_block \<Rightarrow> backed_block) \<Rightarrow> heap res" where
  "modify h p f = (case p of None \<Rightarrow> Inl NullDeref
     | Some a \<Rightarrow> (case hp_cells h a of None \<Rightarrow> Inl UseAfterFree
         | Some bb \<Rightarrow> Inr (h\<lparr>hp_cells := (hp_cells h)(a \<mapsto> f bb)\<rparr>)))"

text \<open>Whether the next allocation succeeds.\<close>

definition alloc_ok :: "heap \<Rightarrow> bool \<times> heap" where
  "alloc_ok h = (case hp_oom h of [] \<Rightarrow> (True, h) | b # bs \<Rightarrow> (\<not> b, h\<lparr>hp_oom := bs\<rparr>))"

definition malloc_bb :: "heap \<Rightarrow> backed_block \<Rightarrow> ptr \<times> heap" where
  "malloc_bb h bb = (case alloc_ok h of (ok, h) \<Rightarrow>
     if ok then (Some (hp_brk h),
                 h\<lparr>hp_cells := (hp_cells h)(hp_brk h \<mapsto> bb), hp_brk := Suc (hp_brk h)\<rparr>)
     else (None, h))"

definition strdup :: "heap \<Rightarrow> string \<Rightarrow> ptr \<times> heap" where
  "strdup h s = (case alloc_ok h of (ok, h) \<Rightarrow>
     if ok then (Some (hp_brk h),
                 h\<lparr>hp_strs := (hp_strs h)(hp_brk h \<mapsto> s), hp_brk := Suc (hp_brk h)\<rparr>)
     else (None, h))"

definition free_bb :: "heap \<Rightarrow> ptr \<Rightarrow> heap res" where
  "free_bb h p = (case p of None \<Rightarrow> Inr h
     | Some a \<Rightarrow> (case hp_cells h a of None \<Rightarrow> Inl DoubleFree
         | Some _ \<Rightarrow> Inr (h\<lparr>hp_cells := (hp_cells h)(a := None)\<rparr>)))"

definition free_str :: "heap \<Rightarrow> ptr \<Rightarrow> heap res" where
  "free_str h p = (case p of None \<Rightarrow> Inr h
     | Some a \<Rightarrow> (case hp_strs h a of None \<Rightarrow> Inl DoubleFree
         | Some _ \<Rightarrow> Inr (h\<lparr>hp_strs := (hp_strs h)(a := None)\<rparr>)))"

section \<open>Iteration and accessors\<close>

definition backed_block_iter_new :: "backed_block_list \<Rightarrow> ptr" where
  "backed_block_iter_new bbl = data_blocks bbl"

definition backed_block_iter_next :: "heap \<Rightarrow> ptr \<Rightarrow> ptr res" where
  "backed_block_iter_next h bb = bindR (load h bb) (\<lambda>b. Inr (bb_next b))"

definition backed_block_len :: "heap \<Rightarrow> ptr \<Rightarrow> u32 res" where
  "backed_block_len h bb = bindR (load h bb) (\<lambda>b. Inr (bb_len b))"

definition backed_block_block :: "heap \<Rightarrow> ptr \<Rightarrow> u32 res" where
  "backed_block_block h bb = bindR (load h bb) (\<lambda>b. Inr (bb_block b))"

definition backed_block_data :: "heap \<Rightarrow> ptr \<Rightarrow> (nat \<times> nat) res" where
  "backed_block_data h bb = bindR (load h bb) (\<lambda>b.
     case bb_back b of BACKED_BLOCK_DATA buf off \<Rightarrow> Inr (buf, off) | _ \<Rightarrow> Inl AssertFailed)"

definition backed_block_filename :: "heap \<Rightarrow> ptr \<Rightarrow> ptr res" where
  "backed_block_filename h bb = bindR (load h bb) (\<lambda>b.
     case bb_back b of BACKED_BLOCK_FILE fn _ \<Rightarrow> Inr fn | _ \<Rightarrow> Inl AssertFailed)"

definition backed_block_fd :: "heap \<Rightarrow> ptr \<Rightarrow> int res" where
  "backed_block_fd h bb = bindR (load h bb) (\<lambda>b.
     case bb_back b of BACKED_BLOCK_FD fd _ \<Rightarrow> Inr fd | _ \<Rightarrow> Inl AssertFailed)"

definition backed_block_file_offset :: "heap \<Rightarrow> ptr \<Rightarrow> int res" where
  "backed_block_file_offset h bb = bindR (load h bb) (\<lambda>b.
     case bb_back b of BACKED_BLOCK_FILE _ off \<Rightarrow> Inr off
       | BACKED_BLOCK_FD _ off \<Rightarrow> Inr off | _ \<Rightarrow> Inl AssertFailed)"

definition backed_block_fill_val :: "heap \<Rightarrow> ptr \<Rightarrow> u32 res" where
  "backed_block_fill_val h bb = bindR (load h bb) (\<lambda>b.
     case bb_back b of BACKED_BLOCK_FILL v \<Rightarrow> Inr v | _ \<Rightarrow> Inl AssertFailed)"

section \<open>Creation and destruction\<close>

definition backed_block_destroy :: "heap \<Rightarrow> ptr \<Rightarrow> heap res" where
  "backed_block_destroy h bb = bindR (load h bb) (\<lambda>b.
     bindR (case bb_back b of BACKED_BLOCK_FILE fn _ \<Rightarrow> free_str h fn | _ \<Rightarrow> Inr h) (\<lambda>h.
       free_bb h bb))"

text \<open>The result of \<^verbatim>\<open>calloc\<close> is written through without a check.\<close>

definition backed_block_list_new :: "heap \<Rightarrow> u32 \<Rightarrow> (backed_block_list \<times> heap) res" where
  "backed_block_list_new h block_size = (case alloc_ok h of (ok, h) \<Rightarrow>
     if ok then Inr (\<lparr>data_blocks = None, last_used = None, bbl_block_size = block_size\<rparr>, h)
     else Inl NullDeref)"

fun destroy_loop :: "nat \<Rightarrow> heap \<Rightarrow> ptr \<Rightarrow> heap res" where
  "destroy_loop fuel h None = Inr h"
| "destroy_loop 0 h (Some a) = Inl Diverges"
| "destroy_loop (Suc fuel) h (Some a) =
     bindR (load h (Some a)) (\<lambda>b.
       bindR (backed_block_destroy h (Some a)) (\<lambda>h. destroy_loop fuel h (bb_next b)))"

definition backed_block_list_destroy :: "heap \<Rightarrow> backed_block_list \<Rightarrow> heap res" where
  "backed_block_list_destroy h bbl = destroy_loop (hp_brk h) h (data_blocks bbl)"

section \<open>Moving a run of nodes to another list\<close>

text \<open>\<^verbatim>\<open>for (end = start; end && end->next; end = end->next);\<close>\<close>

fun last_loop :: "nat \<Rightarrow> heap \<Rightarrow> ptr \<Rightarrow> ptr res" where
  "last_loop fuel h None = Inr None"
| "last_loop 0 h (Some a) = Inl Diverges"
| "last_loop (Suc fuel) h (Some a) =
     bindR (load h (Some a)) (\<lambda>b.
       if bb_next b = None then Inr (Some a) else last_loop fuel h (bb_next b))"

text \<open>Unlink: the node whose successor is \<open>start\<close> gets \<open>after\<close> as its successor.\<close>

fun unlink_loop :: "nat \<Rightarrow> heap \<Rightarrow> ptr \<Rightarrow> ptr \<Rightarrow> ptr \<Rightarrow> heap res" where
  "unlink_loop fuel h None start after = Inr h"
| "unlink_loop 0 h (Some a) start after = Inl Diverges"
| "unlink_loop (Suc fuel) h (Some a) start after =
     bindR (load h (Some a)) (\<lambda>b.
       if bb_next b = start then modify h (Some a) (\<lambda>b. b\<lparr>bb_next := after\<rparr>)
       else unlink_loop fuel h (bb_next b) start after)"

text \<open>
  Relink: after the first node that is the last one or whose successor has a larger block number
  than \<open>start\<close>.
\<close>

fun relink_loop :: "nat \<Rightarrow> heap \<Rightarrow> ptr \<Rightarrow> ptr \<Rightarrow> ptr \<Rightarrow> heap res" where
  "relink_loop fuel h None start end = Inr h"
| "relink_loop 0 h (Some a) start end = Inl Diverges"
| "relink_loop (Suc fuel) h (Some a) start end =
     bindR (load h (Some a)) (\<lambda>b.
     bindR (if bb_next b = None then Inr True
            else bindR (load h (bb_next b)) (\<lambda>nb.
                 bindR (load h start) (\<lambda>s. Inr (bb_block s < bb_block nb)))) (\<lambda>here.
       if here then
         bindR (modify h end (\<lambda>e. e\<lparr>bb_next := bb_next b\<rparr>)) (\<lambda>h.
           modify h (Some a) (\<lambda>b. b\<lparr>bb_next := start\<rparr>))
       else relink_loop fuel h (bb_next b) start end))"

text \<open>The two halves of the function: taking the run out of \<open>from\<close>, putting it into \<open>to\<close>.\<close>

definition unlink_run :: "heap \<Rightarrow> backed_block_list \<Rightarrow> ptr \<Rightarrow> ptr \<Rightarrow> (heap \<times> backed_block_list) res" where
  "unlink_run h from start after =
    (if data_blocks from = start then Inr (h, from\<lparr>data_blocks := after\<rparr>)
     else bindR (unlink_loop (hp_brk h) h (data_blocks from) start after) (\<lambda>h. Inr (h, from)))"

definition link_run :: "heap \<Rightarrow> backed_block_list \<Rightarrow> ptr \<Rightarrow> ptr \<Rightarrow> (heap \<times> backed_block_list) res" where
  "link_run h to start end =
    (if data_blocks to = None
     then bindR (modify h end (\<lambda>e. e\<lparr>bb_next := None\<rparr>)) (\<lambda>h. Inr (h, to\<lparr>data_blocks := start\<rparr>))
     else bindR (relink_loop (hp_brk h) h (data_blocks to) start end) (\<lambda>h. Inr (h, to)))"

definition backed_block_list_move ::
  "heap \<Rightarrow> backed_block_list \<Rightarrow> backed_block_list \<Rightarrow> ptr \<Rightarrow> ptr
   \<Rightarrow> (heap \<times> backed_block_list \<times> backed_block_list) res" where
  "backed_block_list_move h from to start end =
    (let start = (if start = None then data_blocks from else start) in
     bindR (if end = None then last_loop (hp_brk h) h start else Inr end) (\<lambda>end.
     if start = None \<or> end = None then Inr (h, from, to)
     else
      (let from = from\<lparr>last_used := None\<rparr>; to = to\<lparr>last_used := None\<rparr> in
       bindR (load h end) (\<lambda>e.
       bindR (unlink_run h from start (bb_next e)) (\<lambda>(h, from).
       bindR (link_run h to start end) (\<lambda>(h, to).
       Inr (h, from, to)))))))"

section \<open>Merging and queueing\<close>

text \<open>
  \<^verbatim>\<open>merge_bb\<close>: node \<open>b\<close> is folded into its predecessor \<open>a\<close> and freed when the two are of the
  same type, adjacent, and continue the same backing.  The two file names are compared as pointers.
\<close>

definition same_type :: "backing \<Rightarrow> backing \<Rightarrow> bool" where
  "same_type k k' = (case (k, k') of
       (BACKED_BLOCK_DATA _ _, BACKED_BLOCK_DATA _ _) \<Rightarrow> True
     | (BACKED_BLOCK_FILE _ _, BACKED_BLOCK_FILE _ _) \<Rightarrow> True
     | (BACKED_BLOCK_FD _ _, BACKED_BLOCK_FD _ _) \<Rightarrow> True
     | (BACKED_BLOCK_FILL _, BACKED_BLOCK_FILL _) \<Rightarrow> True
     | _ \<Rightarrow> False)"

definition continues :: "u32 \<Rightarrow> backing \<Rightarrow> backing \<Rightarrow> bool" where
  "continues len k k' = (case (k, k') of
       (BACKED_BLOCK_FILL v, BACKED_BLOCK_FILL w) \<Rightarrow> v = w
     | (BACKED_BLOCK_FILE fn off, BACKED_BLOCK_FILE fn' off') \<Rightarrow> fn = fn' \<and> off + uint len = off'
     | (BACKED_BLOCK_FD fd off, BACKED_BLOCK_FD fd' off') \<Rightarrow> fd = fd' \<and> off + uint len = off'
     | _ \<Rightarrow> False)"

definition merge_bb :: "heap \<Rightarrow> backed_block_list \<Rightarrow> ptr \<Rightarrow> ptr \<Rightarrow> (int \<times> heap) res" where
  "merge_bb h bbl a b =
    (if a = None \<or> b = None then Inr (- EINVAL, h)
     else
       bindR (load h a) (\<lambda>na. bindR (load h b) (\<lambda>nb.
       bindR (assertR (bb_block na < bb_block nb) AssertFailed) (\<lambda>_.
       if \<not> same_type (bb_back na) (bb_back nb)
       then Inr (- EINVAL, h)
       else
         bindR (assertR (bbl_block_size bbl \<noteq> 0) DivByZero) (\<lambda>_.
         let block_len = bb_len na div bbl_block_size bbl in
         if bb_block na + block_len \<noteq> bb_block nb then Inr (- EINVAL, h)
         else if \<not> continues (bb_len na) (bb_back na) (bb_back nb) then Inr (- EINVAL, h)
         else
           bindR (modify h a (\<lambda>n. n\<lparr>bb_len := bb_len na + bb_len nb, bb_next := bb_next nb\<rparr>)) (\<lambda>h.
           bindR (backed_block_destroy h b) (\<lambda>h. Inr (0, h))))))))"

text \<open>\<^verbatim>\<open>for (; bb->next && bb->next->block < new_bb->block; bb = bb->next);\<close>\<close>

fun find_loop :: "nat \<Rightarrow> heap \<Rightarrow> ptr \<Rightarrow> u32 \<Rightarrow> ptr res" where
  "find_loop 0 h bb nblk = Inl Diverges"
| "find_loop (Suc fuel) h bb nblk =
     bindR (load h bb) (\<lambda>b.
       if bb_next b = None then Inr bb
       else bindR (load h (bb_next b)) (\<lambda>nb.
         if bb_block nb < nblk then find_loop fuel h (bb_next b) nblk else Inr bb))"

text \<open>
  The tail of \<^verbatim>\<open>queue_bb\<close> from the point where the predecessor \<open>b\<close> of the new node is known:
  link, merge with the successor, merge with the predecessor.
\<close>

definition link_and_merge :: "heap \<Rightarrow> backed_block_list \<Rightarrow> ptr \<Rightarrow> ptr \<Rightarrow> (int \<times> heap \<times> backed_block_list) res" where
  "link_and_merge h bbl bb new_bb =
     bindR (load h bb) (\<lambda>b.
     bindR (if bb_next b = None then modify h bb (\<lambda>b. b\<lparr>bb_next := new_bb\<rparr>)
            else bindR (modify h new_bb (\<lambda>n. n\<lparr>bb_next := bb_next b\<rparr>)) (\<lambda>h.
                   modify h bb (\<lambda>b. b\<lparr>bb_next := new_bb\<rparr>))) (\<lambda>h.
     bindR (load h new_bb) (\<lambda>n.
     bindR (merge_bb h bbl new_bb (bb_next n)) (\<lambda>(_, h).
     bindR (merge_bb h bbl bb new_bb) (\<lambda>(_, h).
     Inr (0, h, bbl))))))"

definition queue_bb :: "heap \<Rightarrow> backed_block_list \<Rightarrow> ptr \<Rightarrow> (int \<times> heap \<times> backed_block_list) res" where
  "queue_bb h bbl new_bb =
    (if data_blocks bbl = None then Inr (0, h, bbl\<lparr>data_blocks := new_bb\<rparr>)
     else
       bindR (load h (data_blocks bbl)) (\<lambda>first. bindR (load h new_bb) (\<lambda>new.
       if bb_block new < bb_block first then
         bindR (modify h new_bb (\<lambda>n. n\<lparr>bb_next := data_blocks bbl\<rparr>)) (\<lambda>h.
           Inr (0, h, bbl\<lparr>data_blocks := new_bb\<rparr>))
       else
         bindR (if last_used bbl = None then Inr (data_blocks bbl)
                else bindR (load h (last_used bbl)) (\<lambda>lu.
                  if bb_block lu < bb_block new then Inr (last_used bbl)
                  else Inr (data_blocks bbl))) (\<lambda>bb.
         let bbl = bbl\<lparr>last_used := new_bb\<rparr> in
         bindR (find_loop (Suc (hp_brk h)) h bb (bb_block new)) (\<lambda>bb.
           link_and_merge h bbl bb new_bb)))))"

definition add_bb :: "heap \<Rightarrow> backed_block_list \<Rightarrow> u32 \<Rightarrow> u32 \<Rightarrow> backing
    \<Rightarrow> (int \<times> heap \<times> backed_block_list) res" where
  "add_bb h bbl block len back =
    (case malloc_bb h \<lparr>bb_block = block, bb_len = len, bb_back = back, bb_next = None\<rparr> of
       (None, h) \<Rightarrow> Inr (- ENOMEM, h, bbl)
     | (Some a, h) \<Rightarrow> queue_bb h bbl (Some a))"

definition backed_block_add_fill :: "heap \<Rightarrow> backed_block_list \<Rightarrow> u32 \<Rightarrow> u32 \<Rightarrow> u32
    \<Rightarrow> (int \<times> heap \<times> backed_block_list) res" where
  "backed_block_add_fill h bbl fill_val len block =
     add_bb h bbl block len (BACKED_BLOCK_FILL fill_val)"

definition backed_block_add_data :: "heap \<Rightarrow> backed_block_list \<Rightarrow> nat \<times> nat \<Rightarrow> u32 \<Rightarrow> u32
    \<Rightarrow> (int \<times> heap \<times> backed_block_list) res" where
  "backed_block_add_data h bbl data len block =
     add_bb h bbl block len (BACKED_BLOCK_DATA (fst data) (snd data))"

text \<open>The node is allocated first, the copy of the name second and unchecked.\<close>

definition backed_block_add_file :: "heap \<Rightarrow> backed_block_list \<Rightarrow> string \<Rightarrow> int \<Rightarrow> u32 \<Rightarrow> u32
    \<Rightarrow> (int \<times> heap \<times> backed_block_list) res" where
  "backed_block_add_file h bbl filename offset len block =
    (case malloc_bb h \<lparr>bb_block = block, bb_len = len,
                       bb_back = BACKED_BLOCK_FILE None offset, bb_next = None\<rparr> of
       (None, h) \<Rightarrow> Inr (- ENOMEM, h, bbl)
     | (Some a, h) \<Rightarrow>
         (case strdup h filename of (fn, h) \<Rightarrow>
            bindR (modify h (Some a) (\<lambda>b. b\<lparr>bb_back := BACKED_BLOCK_FILE fn offset\<rparr>)) (\<lambda>h.
              queue_bb h bbl (Some a))))"

definition backed_block_add_fd :: "heap \<Rightarrow> backed_block_list \<Rightarrow> int \<Rightarrow> int \<Rightarrow> u32 \<Rightarrow> u32
    \<Rightarrow> (int \<times> heap \<times> backed_block_list) res" where
  "backed_block_add_fd h bbl fd offset len block =
     add_bb h bbl block len (BACKED_BLOCK_FD fd offset)"

section \<open>Splitting\<close>

text \<open>
  \<^verbatim>\<open>*new_bb = *bb\<close> copies the whole node, the file name pointer included; then the backing of the
  new node is advanced by the length that stays behind.
\<close>

fun advance :: "u32 \<Rightarrow> backing \<Rightarrow> backing" where
  "advance max_len (BACKED_BLOCK_DATA buf off) = BACKED_BLOCK_DATA buf (off + unat max_len)"
| "advance max_len (BACKED_BLOCK_FILE fn off) = BACKED_BLOCK_FILE fn (off + uint max_len)"
| "advance max_len (BACKED_BLOCK_FD fd off) = BACKED_BLOCK_FD fd (off + uint max_len)"
| "advance max_len (BACKED_BLOCK_FILL v) = BACKED_BLOCK_FILL v"

definition backed_block_split :: "heap \<Rightarrow> backed_block_list \<Rightarrow> ptr \<Rightarrow> u32 \<Rightarrow> (int \<times> heap) res" where
  "backed_block_split h bbl bb max_len =
     bindR (assertR (bbl_block_size bbl \<noteq> 0) DivByZero) (\<lambda>_.
     let max_len = bbl_block_size bbl * (max_len div bbl_block_size bbl) in
     bindR (load h bb) (\<lambda>b.
     if bb_len b \<le> max_len then Inr (0, h)
     else
       (case malloc_bb h \<lparr>bb_block = bb_block b + max_len div bbl_block_size bbl,
               bb_len = bb_len b - max_len, bb_back = advance max_len (bb_back b),
               bb_next = bb_next b\<rparr> of
          (None, h) \<Rightarrow> Inr (- ENOMEM, h)
        | (Some a, h) \<Rightarrow>
            bindR (modify h bb (\<lambda>b. b\<lparr>bb_next := Some a, bb_len := max_len\<rparr>)) (\<lambda>h.
              Inr (0, h)))))"

section \<open>Lists on the heap\<close>

text \<open>
  \<open>bb_path h p as q\<close>: following the \<open>next\<close> pointers from \<open>p\<close> visits the live nodes \<open>as\<close> and
  arrives at \<open>q\<close>.
\<close>

fun bb_path :: "heap \<Rightarrow> ptr \<Rightarrow> addr list \<Rightarrow> ptr \<Rightarrow> bool" where
  "bb_path h p [] q = (p = q)"
| "bb_path h p (a # as) q = (p = Some a \<and>
     (case hp_cells h a of None \<Rightarrow> False | Some bb \<Rightarrow> bb_path h (bb_next bb) as q))"

type_synonym chunk = "u32 \<times> u32 \<times> backing"

definition chunk_of :: "backed_block \<Rightarrow> chunk" where
  "chunk_of bb = (bb_block bb, bb_len bb, bb_back bb)"

definition chunks :: "heap \<Rightarrow> addr list \<Rightarrow> chunk list" where
  "chunks h as = map (\<lambda>a. chunk_of (the (hp_cells h a))) as"

lemma chunks_simps [simp, heap_simps]:
  "chunks h [] = []"
  "chunks h (a # as) = chunk_of (the (hp_cells h a)) # chunks h as"
  "chunks h (as @ bs) = chunks h as @ chunks h bs"
  "length (chunks h as) = length as"
  "chunks h as = [] \<longleftrightarrow> as = []"
  by (simp_all add: chunks_def)

lemma load_simps [simp, heap_simps]:
  "load h None = Inl NullDeref"
  "load h (Some a) = (case hp_cells h a of None \<Rightarrow> Inl UseAfterFree | Some bb \<Rightarrow> Inr bb)"
  by (simp_all add: load_def)

lemma modify_simps [simp, heap_simps]:
  "modify h None f = Inl NullDeref"
  "modify h (Some a) f = (case hp_cells h a of None \<Rightarrow> Inl UseAfterFree
     | Some bb \<Rightarrow> Inr (h\<lparr>hp_cells := (hp_cells h)(a \<mapsto> f bb)\<rparr>))"
  by (simp_all add: modify_def)

lemma bb_path_append:
  "bb_path h p (as @ bs) q \<longleftrightarrow> (\<exists>m. bb_path h p as m \<and> bb_path h m bs q)"
  by (induction as arbitrary: p) (auto split: option.splits)

lemma bb_path_None [simp]: "bb_path h None as q \<longleftrightarrow> as = [] \<and> q = None"
  by (cases as) auto

lemma bb_path_live: "bb_path h p as q \<Longrightarrow> a \<in> set as \<Longrightarrow> \<exists>bb. hp_cells h a = Some bb"
  by (induction as arbitrary: p) (auto split: option.splits)

lemma bb_path_cong:
  "(\<And>a. a \<in> set as \<Longrightarrow> hp_cells h' a = hp_cells h a) \<Longrightarrow> bb_path h' p as q = bb_path h p as q"
  by (induction as arbitrary: p) (auto split: option.splits)

lemma chunks_cong:
  "(\<And>a. a \<in> set as \<Longrightarrow> hp_cells h' a = hp_cells h a) \<Longrightarrow> chunks h' as = chunks h as"
  by (simp add: chunks_def)

lemma bb_path_upd [simp]:
  "a \<notin> set as \<Longrightarrow> bb_path (h\<lparr>hp_cells := (hp_cells h)(a := x)\<rparr>) p as q = bb_path h p as q"
  by (rule bb_path_cong) auto

lemma chunks_upd [simp]:
  "a \<notin> set as \<Longrightarrow> chunks (h\<lparr>hp_cells := (hp_cells h)(a := x)\<rparr>) as = chunks h as"
  by (rule chunks_cong) auto

lemma bb_path_unique:
  "bb_path h p as None \<Longrightarrow> bb_path h p bs None \<Longrightarrow> as = bs"
proof (induction as arbitrary: p bs)
  case Nil then show ?case by (cases bs) auto
next
  case (Cons a as)
  then obtain bs' where "bs = a # bs'" by (cases bs) auto
  with Cons show ?case by (auto split: option.splits)
qed

lemma bb_path_distinct: "bb_path h p as None \<Longrightarrow> distinct as"
proof (induction as arbitrary: p)
  case (Cons a as)
  then obtain bb where bb: "hp_cells h a = Some bb" and rest: "bb_path h (bb_next bb) as None"
    by (auto split: option.splits)
  have "a \<notin> set as"
  proof
    assume "a \<in> set as"
    then obtain xs ys where as: "as = xs @ a # ys" by (meson split_list)
    then have "bb_path h (bb_next bb) ys None"
      using rest bb by (auto simp: bb_path_append)
    then show False
      using bb_path_unique [OF rest] as by fastforce
  qed
  with Cons rest show ?case by auto
qed simp

text \<open>Every live node lies below the next fresh address, which bounds the length of a list.\<close>

definition heap_ok :: "heap \<Rightarrow> bool" where
  "heap_ok h \<longleftrightarrow> (\<forall>a. hp_cells h a \<noteq> None \<longrightarrow> a < hp_brk h) \<and> (\<forall>a. hp_strs h a \<noteq> None \<longrightarrow> a < hp_brk h)"

lemma bb_path_length:
  assumes "heap_ok h" and "bb_path h p as None"
  shows "length as \<le> hp_brk h"
proof -
  have "set as \<subseteq> {..<hp_brk h}"
    using assms bb_path_live by (fastforce simp: heap_ok_def)
  then have "card (set as) \<le> hp_brk h"
    using card_mono [of "{..<hp_brk h}"] by fastforce
  then show ?thesis
    using bb_path_distinct [OF assms(2)] by (simp add: distinct_card)
qed

section \<open>The abstract block list\<close>

text \<open>
  On the level of lists of chunks, queueing inserts by block number and then merges the new chunk
  with its successor and the predecessor with the new chunk.  A chunk that goes to the front is not
  merged: the source returns before it tries.
\<close>

abbreviation blk :: "chunk \<Rightarrow> u32" where "blk c \<equiv> fst c"
abbreviation len :: "chunk \<Rightarrow> u32" where "len c \<equiv> fst (snd c)"
abbreviation bck :: "chunk \<Rightarrow> backing" where "bck c \<equiv> snd (snd c)"

definition can_merge :: "u32 \<Rightarrow> chunk \<Rightarrow> chunk \<Rightarrow> bool" where
  "can_merge bs c d \<longleftrightarrow> blk c + len c div bs = blk d \<and> continues (len c) (bck c) (bck d)"

fun merge_next :: "u32 \<Rightarrow> chunk \<Rightarrow> chunk list \<Rightarrow> chunk list" where
  "merge_next bs c [] = [c]"
| "merge_next bs c (d # ds) =
     (if can_merge bs c d then (blk c, len c + len d, bck c) # ds else c # d # ds)"

fun insert_after :: "u32 \<Rightarrow> chunk \<Rightarrow> chunk \<Rightarrow> chunk list \<Rightarrow> chunk list" where
  "insert_after bs n c [] = merge_next bs c [n]"
| "insert_after bs n c (d # ds) =
     (if blk d < blk n then c # insert_after bs n d ds
      else merge_next bs c (merge_next bs n (d # ds)))"

fun queue_chunk :: "u32 \<Rightarrow> chunk \<Rightarrow> chunk list \<Rightarrow> chunk list" where
  "queue_chunk bs n [] = [n]"
| "queue_chunk bs n (c # cs) = (if blk n < blk c then n # c # cs else insert_after bs n c cs)"

text \<open>Whether the new chunk ends up inside its predecessor.\<close>

definition absorbed :: "u32 \<Rightarrow> chunk \<Rightarrow> chunk list \<Rightarrow> bool" where
  "absorbed bs n cs = (case filter (\<lambda>c. blk c < blk n) cs of
      [] \<Rightarrow> False | c # cs \<Rightarrow> can_merge bs (last (c # cs)) n)"

section \<open>Searching\<close>

lemma find_loop_path:
  assumes "bb_path h (Some a) (a # as) None" and "length as < fuel"
    and "sorted_wrt (<) (map blk (chunks h (a # as)))"
    and "blk (hd (chunks h (a # as))) < nblk"
  shows "\<exists>pre b post. a # as = pre @ b # post \<and> find_loop fuel h (Some a) nblk = Inr (Some b)
     \<and> (\<forall>c\<in>set (chunks h (pre @ [b])). blk c < nblk) \<and> (\<forall>c\<in>set (chunks h post). nblk \<le> blk c)"
  using assms
proof (induction as arbitrary: a fuel)
  case Nil
  then obtain bb f where bb: "hp_cells h a = Some bb" "bb_next bb = None" and f: "fuel = Suc f"
    by (cases fuel) (auto split: option.splits)
  then have "find_loop fuel h (Some a) nblk = Inr (Some a)" by simp
  with Nil show ?case by (intro exI [of _ "[]"] exI [of _ a]) simp
next
  case (Cons a' as)
  then obtain bb bb' f where bb: "hp_cells h a = Some bb" "bb_next bb = Some a'"
    and bb': "hp_cells h a' = Some bb'" and f: "fuel = Suc f"
    and path: "bb_path h (Some a') (a' # as) None"
    by (cases fuel) (auto split: option.splits)
  show ?case
  proof (cases "bb_block bb' < nblk")
    case True
    have "\<exists>pre b post. a' # as = pre @ b # post \<and> find_loop f h (Some a') nblk = Inr (Some b)
       \<and> (\<forall>c\<in>set (chunks h (pre @ [b])). blk c < nblk) \<and> (\<forall>c\<in>set (chunks h post). nblk \<le> blk c)"
      using Cons.prems f bb' True path
      by (intro Cons.IH) (auto simp: chunk_of_def)
    then obtain pre b post where *: "a' # as = pre @ b # post"
        "find_loop f h (Some a') nblk = Inr (Some b)"
        "\<forall>c\<in>set (chunks h (pre @ [b])). blk c < nblk" "\<forall>c\<in>set (chunks h post). nblk \<le> blk c"
      by blast
    have "find_loop fuel h (Some a) nblk = Inr (Some b)"
      using f bb bb' True * by simp
    with * Cons.prems show ?thesis
      by (intro exI [of _ "a # pre"] exI [of _ b] exI [of _ post]) auto
  next
    case False
    then have "find_loop fuel h (Some a) nblk = Inr (Some a)"
      using f bb bb' by simp
    moreover have "\<forall>c\<in>set (chunks h (a' # as)). nblk \<le> blk c"
      using Cons.prems(3) False bb' by (fastforce simp: chunk_of_def)
    ultimately show ?thesis using Cons.prems
      by (intro exI [of _ "[]"] exI [of _ a] exI [of _ "a' # as"]) auto
  qed
qed

section \<open>The representation invariant\<close>

text \<open>
  Each node that is backed by a named file owns its copy of the name: the names are live and no
  two nodes share one.
\<close>

definition fname :: "chunk \<Rightarrow> addr list" where
  "fname c = (case bck c of BACKED_BLOCK_FILE (Some f) _ \<Rightarrow> [f] | _ \<Rightarrow> [])"

definition names_ok :: "heap \<Rightarrow> chunk list \<Rightarrow> bool" where
  "names_ok h cs \<longleftrightarrow> distinct (concat (map fname cs))
     \<and> (\<forall>c\<in>set cs. \<forall>f\<in>set (fname c). hp_strs h f \<noteq> None)"

definition list_inv :: "heap \<Rightarrow> ptr \<Rightarrow> addr list \<Rightarrow> bool" where
  "list_inv h p as \<longleftrightarrow> heap_ok h \<and> bb_path h p as None
     \<and> sorted_wrt (<) (map fst (chunks h as)) \<and> names_ok h (chunks h as)"

lemma list_inv_live: "list_inv h p as \<Longrightarrow> a \<in> set as \<Longrightarrow> \<exists>bb. hp_cells h a = Some bb"
  by (auto simp: list_inv_def dest: bb_path_live)

lemma list_inv_distinct: "list_inv h p as \<Longrightarrow> distinct as"
  by (auto simp: list_inv_def dest: bb_path_distinct)

lemma chunk_of_simps [simp]:
  "blk (chunk_of b) = bb_block b" "len (chunk_of b) = bb_len b" "bck (chunk_of b) = bb_back b"
  by (simp_all add: chunk_of_def)

section \<open>Merging on the heap\<close>

lemma merge_bb_eq:
  assumes na: "hp_cells h a = Some na" and nb: "hp_cells h b = Some nb" and ab: "a \<noteq> b"
    and lt: "bb_block na < bb_block nb" and bs: "bbl_block_size l \<noteq> 0"
    and own: "set (fname (chunk_of na)) \<inter> set (fname (chunk_of nb)) = {}"
  shows "merge_bb h l (Some a) (Some b) =
    (if can_merge (bbl_block_size l) (chunk_of na) (chunk_of nb)
     then Inr (0, h\<lparr>hp_cells := (hp_cells h)
            (a \<mapsto> na\<lparr>bb_len := bb_len na + bb_len nb, bb_next := bb_next nb\<rparr>, b := None)\<rparr>)
     else Inr (- EINVAL, h))"
proof -
  have same: "same_type (bb_back na) (bb_back nb)" if "continues (bb_len na) (bb_back na) (bb_back nb)"
    using that by (auto simp: continues_def same_type_def split: backing.splits)
  have free: "(case bb_back nb of BACKED_BLOCK_FILE fn _ \<Rightarrow> free_str h' fn | _ \<Rightarrow> Inr h') = Inr h'"
    if "continues (bb_len na) (bb_back na) (bb_back nb)" for h'
    using that own
    by (auto simp: continues_def fname_def free_str_def split: backing.splits option.splits)
  show ?thesis
    using assms(1-5) same free
    by (auto simp: merge_bb_def can_merge_def backed_block_destroy_def free_bb_def Let_def)
qed

lemma bb_path_drop_second:
  assumes "bb_path h p (pre @ a # b # post) None"
    and "hp_cells h a = Some na" and "hp_cells h b = Some nb"
    and "distinct (pre @ a # b # post)"
  shows "bb_path (h\<lparr>hp_cells := (hp_cells h)(a \<mapsto> na\<lparr>bb_len := l, bb_next := bb_next nb\<rparr>, b := None)\<rparr>)
    p (pre @ a # post) None"
proof -
  let ?h = "h\<lparr>hp_cells := (hp_cells h)(a \<mapsto> na\<lparr>bb_len := l, bb_next := bb_next nb\<rparr>, b := None)\<rparr>"
  from assms(1-3) have "bb_path h p pre (Some a)" "bb_path h (bb_next nb) post None"
    by (auto simp: bb_path_append)
  moreover have "bb_path ?h q xs r = bb_path h q xs r" if "a \<notin> set xs" "b \<notin> set xs" for q xs r
    using that by (intro bb_path_cong) auto
  ultimately show ?thesis
    using assms(4) by (auto simp: bb_path_append)
qed

text \<open>
  One call of \<^verbatim>\<open>merge_bb\<close> on a node and its successor: it never faults, it keeps the invariant,
  and on the chunks it is \<open>merge_next\<close>.
\<close>

lemma merge_step:
  assumes inv: "list_inv h p (pre @ a # rest)" and bs: "bbl_block_size l \<noteq> 0"
    and na: "hp_cells h a = Some na"
  obtains r h' rest' where "merge_bb h l (Some a) (bb_next na) = Inr (r, h')"
    and "list_inv h' p (pre @ a # rest')" and "chunks h' pre = chunks h pre"
    and "chunks h' (a # rest') = merge_next (bbl_block_size l) (chunk_of na) (chunks h rest)"
    and "rest' = (if rest \<noteq> [] \<and> can_merge (bbl_block_size l) (chunk_of na) (hd (chunks h rest)) then tl rest else rest)"
    and "rest' \<noteq> rest \<longrightarrow> hp_cells h' (hd rest) = None" and "set rest' \<subseteq> set rest"
    and "hp_brk h' = hp_brk h" and "hp_oom h' = hp_oom h" and "hp_strs h' = hp_strs h"
    and "\<forall>x. x \<notin> set (a # rest) \<longrightarrow> hp_cells h' x = hp_cells h x"
proof (cases rest)
  case Nil
  with inv na have "bb_next na = None" by (auto simp: list_inv_def bb_path_append)
  with Nil inv na show ?thesis by (intro that [of "- EINVAL" h "[]"]) (auto simp: merge_bb_def)
next
  case (Cons b post)
  with inv na obtain nb where nb: "hp_cells h b = Some nb" "bb_next na = Some b"
    by (auto simp: list_inv_def bb_path_append split: option.splits)
  have dist: "distinct (pre @ a # b # post)"
    using list_inv_distinct [OF inv] Cons by simp
  have sorted: "sorted_wrt (<) (map fst (chunks h (pre @ a # b # post)))"
    and names: "names_ok h (chunks h (pre @ a # b # post))"
    and path: "bb_path h p (pre @ a # b # post) None" and hok: "heap_ok h"
    using inv Cons by (auto simp: list_inv_def)
  have lt: "bb_block na < bb_block nb"
    using sorted na nb by (simp add: sorted_wrt_append)
  have own: "set (fname (chunk_of na)) \<inter> set (fname (chunk_of nb)) = {}"
    using names na nb by (auto simp: names_ok_def)
  note eq = merge_bb_eq [OF na nb(1) _ lt bs own]
  show ?thesis
  proof (cases "can_merge (bbl_block_size l) (chunk_of na) (chunk_of nb)")
    case False
    with eq dist nb have "merge_bb h l (Some a) (bb_next na) = Inr (- EINVAL, h)" by simp
    with False inv Cons na nb show ?thesis by (intro that [of "- EINVAL" h rest]) auto
  next
    case True
    let ?na = "na\<lparr>bb_len := bb_len na + bb_len nb, bb_next := bb_next nb\<rparr>"
    let ?h = "h\<lparr>hp_cells := (hp_cells h)(a \<mapsto> ?na, b := None)\<rparr>"
    have call: "merge_bb h l (Some a) (bb_next na) = Inr (0, ?h)"
      using eq dist nb True by simp
    have keep: "chunks ?h xs = chunks h xs" if "a \<notin> set xs" "b \<notin> set xs" for xs
      using that by (intro chunks_cong) auto
    have pre: "chunks ?h pre = chunks h pre" and post: "chunks ?h post = chunks h post"
      using dist by (auto intro!: keep)
    have a: "chunks ?h (a # post) = (bb_block na, bb_len na + bb_len nb, bb_back na) # chunks h post"
      using post dist by (simp add: chunk_of_def)
    have "list_inv ?h p (pre @ a # post)"
    proof -
      have "bb_path ?h p (pre @ a # post) None"
        by (rule bb_path_drop_second [OF path na nb(1) dist])
      moreover have "sorted_wrt (<) (map fst (chunks ?h (pre @ a # post)))"
        using sorted na nb by (simp only: chunks_simps(3) pre a) (auto simp: sorted_wrt_append)
      moreover have "fname (bb_block na, bb_len na + bb_len nb, bb_back na) = fname (chunk_of na)"
        by (simp add: fname_def)
      then have "names_ok ?h (chunks ?h (pre @ a # post))"
        using names na nb by (simp only: chunks_simps(3) pre a) (auto simp: names_ok_def)
      moreover have "heap_ok ?h"
        using hok na by (auto simp: heap_ok_def)
      ultimately show ?thesis by (simp add: list_inv_def)
    qed
    with call pre a True Cons na nb dist show ?thesis
      by (intro that [of 0 ?h post]) auto
  qed
qed

section \<open>Queueing on the heap\<close>

lemma insert_after_split:
  assumes "x # xs = pre @ c # post"
    and "\<forall>d\<in>set (pre @ [c]). blk d < blk n" and "\<forall>d\<in>set post. \<not> blk d < blk n"
  shows "insert_after bs n x xs = pre @ merge_next bs c (merge_next bs n post)"
  using assms
proof (induction pre arbitrary: x xs)
  case Nil
  then show ?case by (cases post) auto
next
  case (Cons p pre)
  then obtain y ys where xs: "xs = y # ys" "y # ys = pre @ c # post"
    by (cases xs) auto
  have "blk y < blk n"
    using xs Cons.prems by (cases pre) auto
  then have "insert_after bs n x xs = x # insert_after bs n y ys"
    unfolding xs(1) by simp
  also have "insert_after bs n y ys = pre @ merge_next bs c (merge_next bs n post)"
    using xs(2) Cons.prems by (intro Cons.IH) auto
  finally show ?case using Cons.prems(1) by simp
qed

lemma queue_chunk_split:
  assumes "\<forall>d\<in>set (pre @ [c]). blk d < blk n" and "\<forall>d\<in>set post. \<not> blk d < blk n"
  shows "queue_chunk bs n (pre @ c # post) = pre @ merge_next bs c (merge_next bs n post)"
proof -
  obtain x xs where x: "pre @ c # post = x # xs" by (cases pre) auto
  then have "\<not> blk n < blk x" using assms(1) by (cases pre) auto
  then show ?thesis using insert_after_split [OF x [symmetric] assms] x by simp
qed

lemma absorbed_split:
  assumes "\<forall>d\<in>set (pre @ [c]). blk d < blk n" and "\<forall>d\<in>set post. \<not> blk d < blk n"
  shows "absorbed bs n (pre @ c # post) \<longleftrightarrow> can_merge bs c n"
proof -
  have "filter (\<lambda>d. blk d < blk n) (pre @ c # post) = pre @ [c]"
    using assms by (simp add: filter_empty_conv)
  then show ?thesis by (cases pre) (auto simp: absorbed_def)
qed

lemma merge_next_hd:
  "can_merge bs c (hd (merge_next bs n cs)) \<longleftrightarrow> can_merge bs c n"
  "merge_next bs n cs \<noteq> []"
  by (cases cs; auto simp: can_merge_def)+

lemma bb_path_insert:
  assumes "bb_path h p (pre @ b # post) None" and "distinct (pre @ b # post)"
    and "n \<notin> set (pre @ b # post)" and "hp_cells h b = Some nb"
  shows "bb_path (h\<lparr>hp_cells := (hp_cells h)(n \<mapsto> nn\<lparr>bb_next := bb_next nb\<rparr>, b \<mapsto> nb\<lparr>bb_next := Some n\<rparr>)\<rparr>)
    p (pre @ b # n # post) None"
proof -
  let ?h = "h\<lparr>hp_cells := (hp_cells h)(n \<mapsto> nn\<lparr>bb_next := bb_next nb\<rparr>, b \<mapsto> nb\<lparr>bb_next := Some n\<rparr>)\<rparr>"
  from assms have "bb_path h p pre (Some b)" "bb_path h (bb_next nb) post None"
    by (auto simp: bb_path_append)
  moreover have "bb_path ?h q xs r = bb_path h q xs r" if "n \<notin> set xs" "b \<notin> set xs" for q xs r
    using that by (intro bb_path_cong) auto
  ultimately show ?thesis
    using assms by (auto simp: bb_path_append)
qed

lemma link_and_merge_refines:
  assumes inv: "list_inv h p (pre @ b # post)" and bs: "bbl_block_size l \<noteq> 0"
    and nn: "hp_cells h n = Some nn" "bb_next nn = None" "n \<notin> set (pre @ b # post)"
    and before: "\<forall>c\<in>set (chunks h (pre @ [b])). blk c < bb_block nn"
    and after: "\<forall>c\<in>set (chunks h post). bb_block nn < blk c"
    and names: "names_ok h (chunk_of nn # chunks h (pre @ b # post))"
  shows "\<exists>h' as'. link_and_merge h l (Some b) (Some n) = Inr (0, h', l) \<and> list_inv h' p as'
     \<and> chunks h' as' = queue_chunk (bbl_block_size l) (chunk_of nn) (chunks h (pre @ b # post))
     \<and> as' \<noteq> [] \<and> set as' \<subseteq> insert n (set (pre @ b # post))
     \<and> (if absorbed (bbl_block_size l) (chunk_of nn) (chunks h (pre @ b # post))
        then hp_cells h' n = None else n \<in> set as')
     \<and> hp_brk h' = hp_brk h \<and> hp_oom h' = hp_oom h \<and> hp_strs h' = hp_strs h
     \<and> (\<forall>x. x \<notin> insert n (set (pre @ b # post)) \<longrightarrow> hp_cells h' x = hp_cells h x)"
proof -
  let ?bs = "bbl_block_size l"
  obtain nb where nb: "hp_cells h b = Some nb" using list_inv_live [OF inv, of b] by auto
  let ?nn = "nn\<lparr>bb_next := bb_next nb\<rparr>"
  let ?h = "h\<lparr>hp_cells := (hp_cells h)(n \<mapsto> ?nn, b \<mapsto> nb\<lparr>bb_next := Some n\<rparr>)\<rparr>"
  have dist: "distinct (pre @ b # post)" by (rule list_inv_distinct [OF inv])
  have keep: "chunks ?h xs = chunks h xs" if "n \<notin> set xs" "b \<notin> set xs" for xs
    using that by (intro chunks_cong) auto
  have pre: "chunks ?h pre = chunks h pre" and post: "chunks ?h post = chunks h post"
    using dist nn by (auto intro!: keep)
  have cb: "chunk_of (the (hp_cells ?h b)) = chunk_of nb" and cn: "chunk_of (the (hp_cells ?h n)) = chunk_of nn"
    using nn by (auto simp: chunk_of_def)
  have all: "chunks ?h (pre @ b # n # post) = chunks h pre @ chunk_of nb # chunk_of nn # chunks h post"
    by (simp only: chunks_simps pre post cb cn)
  have inv1: "list_inv ?h p ((pre @ [b]) @ n # post)"
  proof -
    have "bb_path ?h p (pre @ b # n # post) None"
      using inv dist nn nb by (intro bb_path_insert) (auto simp: list_inv_def)
    moreover have "sorted_wrt (<) (map fst (chunks ?h (pre @ b # n # post)))"
      using inv before after nb unfolding all by (auto simp: list_inv_def sorted_wrt_append)
    moreover have "names_ok ?h (chunks ?h (pre @ b # n # post))"
      using names nb unfolding all by (auto simp: names_ok_def)
    moreover have "heap_ok ?h"
      using inv nb nn by (auto simp: list_inv_def heap_ok_def)
    ultimately show ?thesis by (simp add: list_inv_def)
  qed
  have "?h = h\<lparr>hp_cells := (hp_cells h)(b \<mapsto> nb\<lparr>bb_next := Some n\<rparr>)\<rparr>" if "bb_next nb = None"
    using that nn by (simp add: fun_upd_idem)
  then have link: "link_and_merge h l (Some b) (Some n) =
      bindR (merge_bb ?h l (Some n) (bb_next ?nn)) (\<lambda>(_, h).
      bindR (merge_bb h l (Some b) (Some n)) (\<lambda>(_, h). Inr (0, h, l)))"
    using nn nb by (auto simp: link_and_merge_def)
  from nn have "hp_cells ?h n = Some ?nn" by auto
  then obtain r1 h1 post1 where
    call1: "merge_bb ?h l (Some n) (bb_next ?nn) = Inr (r1, h1)"
    and inv2: "list_inv h1 p ((pre @ [b]) @ n # post1)"
    and c1: "chunks h1 (pre @ [b]) = chunks ?h (pre @ [b])"
      "chunks h1 (n # post1) = merge_next ?bs (chunk_of ?nn) (chunks ?h post)"
    and "post1 = (if post \<noteq> [] \<and> can_merge ?bs (chunk_of ?nn) (hd (chunks ?h post)) then tl post else post)"
    and "post1 \<noteq> post \<longrightarrow> hp_cells h1 (hd post) = None" and sub1: "set post1 \<subseteq> set post"
    and fr1: "hp_brk h1 = hp_brk ?h" "hp_oom h1 = hp_oom ?h" "hp_strs h1 = hp_strs ?h"
      "\<forall>x. x \<notin> set (n # post) \<longrightarrow> hp_cells h1 x = hp_cells ?h x"
    by (rule merge_step [OF inv1 bs]) (rule that; assumption)
  from inv2 have inv2': "list_inv h1 p (pre @ b # n # post1)" by simp
  have nb1: "hp_cells h1 b = Some (nb\<lparr>bb_next := Some n\<rparr>)"
    using fr1(4) dist nn by auto
  obtain r2 h2 rest2 where
    call2: "merge_bb h1 l (Some b) (bb_next (nb\<lparr>bb_next := Some n\<rparr>)) = Inr (r2, h2)"
    and inv3: "list_inv h2 p (pre @ b # rest2)"
    and c2: "chunks h2 pre = chunks h1 pre"
      "chunks h2 (b # rest2) = merge_next ?bs (chunk_of (nb\<lparr>bb_next := Some n\<rparr>)) (chunks h1 (n # post1))"
    and rest2: "rest2 = (if n # post1 \<noteq> [] \<and> can_merge ?bs (chunk_of (nb\<lparr>bb_next := Some n\<rparr>)) (hd (chunks h1 (n # post1)))
        then tl (n # post1) else n # post1)" "rest2 \<noteq> n # post1 \<longrightarrow> hp_cells h2 (hd (n # post1)) = None"
      "set rest2 \<subseteq> set (n # post1)"
    and fr2: "hp_brk h2 = hp_brk h1" "hp_oom h2 = hp_oom h1" "hp_strs h2 = hp_strs h1"
      "\<forall>x. x \<notin> set (b # n # post1) \<longrightarrow> hp_cells h2 x = hp_cells h1 x"
    by (rule merge_step [OF inv2' bs nb1]) (rule that; assumption)
  have eqs: "chunk_of ?nn = chunk_of nn" "chunk_of (nb\<lparr>bb_next := Some n\<rparr>) = chunk_of nb"
    by (simp_all add: chunk_of_def)
  have res: "chunks h2 (pre @ b # rest2)
      = chunks h pre @ merge_next ?bs (chunk_of nb) (merge_next ?bs (chunk_of nn) (chunks h post))"
    using c1 c2 pre post eqs by (simp add: chunks_simps(3))
  have q: "queue_chunk ?bs (chunk_of nn) (chunks h (pre @ b # post)) = chunks h2 (pre @ b # rest2)"
  proof -
    have "queue_chunk ?bs (chunk_of nn) (chunks h pre @ chunk_of nb # chunks h post)
        = chunks h pre @ merge_next ?bs (chunk_of nb) (merge_next ?bs (chunk_of nn) (chunks h post))"
      using before after nb by (intro queue_chunk_split) auto
    then show ?thesis
      by (simp only: res) (simp add: nb)
  qed
  have ab: "absorbed ?bs (chunk_of nn) (chunks h (pre @ b # post)) \<longleftrightarrow> can_merge ?bs (chunk_of nb) (chunk_of nn)"
    unfolding chunks_simps nb option.sel
    using before after nb by (intro absorbed_split) auto
  have "can_merge ?bs (chunk_of nb) (hd (chunks h1 (n # post1))) \<longleftrightarrow> can_merge ?bs (chunk_of nb) (chunk_of nn)"
    unfolding c1 eqs by (rule merge_next_hd)
  with rest2(1,2) ab eqs have "if absorbed ?bs (chunk_of nn) (chunks h (pre @ b # post))
        then hp_cells h2 n = None else n \<in> set (pre @ b # rest2)"
    by auto
  moreover have "set (pre @ b # rest2) \<subseteq> insert n (set (pre @ b # post))"
    using rest2(3) sub1 by auto
  moreover have "link_and_merge h l (Some b) (Some n) = Inr (0, h2, l)"
    using link call1 call2 by simp
  moreover have "\<forall>x. x \<notin> insert n (set (pre @ b # post)) \<longrightarrow> hp_cells h2 x = hp_cells h x"
    using fr1(4) fr2(4) sub1 by auto
  ultimately show ?thesis
    using inv3 q fr1 fr2 by (intro exI [of _ h2] exI [of _ "pre @ b # rest2"]) auto
qed

text \<open>\<open>last_used\<close> is either \<^verbatim>\<open>NULL\<close> or a node of the list.\<close>

definition last_used_ok :: "backed_block_list \<Rightarrow> addr list \<Rightarrow> bool" where
  "last_used_ok l as \<longleftrightarrow> (case last_used l of None \<Rightarrow> True | Some u \<Rightarrow> u \<in> set as)"

lemma list_inv_front:
  assumes inv: "list_inv h p (a # as)"
    and nn: "hp_cells h n = Some nn" "n \<notin> set (a # as)" and lt: "bb_block nn < blk (hd (chunks h (a # as)))"
    and names: "names_ok h (chunk_of nn # chunks h (a # as))"
  shows "list_inv (h\<lparr>hp_cells := (hp_cells h)(n \<mapsto> nn\<lparr>bb_next := p\<rparr>)\<rparr>) (Some n) (n # a # as)"
    and "chunks (h\<lparr>hp_cells := (hp_cells h)(n \<mapsto> nn\<lparr>bb_next := p\<rparr>)\<rparr>) (n # a # as) = chunk_of nn # chunks h (a # as)"
proof -
  let ?h = "h\<lparr>hp_cells := (hp_cells h)(n \<mapsto> nn\<lparr>bb_next := p\<rparr>)\<rparr>"
  have keep: "chunks ?h (a # as) = chunks h (a # as)" using nn by (intro chunks_upd) auto
  then show eq: "chunks ?h (n # a # as) = chunk_of nn # chunks h (a # as)"
    by (subst chunks_simps(2)) (simp add: chunk_of_def)
  have "bb_path ?h (Some n) (n # a # as) None"
    using inv nn bb_path_upd [of n "a # as"] by (auto simp: list_inv_def)
  moreover have "sorted_wrt (<) (map fst (chunks ?h (n # a # as)))"
    unfolding eq using inv lt by (fastforce simp: list_inv_def)
  moreover have "names_ok ?h (chunks ?h (n # a # as))"
    unfolding eq using names by (simp add: names_ok_def)
  moreover have "heap_ok ?h" using inv nn by (auto simp: list_inv_def heap_ok_def)
  ultimately show "list_inv ?h (Some n) (n # a # as)" unfolding list_inv_def by blast
qed

text \<open>
  The search of \<^verbatim>\<open>queue_bb\<close> may start at the head of the list or at \<open>last_used\<close>; in both cases it
  ends at the node after which the new one belongs.
\<close>

lemma search_from:
  assumes inv: "list_inv h p as" and u: "u \<in> set as" and nu: "hp_cells h u = Some nu"
    and lt: "bb_block nu < nblk" and fresh: "nblk \<notin> fst ` set (chunks h as)"
  obtains pre b post where "as = pre @ b # post"
    and "find_loop (Suc (hp_brk h)) h (Some u) nblk = Inr (Some b)"
    and "\<forall>c\<in>set (chunks h (pre @ [b])). blk c < nblk" and "\<forall>c\<in>set (chunks h post). nblk < blk c"
proof -
  obtain xs ys where as: "as = xs @ u # ys" using u by (meson split_list)
  have path: "bb_path h (Some u) (u # ys) None"
    using inv as by (auto simp: list_inv_def bb_path_append)
  have sorted: "sorted_wrt (<) (map fst (chunks h (xs @ u # ys)))"
    using inv as by (simp add: list_inv_def)
  have "length as \<le> hp_brk h"
    using inv by (auto simp: list_inv_def intro: bb_path_length)
  then have "length ys < Suc (hp_brk h)" using as by simp
  from find_loop_path [OF path this, of nblk] obtain pre b post where *: "u # ys = pre @ b # post"
      "find_loop (Suc (hp_brk h)) h (Some u) nblk = Inr (Some b)"
      "\<forall>c\<in>set (chunks h (pre @ [b])). blk c < nblk" "\<forall>c\<in>set (chunks h post). nblk \<le> blk c"
    using sorted lt nu by (auto simp: sorted_wrt_append)
  have "\<forall>c\<in>set (chunks h xs). blk c < nblk"
    using sorted lt nu by (fastforce simp: sorted_wrt_append)
  moreover have "set (chunks h post) \<subseteq> set (chunks h as)"
    unfolding as *(1) by auto
  then have "\<forall>c\<in>set (chunks h post). nblk < blk c"
    using * (4) fresh by (auto simp: order_less_le)
  ultimately show ?thesis
    using * as by (intro that [of "xs @ pre" b post]) auto
qed

theorem queue_bb_refines:
  assumes inv: "list_inv h (data_blocks l) as" and bs: "bbl_block_size l \<noteq> 0"
    and lu: "last_used_ok l as"
    and nn: "hp_cells h n = Some nn" "bb_next nn = None" "n \<notin> set as"
    and fresh: "bb_block nn \<notin> fst ` set (chunks h as)"
    and names: "names_ok h (chunk_of nn # chunks h as)"
  shows "\<exists>h' l' as'. queue_bb h l (Some n) = Inr (0, h', l') \<and> list_inv h' (data_blocks l') as'
     \<and> chunks h' as' = queue_chunk (bbl_block_size l) (chunk_of nn) (chunks h as)
     \<and> bbl_block_size l' = bbl_block_size l \<and> set as' \<subseteq> insert n (set as)
     \<and> (if absorbed (bbl_block_size l) (chunk_of nn) (chunks h as)
        then last_used l' = Some n \<and> hp_cells h' n = None else last_used_ok l' as')
     \<and> hp_brk h' = hp_brk h \<and> hp_oom h' = hp_oom h \<and> hp_strs h' = hp_strs h
     \<and> (\<forall>x. x \<notin> insert n (set as) \<longrightarrow> hp_cells h' x = hp_cells h x)"
proof (cases as)
  case Nil
  then have "data_blocks l = None" using inv by (simp add: list_inv_def)
  then have "queue_bb h l (Some n) = Inr (0, h, l\<lparr>data_blocks := Some n\<rparr>)" by (simp add: queue_bb_def)
  with Nil inv nn names lu show ?thesis
    by (intro exI [of _ h] exI [of _ "l\<lparr>data_blocks := Some n\<rparr>"] exI [of _ "[n]"])
       (auto simp: list_inv_def absorbed_def last_used_ok_def split: option.splits)
next
  case (Cons a as0)
  then obtain na where db: "data_blocks l = Some a" and na: "hp_cells h a = Some na"
    using inv by (auto simp: list_inv_def split: option.splits)
  show ?thesis
  proof (cases "bb_block nn < bb_block na")
    case True
    let ?h = "h\<lparr>hp_cells := (hp_cells h)(n \<mapsto> nn\<lparr>bb_next := data_blocks l\<rparr>)\<rparr>"
    have call: "queue_bb h l (Some n) = Inr (0, ?h, l\<lparr>data_blocks := Some n\<rparr>)"
      using db na nn True by (simp add: queue_bb_def)
    have none: "\<not> absorbed (bbl_block_size l) (chunk_of nn) (chunks h as)"
    proof -
      have "\<forall>c\<in>set (chunks h as0). bb_block na < blk c"
        using inv Cons na by (simp add: list_inv_def)
      then have "bb_block nn < blk c" if "c \<in> set (chunks h as)" for c
        using that True Cons na order_less_trans by fastforce
      then have "\<forall>c\<in>set (chunks h as). \<not> blk c < bb_block nn"
        by (meson order_less_asym)
      then have "filter (\<lambda>c. blk c < bb_block nn) (chunks h as) = []"
        by (simp add: filter_empty_conv)
      then show ?thesis by (simp add: absorbed_def)
    qed
    have lt: "bb_block nn < blk (hd (chunks h (a # as0)))" using True na by simp
    note front = list_inv_front [OF inv [unfolded Cons] nn(1) nn(3) [unfolded Cons] lt names [unfolded Cons]]
    show ?thesis
      using call front none Cons na nn True lu
      by (intro exI [of _ ?h] exI [of _ "l\<lparr>data_blocks := Some n\<rparr>"] exI [of _ "n # as"])
         (auto simp: last_used_ok_def split: option.splits)
  next
    case False
    then have lt: "bb_block na < bb_block nn"
      using fresh Cons na by (auto simp: order_less_le)
    let ?l = "l\<lparr>last_used := Some n\<rparr>"
    obtain u nu where u: "u \<in> set as" "hp_cells h u = Some nu" "bb_block nu < bb_block nn"
      and start: "(if last_used l = None then Inr (data_blocks l)
                else bindR (load h (last_used l)) (\<lambda>lu.
                  if bb_block lu < bb_block nn then Inr (last_used l)
                  else Inr (data_blocks l))) = Inr (Some u)"
    proof (cases "last_used l")
      case None
      with that [of a na] Cons na lt db show ?thesis by simp
    next
      case (Some u)
      with lu have "u \<in> set as" by (simp add: last_used_ok_def)
      moreover from list_inv_live [OF inv this] obtain nu where "hp_cells h u = Some nu" by blast
      ultimately show ?thesis
        using that [of u nu] that [of a na] Some Cons na lt db by (cases "bb_block nu < bb_block nn") auto
    qed
    obtain pre b post where as: "as = pre @ b # post"
      and find: "find_loop (Suc (hp_brk h)) h (Some u) (bb_block nn) = Inr (Some b)"
      and before: "\<forall>c\<in>set (chunks h (pre @ [b])). blk c < bb_block nn"
      and after: "\<forall>c\<in>set (chunks h post). bb_block nn < blk c"
      by (rule search_from [OF inv u fresh])
    have call: "queue_bb h l (Some n) = link_and_merge h ?l (Some b) (Some n)"
      using db na nn False start find by (simp add: queue_bb_def Let_def)
    have bs': "bbl_block_size ?l \<noteq> 0" using bs by simp
    obtain h' as' where ref: "link_and_merge h ?l (Some b) (Some n) = Inr (0, h', ?l)"
        "list_inv h' (data_blocks l) as'"
        "chunks h' as' = queue_chunk (bbl_block_size ?l) (chunk_of nn) (chunks h (pre @ b # post))"
        "set as' \<subseteq> insert n (set (pre @ b # post))"
        "if absorbed (bbl_block_size ?l) (chunk_of nn) (chunks h (pre @ b # post))
         then hp_cells h' n = None else n \<in> set as'"
        "hp_brk h' = hp_brk h" "hp_oom h' = hp_oom h" "hp_strs h' = hp_strs h"
        "\<forall>x. x \<notin> insert n (set (pre @ b # post)) \<longrightarrow> hp_cells h' x = hp_cells h x"
      using link_and_merge_refines [OF inv [unfolded as] bs' nn(1,2) nn(3) [unfolded as] before after
          names [unfolded as]] by blast
    have "last_used_ok ?l as'" if "n \<in> set as'"
      using that by (simp add: last_used_ok_def)
    with ref show ?thesis
      by (intro exI [of _ h'] exI [of _ ?l] exI [of _ as']) (simp add: call as split: if_splits)
  qed
qed

section \<open>Adding a block\<close>

text \<open>
  What \<^verbatim>\<open>calloc\<close> hands out is fresh, so the new node is not part of any list.
\<close>

lemma malloc_bb_cases:
  obtains (fail) bs where "hp_oom h = True # bs" and "malloc_bb h bb = (None, h\<lparr>hp_oom := bs\<rparr>)"
  | (ok) oom where "\<not> (\<exists>bs. hp_oom h = True # bs)" and "oom = tl (hp_oom h)"
    and "malloc_bb h bb = (Some (hp_brk h), h\<lparr>hp_cells := (hp_cells h)(hp_brk h \<mapsto> bb),
        hp_brk := Suc (hp_brk h), hp_oom := oom\<rparr>)"
  by (cases "hp_oom h"; cases "hd (hp_oom h)") (auto simp: malloc_bb_def alloc_ok_def)

lemma list_inv_malloc:
  assumes "list_inv h p as"
  shows "list_inv (h\<lparr>hp_cells := (hp_cells h)(hp_brk h \<mapsto> bb), hp_brk := Suc (hp_brk h), hp_oom := oom\<rparr>) p as"
    and "chunks (h\<lparr>hp_cells := (hp_cells h)(hp_brk h \<mapsto> bb), hp_brk := Suc (hp_brk h), hp_oom := oom\<rparr>) as = chunks h as"
    and "hp_brk h \<notin> set as"
proof -
  let ?h = "h\<lparr>hp_cells := (hp_cells h)(hp_brk h \<mapsto> bb), hp_brk := Suc (hp_brk h), hp_oom := oom\<rparr>"
  show n: "hp_brk h \<notin> set as"
    using assms list_inv_live [OF assms, of "hp_brk h"] by (auto simp: list_inv_def heap_ok_def)
  have same: "hp_cells ?h a = hp_cells h a" if "a \<in> set as" for a
    using that n by auto
  then show ch: "chunks ?h as = chunks h as" by (rule chunks_cong)
  from same have "bb_path ?h p as None = bb_path h p as None" by (rule bb_path_cong)
  moreover have "heap_ok ?h" using assms by (auto simp: list_inv_def heap_ok_def less_SucI)
  ultimately show "list_inv ?h p as"
    using assms ch by (simp add: list_inv_def names_ok_def)
qed

lemma names_ok_cong: "hp_strs h' = hp_strs h \<Longrightarrow> names_ok h' cs = names_ok h cs"
  by (simp add: names_ok_def)

theorem add_bb_refines:
  assumes inv: "list_inv h (data_blocks l) as" and bs: "bbl_block_size l \<noteq> 0"
    and lu: "last_used_ok l as" and mem: "\<nexists>bs. hp_oom h = True # bs"
    and fresh: "block \<notin> fst ` set (chunks h as)" and nofile: "fname (block, sz, bk) = []"
  shows "\<exists>h' l' as'. add_bb h l block sz bk = Inr (0, h', l') \<and> list_inv h' (data_blocks l') as'
     \<and> chunks h' as' = queue_chunk (bbl_block_size l) (block, sz, bk) (chunks h as)
     \<and> bbl_block_size l' = bbl_block_size l
     \<and> (if absorbed (bbl_block_size l) (block, sz, bk) (chunks h as)
        then last_used l' = Some (hp_brk h) \<and> hp_cells h' (hp_brk h) = None else last_used_ok l' as')
     \<and> hp_oom h' = tl (hp_oom h) \<and> hp_strs h' = hp_strs h \<and> hp_brk h' = Suc (hp_brk h)
     \<and> (\<forall>x. x \<notin> insert (hp_brk h) (set as) \<longrightarrow> hp_cells h' x = hp_cells h x)"
proof (rule malloc_bb_cases [of h "\<lparr>bb_block = block, bb_len = sz, bb_back = bk, bb_next = None\<rparr>"])
  fix bs assume "hp_oom h = True # bs" with mem show ?thesis by simp
next
  let ?nn = "\<lparr>bb_block = block, bb_len = sz, bb_back = bk, bb_next = None\<rparr>"
  fix oom assume oom: "oom = tl (hp_oom h)"
    and alloc: "malloc_bb h ?nn = (Some (hp_brk h), h\<lparr>hp_cells := (hp_cells h)(hp_brk h \<mapsto> ?nn),
        hp_brk := Suc (hp_brk h), hp_oom := oom\<rparr>)" (is "_ = (_, ?h)")
  note fr = list_inv_malloc(1,2) [OF inv, where bb = ?nn and oom = oom] list_inv_malloc(3) [OF inv]
  have nn: "hp_cells ?h (hp_brk h) = Some ?nn" "bb_next ?nn = None" by simp_all
  have c: "chunk_of ?nn = (block, sz, bk)" by (simp add: chunk_of_def)
  have names: "names_ok ?h (chunk_of ?nn # chunks ?h as)"
    using inv nofile unfolding fr(2) c by (simp add: list_inv_def names_ok_def)
  have fresh': "bb_block ?nn \<notin> fst ` set (chunks ?h as)"
    using fresh unfolding fr(2) by simp
  from queue_bb_refines [OF fr(1) bs lu nn fr(3) fresh' names] alloc oom show ?thesis
    unfolding add_bb_def c fr(2) by fastforce
qed

text \<open>When the allocation fails the call reports it and leaves the list alone.\<close>

lemma add_bb_oom:
  "hp_oom h = True # bs \<Longrightarrow> add_bb h l block sz bk = Inr (- ENOMEM, h\<lparr>hp_oom := bs\<rparr>, l)"
  by (simp add: add_bb_def malloc_bb_def alloc_ok_def)

section \<open>The dangling search pointer\<close>

text \<open>
  \<^verbatim>\<open>queue_bb\<close> stores the new node in \<open>last_used\<close> before it merges.  When the new node is absorbed
  by its predecessor it is freed, and the stored pointer dangles; the next call reads through it.
\<close>

lemma queue_bb_dangling:
  assumes "data_blocks l = Some a" and "hp_cells h a = Some na"
    and "hp_cells h n = Some nn" and "bb_block na \<le> bb_block nn"
    and "last_used l = Some u" and "hp_cells h u = None"
  shows "queue_bb h l (Some n) = Inl UseAfterFree"
  using assms by (simp add: queue_bb_def)

lemma add_bb_dangling:
  assumes inv: "list_inv h (data_blocks l) (a # as)" and lu: "last_used l = Some u" "hp_cells h u = None"
    and u: "u < hp_brk h" and mem: "\<nexists>bs. hp_oom h = True # bs"
    and ge: "blk (hd (chunks h (a # as))) \<le> block"
  shows "add_bb h l block sz bk = Inl UseAfterFree"
proof (rule malloc_bb_cases [of h "\<lparr>bb_block = block, bb_len = sz, bb_back = bk, bb_next = None\<rparr>"])
  fix bs assume "hp_oom h = True # bs" with mem show ?thesis by simp
next
  let ?nn = "\<lparr>bb_block = block, bb_len = sz, bb_back = bk, bb_next = None\<rparr>"
  fix oom assume alloc: "malloc_bb h ?nn = (Some (hp_brk h), h\<lparr>hp_cells := (hp_cells h)(hp_brk h \<mapsto> ?nn),
        hp_brk := Suc (hp_brk h), hp_oom := oom\<rparr>)" (is "_ = (_, ?h)")
  obtain na where na: "data_blocks l = Some a" "hp_cells h a = Some na"
    using inv by (auto simp: list_inv_def split: option.splits)
  have "a \<noteq> hp_brk h" using list_inv_malloc(3) [OF inv] by auto
  then have "queue_bb ?h l (Some (hp_brk h)) = Inl UseAfterFree"
    using na lu u ge by (intro queue_bb_dangling [of l a _ na _ ?nn u]) auto
  with alloc show ?thesis by (simp add: add_bb_def)
qed

section \<open>Destroying a list\<close>

text \<open>A well-formed list is released completely: every node and every name, each exactly once.\<close>

lemma destroy_loop_frees:
  assumes "bb_path h p as None" and "names_ok h (chunks h as)" and "length as \<le> fuel"
  shows "\<exists>h'. destroy_loop fuel h p = Inr h'
     \<and> (\<forall>x. hp_cells h' x = (if x \<in> set as then None else hp_cells h x))
     \<and> (\<forall>x. hp_strs h' x = (if x \<in> set (concat (map fname (chunks h as))) then None else hp_strs h x))
     \<and> hp_brk h' = hp_brk h"
  using assms
proof (induction as arbitrary: h p fuel)
  case Nil
  then show ?case by auto
next
  case (Cons a as)
  then obtain na f where na: "p = Some a" "hp_cells h a = Some na" "bb_path h (bb_next na) as None"
    and f: "fuel = Suc f" by (cases fuel) (auto split: option.splits)
  have a: "a \<notin> set as" using bb_path_distinct [OF Cons.prems(1)] by simp
  let ?s = "\<lambda>x. if x \<in> set (fname (chunk_of na)) then None else hp_strs h x"
  let ?h = "h\<lparr>hp_cells := (hp_cells h)(a := None), hp_strs := ?s\<rparr>"
  have "backed_block_destroy h (Some a) = Inr ?h"
    using na Cons.prems(2)
    by (auto simp: backed_block_destroy_def free_bb_def free_str_def names_ok_def fname_def fun_eq_iff
        split: backing.splits option.splits)
  then have step: "destroy_loop fuel h p = destroy_loop f ?h (bb_next na)"
    using na f by simp
  have ch: "chunks ?h as = chunks h as" using a by (intro chunks_cong) auto
  have "\<exists>h'. destroy_loop f ?h (bb_next na) = Inr h'
     \<and> (\<forall>x. hp_cells h' x = (if x \<in> set as then None else hp_cells ?h x))
     \<and> (\<forall>x. hp_strs h' x = (if x \<in> set (concat (map fname (chunks ?h as))) then None else hp_strs ?h x))
     \<and> hp_brk h' = hp_brk ?h"
  proof (rule Cons.IH)
    show "bb_path ?h (bb_next na) as None"
      using na(3) a by (subst bb_path_cong [of as _ h]) auto
    show "names_ok ?h (chunks ?h as)"
      using Cons.prems(2) na unfolding ch by (auto simp: names_ok_def)
    show "length as \<le> f" using Cons.prems(3) f by simp
  qed
  then show ?case unfolding step ch using na by auto
qed

theorem backed_block_list_destroy_frees:
  assumes "list_inv h (data_blocks l) as"
  shows "\<exists>h'. backed_block_list_destroy h l = Inr h'
     \<and> (\<forall>x. hp_cells h' x = (if x \<in> set as then None else hp_cells h x))
     \<and> (\<forall>x. hp_strs h' x = (if x \<in> set (concat (map fname (chunks h as))) then None else hp_strs h x))"
  using assms destroy_loop_frees [of h "data_blocks l" as "hp_brk h"] bb_path_length [of h "data_blocks l" as]
  by (auto simp: backed_block_list_destroy_def list_inv_def)

section \<open>Splitting on the heap\<close>

definition split_chunk :: "u32 \<Rightarrow> u32 \<Rightarrow> chunk \<Rightarrow> chunk list" where
  "split_chunk bs max_len c =
     [(blk c, max_len, bck c), (blk c + max_len div bs, len c - max_len, advance max_len (bck c))]"

lemma backed_block_split_refines:
  assumes ok: "heap_ok h" and path: "bb_path h p (pre @ a # post) None" and bs: "bbl_block_size l \<noteq> 0"
    and mem: "\<nexists>bs. hp_oom h = True # bs" and na: "hp_cells h a = Some na"
    and m: "m = bbl_block_size l * (max_len div bbl_block_size l)" and less: "m < bb_len na"
  shows "\<exists>h' n. backed_block_split h l (Some a) max_len = Inr (0, h')
     \<and> heap_ok h' \<and> bb_path h' p (pre @ a # n # post) None
     \<and> chunks h' pre = chunks h pre \<and> chunks h' post = chunks h post
     \<and> chunks h' [a, n] = split_chunk (bbl_block_size l) m (chunk_of na)
     \<and> n = hp_brk h \<and> hp_strs h' = hp_strs h \<and> hp_oom h' = tl (hp_oom h) \<and> hp_brk h' = Suc (hp_brk h)
     \<and> (\<forall>x. x \<noteq> a \<and> x \<noteq> n \<longrightarrow> hp_cells h' x = hp_cells h x)"
proof -
  let ?n = "hp_brk h"
  let ?nn = "\<lparr>bb_block = bb_block na + m div bbl_block_size l, bb_len = bb_len na - m,
      bb_back = advance m (bb_back na), bb_next = bb_next na\<rparr>"
  let ?na = "na\<lparr>bb_next := Some ?n, bb_len := m\<rparr>"
  have n: "?n \<notin> set (pre @ a # post)"
    using ok bb_path_live [OF path, of ?n] by (auto simp: heap_ok_def)
  have dist: "distinct (pre @ a # post)" using path by (rule bb_path_distinct)
  obtain oom where alloc: "malloc_bb h ?nn = (Some ?n, h\<lparr>hp_cells := (hp_cells h)(?n \<mapsto> ?nn),
        hp_brk := Suc ?n, hp_oom := oom\<rparr>)" and oom: "oom = tl (hp_oom h)"
    using mem by (cases rule: malloc_bb_cases [of h ?nn]) auto
  let ?h = "h\<lparr>hp_cells := (hp_cells h)(?n \<mapsto> ?nn, a \<mapsto> ?na), hp_brk := Suc ?n, hp_oom := oom\<rparr>"
  have call: "backed_block_split h l (Some a) max_len = Inr (0, ?h)"
    using bs na less n alloc by (simp add: backed_block_split_def Let_def flip: m)
  have keep: "bb_path ?h q xs r = bb_path h q xs r" "chunks ?h xs = chunks h xs"
    if "a \<notin> set xs" "?n \<notin> set xs" for q xs r
    using that by (intro bb_path_cong chunks_cong; auto)+
  have "bb_path ?h p (pre @ a # ?n # post) None"
    using path dist n na by (auto simp: bb_path_append keep)
  moreover have "heap_ok ?h" using ok na by (auto simp: heap_ok_def less_SucI)
  moreover have "chunks ?h pre = chunks h pre" "chunks ?h post = chunks h post"
    using dist n by (auto intro!: keep)
  moreover have "chunks ?h [a, ?n] = split_chunk (bbl_block_size l) m (chunk_of na)"
    using n by (simp add: split_chunk_def chunk_of_def)
  ultimately show ?thesis using call oom by (intro exI [of _ ?h] exI [of _ ?n]) auto
qed

section \<open>Moving a run of nodes\<close>

lemma bb_path_set_last:
  assumes "bb_path h p (xs @ [a]) q" and "a \<notin> set xs" and "hp_cells h a = Some na"
  shows "bb_path (h\<lparr>hp_cells := (hp_cells h)(a \<mapsto> na\<lparr>bb_next := r\<rparr>)\<rparr>) p (xs @ [a]) r"
  using assms by (auto simp: bb_path_append)

lemma chunks_set_next:
  assumes "hp_cells h a = Some na"
  shows "chunks (h\<lparr>hp_cells := (hp_cells h)(a \<mapsto> na\<lparr>bb_next := r\<rparr>)\<rparr>) xs = chunks h xs"
  using assms by (auto simp: chunks_def chunk_of_def)

lemma last_loop_path:
  "bb_path h p as None \<Longrightarrow> length as \<le> fuel \<Longrightarrow>
     last_loop fuel h p = Inr (if as = [] then None else Some (last as))"
proof (induction as arbitrary: p fuel)
  case (Cons a as)
  then obtain na f where na: "p = Some a" "hp_cells h a = Some na" "bb_path h (bb_next na) as None"
    and f: "fuel = Suc f" by (cases fuel) (auto split: option.splits)
  show ?case
  proof (cases as)
    case Nil
    with na f show ?thesis by simp
  next
    case (Cons b bs)
    then have "bb_next na \<noteq> None" using na by auto
    with na f Cons.prems Cons.IH [of "bb_next na" f] Cons show ?thesis by simp
  qed
qed simp

lemma unlink_loop_path:
  assumes "bb_path h p (pre @ [b]) (Some s)" and "s \<notin> set (pre @ [b])" and "length pre < fuel"
    and "hp_cells h b = Some nb"
  shows "unlink_loop fuel h p (Some s) after = Inr (h\<lparr>hp_cells := (hp_cells h)(b \<mapsto> nb\<lparr>bb_next := after\<rparr>)\<rparr>)"
  using assms
proof (induction pre arbitrary: p fuel)
  case Nil
  then show ?case by (cases fuel) (auto simp: fun_upd_def)
next
  case (Cons a pre)
  then obtain na f where na: "p = Some a" "hp_cells h a = Some na" "bb_path h (bb_next na) (pre @ [b]) (Some s)"
    and f: "fuel = Suc f" by (cases fuel) (auto split: option.splits)
  have "bb_next na \<noteq> Some s"
    using na Cons.prems(2) by (cases pre) auto
  with na f Cons show ?case by simp
qed

lemma relink_loop_path:
  assumes "bb_path h p (pre @ [b]) q" and "length pre < fuel"
    and nb: "hp_cells h b = Some nb" and s: "hp_cells h s = Some ns"
    and e: "hp_cells h e = Some ne" and eb: "e \<noteq> b"
    and skip: "\<forall>c\<in>set (tl (chunks h (pre @ [b]))). blk c \<le> bb_block ns"
    and stop: "case q of None \<Rightarrow> True | Some t \<Rightarrow> (case hp_cells h t of None \<Rightarrow> False
        | Some nt \<Rightarrow> bb_block ns < bb_block nt)"
  shows "relink_loop fuel h p (Some s) (Some e) =
     Inr (h\<lparr>hp_cells := (hp_cells h)(e \<mapsto> ne\<lparr>bb_next := q\<rparr>, b \<mapsto> nb\<lparr>bb_next := Some s\<rparr>)\<rparr>)"
  using assms(1,2,7)
proof (induction pre arbitrary: p fuel)
  case Nil
  then show ?case
    using nb s e eb stop by (cases fuel) (auto simp: fun_upd_def split: option.splits)
next
  case (Cons a pre)
  then obtain na f where na: "p = Some a" "hp_cells h a = Some na" "bb_path h (bb_next na) (pre @ [b]) q"
    and f: "fuel = Suc f" by (cases fuel) (auto split: option.splits)
  obtain c nc where c: "bb_next na = Some c" "hp_cells h c = Some nc" "\<not> bb_block ns < bb_block nc"
    using na Cons.prems(3) by (cases pre) (auto split: option.splits simp: not_less)
  have "\<forall>c\<in>set (tl (chunks h (pre @ [b]))). blk c \<le> bb_block ns"
    using Cons.prems(3) by (cases pre) auto
  then have "relink_loop f h (bb_next na) (Some s) (Some e) =
     Inr (h\<lparr>hp_cells := (hp_cells h)(e \<mapsto> ne\<lparr>bb_next := q\<rparr>, b \<mapsto> nb\<lparr>bb_next := Some s\<rparr>)\<rparr>)"
    using Cons.prems f na by (intro Cons.IH) auto
  with na f c s show ?case by (simp add: fun_upd_def)
qed

text \<open>What the two halves leave alone: everything but the \<open>next\<close> fields of some nodes.\<close>

definition relinked :: "addr set \<Rightarrow> heap \<Rightarrow> heap \<Rightarrow> bool" where
  "relinked S h h' \<longleftrightarrow> (\<forall>xs. chunks h' xs = chunks h xs) \<and> (heap_ok h \<longrightarrow> heap_ok h')
     \<and> hp_strs h' = hp_strs h \<and> hp_oom h' = hp_oom h \<and> hp_brk h' = hp_brk h
     \<and> (\<forall>x. x \<notin> S \<longrightarrow> hp_cells h' x = hp_cells h x)"

lemma relinked_refl [simp]: "relinked S h h"
  by (simp add: relinked_def)

lemma relinked_upd:
  assumes "hp_cells h a = Some na" and "a \<in> S"
  shows "relinked S h (h\<lparr>hp_cells := (hp_cells h)(a \<mapsto> na\<lparr>bb_next := r\<rparr>)\<rparr>)"
  using assms by (auto simp: relinked_def chunks_set_next heap_ok_def)

lemma relinked_trans: "relinked S h h' \<Longrightarrow> relinked T h' h'' \<Longrightarrow> relinked (S \<union> T) h h''"
  by (auto simp: relinked_def)

lemma relinked_path:
  "relinked S h h' \<Longrightarrow> S \<inter> set as = {} \<Longrightarrow> bb_path h' p as q = bb_path h p as q"
  by (rule bb_path_cong) (auto simp: relinked_def)

lemma unlink_run_path:
  assumes ok: "heap_ok h" and pf: "bb_path h (data_blocks from) (pre @ run @ rest) None"
    and prun: "bb_path h (data_blocks from) pre (Some s)" "bb_path h after rest None" and s: "s \<in> set run"
  shows "\<exists>h' d. unlink_run h from (Some s) after = Inr (h', from\<lparr>data_blocks := d\<rparr>)
     \<and> bb_path h' d (pre @ rest) None \<and> relinked (set pre) h h'"
proof (cases pre rule: rev_cases)
  case Nil
  then show ?thesis using prun by (auto simp: unlink_run_def)
next
  case (snoc xs b)
  have dist: "distinct (pre @ run @ rest)" by (rule bb_path_distinct [OF pf])
  obtain nb where nb: "hp_cells h b = Some nb" using bb_path_live [OF pf, of b] snoc by auto
  let ?h = "h\<lparr>hp_cells := (hp_cells h)(b \<mapsto> nb\<lparr>bb_next := after\<rparr>)\<rparr>"
  have ne: "data_blocks from \<noteq> Some s" using prun(1) snoc dist s by (cases xs) auto
  have "length pre \<le> hp_brk h" using bb_path_length [OF ok pf] by simp
  then have "unlink_loop (hp_brk h) h (data_blocks from) (Some s) after = Inr ?h"
    using prun(1) snoc dist s nb by (intro unlink_loop_path) auto
  then have "unlink_run h from (Some s) after = Inr (?h, from)"
    using ne by (simp add: unlink_run_def)
  moreover have "bb_path ?h (data_blocks from) (xs @ [b]) after"
    using prun(1) snoc dist nb by (intro bb_path_set_last) auto
  then have "bb_path ?h (data_blocks from) (pre @ rest) None"
    using prun(2) snoc dist by (auto simp: bb_path_append)
  moreover have "relinked (set pre) h ?h" using nb snoc by (intro relinked_upd) auto
  ultimately show ?thesis
    by (intro exI [of _ ?h] exI [of _ "data_blocks from"]) simp
qed

lemma link_run_path:
  assumes ok: "heap_ok h" and run: "run \<noteq> []" "distinct run"
    and prun: "bb_path h (Some (hd run)) run q"
    and pt: "bb_path h (data_blocks to) (t1 @ t2) None" and t1: "t1 = [] \<Longrightarrow> t2 = []"
    and disj: "set run \<inter> set (t1 @ t2) = {}"
    and skip: "\<forall>c\<in>set (tl (chunks h t1)). blk c \<le> blk (hd (chunks h run))"
    and stop: "t2 \<noteq> [] \<Longrightarrow> blk (hd (chunks h run)) < blk (hd (chunks h t2))"
  shows "\<exists>h' d. link_run h to (Some (hd run)) (Some (last run)) = Inr (h', to\<lparr>data_blocks := d\<rparr>)
     \<and> bb_path h' d (t1 @ run @ t2) None \<and> relinked (set run \<union> set t1) h h'"
proof -
  let ?s = "hd run" and ?e = "last run"
  obtain body where body: "run = body @ [?e]" using run by (metis append_butlast_last_id)
  then have eb: "?e \<notin> set body" using run(2) by (metis distinct_append distinct.simps(2) disjoint_iff list.set_intros(1))
  obtain ne where ne: "hp_cells h ?e = Some ne" using bb_path_live [OF prun, of ?e] run by auto
  obtain ns where ns: "hp_cells h ?s = Some ns" using bb_path_live [OF prun, of ?s] run by auto
  have hdrun: "blk (hd (chunks h run)) = bb_block ns" using ns run by (cases run) auto
  show ?thesis
  proof (cases t1 rule: rev_cases)
    case Nil
    let ?h = "h\<lparr>hp_cells := (hp_cells h)(?e \<mapsto> ne\<lparr>bb_next := None\<rparr>)\<rparr>"
    have "data_blocks to = None" using Nil t1 pt by simp
    then have "link_run h to (Some ?s) (Some ?e) = Inr (?h, to\<lparr>data_blocks := Some ?s\<rparr>)"
      using ne by (simp add: link_run_def)
    moreover have "bb_path ?h (Some ?s) run None"
      using bb_path_set_last [of h "Some ?s" body ?e q ne None] prun body eb ne by simp
    moreover have "relinked (set run) h ?h" using ne run by (intro relinked_upd) auto
    ultimately show ?thesis using Nil t1 by auto
  next
    case (snoc xs b)
    obtain nb where nb: "hp_cells h b = Some nb" using bb_path_live [OF pt, of b] snoc by auto
    have pb: "bb_path h (data_blocks to) (xs @ [b]) (bb_next nb)" "bb_path h (bb_next nb) t2 None"
      using pt snoc nb by (auto simp: bb_path_append)
    have ne_b: "?e \<noteq> b" using disj run snoc by (metis UnCI disjoint_iff last_in_set list.set_intros(1) set_append)
    let ?h1 = "h\<lparr>hp_cells := (hp_cells h)(?e \<mapsto> ne\<lparr>bb_next := bb_next nb\<rparr>)\<rparr>"
    let ?h = "h\<lparr>hp_cells := (hp_cells h)(?e \<mapsto> ne\<lparr>bb_next := bb_next nb\<rparr>, b \<mapsto> nb\<lparr>bb_next := Some ?s\<rparr>)\<rparr>"
    have stop': "case bb_next nb of None \<Rightarrow> True | Some t \<Rightarrow> (case hp_cells h t of None \<Rightarrow> False
        | Some nt \<Rightarrow> bb_block ns < bb_block nt)"
      using pb(2) stop hdrun by (cases t2) (auto split: option.splits)
    have "length (t1 @ t2) \<le> hp_brk h" by (rule bb_path_length [OF ok pt])
    then have "relink_loop (hp_brk h) h (data_blocks to) (Some ?s) (Some ?e) = Inr ?h"
      using pb snoc nb ns ne ne_b skip stop' hdrun by (intro relink_loop_path) auto
    moreover have "data_blocks to \<noteq> None" using pt snoc by (cases xs) auto
    ultimately have "link_run h to (Some ?s) (Some ?e) = Inr (?h, to\<lparr>data_blocks := data_blocks to\<rparr>)"
      by (auto simp: link_run_def)
    moreover have rel1: "relinked (set run) h ?h1" using ne run by (intro relinked_upd) auto
    moreover have rel2: "relinked {b} ?h1 ?h" using relinked_upd [of ?h1 b nb "{b}" "Some ?s"] nb ne_b by simp
    moreover have "bb_path ?h (data_blocks to) (t1 @ run @ t2) None"
    proof -
      have "bb_path ?h1 (Some ?s) run (bb_next nb)"
        using bb_path_set_last [of h "Some ?s" body ?e q ne "bb_next nb"] prun body eb ne by simp
      then have r: "bb_path ?h (Some ?s) run (bb_next nb)"
        using relinked_path [OF rel2, of run] disj snoc by auto
      have dj: "set run \<inter> set (xs @ [b]) = {}" "set run \<inter> set t2 = {}"
        using disj snoc by auto
      have "distinct (t1 @ t2)" by (rule bb_path_distinct [OF pt])
      then have "bb_path ?h1 (data_blocks to) (xs @ [b]) (bb_next nb)" "bb_path ?h1 (bb_next nb) t2 None"
        "b \<notin> set xs" "b \<notin> set t2"
        using pb relinked_path [OF rel1 dj(1)] relinked_path [OF rel1 dj(2)] snoc by auto
      then show ?thesis
        using r snoc nb ne_b bb_path_set_last [of ?h1 "data_blocks to" xs b "bb_next nb" nb "Some ?s"]
          relinked_path [OF rel2, of t2]
        by (auto simp: bb_path_append)
    qed
    ultimately show ?thesis
      using relinked_trans [OF rel1 rel2] snoc
      by (intro exI [of _ ?h] exI [of _ "data_blocks to"]) (auto simp: relinked_def)
  qed
qed

text \<open>
  The whole function: a run of nodes leaves the one list and enters the other after the nodes with
  smaller block numbers.  No chunk changes; both search pointers are reset.
\<close>

theorem backed_block_list_move_refines:
  assumes ok: "heap_ok h"
    and pf: "bb_path h (data_blocks from) (pre @ run @ rest) None" and run: "run \<noteq> []"
    and pt: "bb_path h (data_blocks to) (t1 @ t2) None" and t1: "t1 = [] \<Longrightarrow> t2 = []"
    and disj: "set (pre @ run @ rest) \<inter> set (t1 @ t2) = {}"
    and skip: "\<forall>c\<in>set (tl (chunks h t1)). blk c \<le> blk (hd (chunks h run))"
    and stop: "t2 \<noteq> [] \<Longrightarrow> blk (hd (chunks h run)) < blk (hd (chunks h t2))"
    and start: "start = Some (hd run) \<or> start = None \<and> pre = []"
    and endp: "end = Some (last run) \<or> end = None \<and> rest = []"
  shows "\<exists>h' d d'. backed_block_list_move h from to start end =
       Inr (h', from\<lparr>data_blocks := d, last_used := None\<rparr>, to\<lparr>data_blocks := d', last_used := None\<rparr>)
     \<and> bb_path h' d (pre @ rest) None \<and> bb_path h' d' (t1 @ run @ t2) None
     \<and> relinked (set pre \<union> (set run \<union> set t1)) h h'"
proof -
  let ?s = "hd run" and ?e = "last run"
  have dist: "distinct (pre @ run @ rest)" by (rule bb_path_distinct [OF pf])
  obtain m q where m: "bb_path h (data_blocks from) pre m" "bb_path h m run q" "bb_path h q rest None"
    using pf by (auto simp: bb_path_append)
  have ms: "m = Some ?s" using m(2) run by (cases run) auto
  obtain body where body: "run = body @ [?e]" using run by (metis append_butlast_last_id)
  obtain ne where ne: "hp_cells h ?e = Some ne" "bb_next ne = q"
    using m(2) by (subst (asm) body) (auto simp: bb_path_append split: option.splits)
  have first: "(if start = None then data_blocks from else start) = Some ?s"
    using start m(1) ms by auto
  have last: "(if end = None then last_loop (hp_brk h) h (Some ?s) else Inr end) = Inr (Some ?e)"
    using endp last_loop_path [of h "Some ?s" run "hp_brk h"] m ms run bb_path_length [OF ok pf] by auto
  let ?from = "from\<lparr>last_used := None\<rparr>" and ?to = "to\<lparr>last_used := None\<rparr>"
  obtain h1 d where u: "unlink_run h ?from (Some ?s) (bb_next ne) = Inr (h1, ?from\<lparr>data_blocks := d\<rparr>)"
      "bb_path h1 d (pre @ rest) None" "relinked (set pre) h h1"
    using unlink_run_path [OF ok, of ?from pre run rest ?s "bb_next ne"] pf m ms ne run by auto
  note keep = relinked_path [OF u(3)]
  obtain h2 d' where l: "link_run h1 ?to (Some ?s) (Some ?e) = Inr (h2, ?to\<lparr>data_blocks := d'\<rparr>)"
      "bb_path h2 d' (t1 @ run @ t2) None" "relinked (set run \<union> set t1) h1 h2"
  proof -
    have "heap_ok h1" and ch: "chunks h1 xs = chunks h xs" for xs
      using u(3) ok by (auto simp: relinked_def)
    moreover have "bb_path h1 (Some ?s) run q" using keep [of run] m(2) ms dist by auto
    moreover have "bb_path h1 (data_blocks ?to) (t1 @ t2) None"
      using keep [of "t1 @ t2"] pt disj by auto
    moreover have "set run \<inter> set (t1 @ t2) = {}" using disj by auto
    ultimately show ?thesis
      using link_run_path [of h1 run q ?to t1 t2] run dist t1 skip stop that by auto
  qed
  have "(set run \<union> set t1) \<inter> set (pre @ rest) = {}" using disj dist by auto
  then have "bb_path h2 d (pre @ rest) None"
    using relinked_path [OF l(3), of "pre @ rest"] u(2) by auto
  moreover have "backed_block_list_move h from to start end =
      Inr (h2, ?from\<lparr>data_blocks := d\<rparr>, ?to\<lparr>data_blocks := d'\<rparr>)"
    using first last u(1) l(1) ne by (simp add: backed_block_list_move_def Let_def)
  ultimately show ?thesis
    using l(2) relinked_trans [OF u(3) l(3)] by (auto intro!: exI)
qed

end
