(* ===== verification/Block_Image.thy ===== *)
theory Block_Image
  imports Backed_Block
begin

text \<open>
  What a block list means: the bytes of the image it describes.  A chunk covers the bytes from
  \<open>block * block_size\<close> on; each byte comes from the backing.  The lemmas show that merging and
  splitting of \<^verbatim>\<open>backed_block.c\<close> do not change the image and that queueing a chunk adds exactly
  its bytes.
\<close>

section \<open>Contents\<close>

text \<open>The outside world a block can refer to: memory buffers, named files, open descriptors.\<close>

record media =
  md_buf :: "nat \<Rightarrow> nat \<Rightarrow> byte"
  md_file :: "ptr \<Rightarrow> int \<Rightarrow> byte"
  md_fd :: "int \<Rightarrow> int \<Rightarrow> byte"

fun back_byte :: "media \<Rightarrow> backing \<Rightarrow> nat \<Rightarrow> byte" where
  "back_byte m (BACKED_BLOCK_DATA buf off) k = md_buf m buf (off + k)"
| "back_byte m (BACKED_BLOCK_FILE fn off) k = md_file m fn (off + int k)"
| "back_byte m (BACKED_BLOCK_FD fd off) k = md_fd m fd (off + int k)"
| "back_byte m (BACKED_BLOCK_FILL v) k = u32_le v ! (k mod 4)"

definition c_start :: "u32 \<Rightarrow> chunk \<Rightarrow> nat" where
  "c_start bs c = unat (blk c) * unat bs"

definition c_end :: "u32 \<Rightarrow> chunk \<Rightarrow> nat" where
  "c_end bs c = c_start bs c + unat (len c)"

fun image_at :: "media \<Rightarrow> u32 \<Rightarrow> chunk list \<Rightarrow> nat \<Rightarrow> byte option" where
  "image_at m bs [] pos = None"
| "image_at m bs (c # cs) pos =
     (if c_start bs c \<le> pos \<and> pos < c_end bs c then Some (back_byte m (bck c) (pos - c_start bs c))
      else image_at m bs cs pos)"

text \<open>
  A well-formed list: the chunks lie one after the other, each starts at a block the previous one
  does not reach into, and the last block number fits in 32 bits.
\<close>

definition blocks :: "u32 \<Rightarrow> chunk \<Rightarrow> nat" where
  "blocks bs c = (unat (len c) + unat bs - 1) div unat bs"

definition before :: "u32 \<Rightarrow> chunk \<Rightarrow> chunk \<Rightarrow> bool" where
  "before bs c d \<longleftrightarrow> unat (blk c) + blocks bs c \<le> unat (blk d) \<and> blk c < blk d"

definition chunks_ok :: "u32 \<Rightarrow> chunk list \<Rightarrow> bool" where
  "chunks_ok bs cs \<longleftrightarrow> bs \<noteq> 0 \<and> 4 dvd unat bs \<and> sorted_wrt (before bs) cs"

lemma blocks_end: "bs \<noteq> 0 \<Longrightarrow> c_end bs c \<le> (unat (blk c) + blocks bs c) * unat bs"
proof -
  assume "bs \<noteq> 0"
  then have b: "0 < unat bs" by (simp add: unat_gt_0)
  let ?l = "unat (len c)" and ?b = "unat bs"
  have "?l \<le> (?l + ?b - 1) div ?b * ?b"
    using b div_mult_mod_eq [of "?l + ?b - 1" ?b] mod_less_divisor [OF b, of "?l + ?b - 1"] by linarith
  then show ?thesis by (simp add: c_end_def c_start_def blocks_def add_mult_distrib)
qed

lemma before_disjoint: "bs \<noteq> 0 \<Longrightarrow> before bs c d \<Longrightarrow> c_end bs c \<le> c_start bs d"
  using blocks_end [of bs c] mult_le_mono1 [of "unat (blk c) + blocks bs c" "unat (blk d)" "unat bs"]
  unfolding before_def c_start_def by linarith

lemma image_outside:
  "(\<And>c. c \<in> set cs \<Longrightarrow> \<not> (c_start bs c \<le> pos \<and> pos < c_end bs c)) \<Longrightarrow> image_at m bs cs pos = None"
  by (induction cs) auto

lemma image_append:
  "image_at m bs (cs @ ds) pos = (case image_at m bs cs pos of None \<Rightarrow> image_at m bs ds pos | Some b \<Rightarrow> Some b)"
  by (induction cs) auto

section \<open>Merging\<close>

lemma can_merge_aligned:
  assumes "bs \<noteq> 0" and "before bs c d" and "can_merge bs c d"
  shows "c_end bs c = c_start bs d" and "unat bs dvd unat (len c)"
proof -
  let ?b = "unat bs" and ?l = "unat (len c)"
  have b: "0 < ?b" using assms(1) by (simp add: unat_gt_0)
  have le: "?l div ?b \<le> blocks bs c" using b by (simp add: blocks_def div_le_mono)
  have fit: "unat (blk c) + blocks bs c \<le> unat (blk d)" using assms(2) by (simp add: before_def)
  have "unat (blk c) + ?l div ?b < 4294967296" using fit le unat_less_u32 [of "blk d"] by linarith
  moreover have "blk d = blk c + len c div bs" using assms(3) by (simp add: can_merge_def)
  ultimately have "unat (blk d) = unat (blk c) + ?l div ?b"
    by (simp add: unat_add_u32 unat_div)
  with fit have eq: "blocks bs c = ?l div ?b" using le by simp
  have "?l \<le> ?l div ?b * ?b"
    using blocks_end [OF assms(1), of c] eq by (simp add: c_end_def c_start_def add_mult_distrib)
  then have "?l = ?l div ?b * ?b" using div_mult_mod_eq [of ?l ?b] by linarith
  then show dvd: "?b dvd ?l" by (metis dvd_triv_right)
  show "c_end bs c = c_start bs d"
    using \<open>unat (blk d) = _\<close> \<open>?l = _\<close> by (simp add: c_end_def c_start_def add_mult_distrib)
qed

lemma continues_byte:
  assumes "continues l k k'" and "4 dvd unat l"
  shows "back_byte m k (unat l + j) = back_byte m k' j"
proof -
  have "(unat l + j) mod 4 = j mod 4" using assms(2) by (auto elim!: dvdE)
  then show ?thesis
    using assms(1) by (cases k; cases k') (auto simp: continues_def algebra_simps)
qed

lemma merged_ok:
  assumes bs: "bs \<noteq> 0" and cd: "before bs c d" and can: "can_merge bs c d"
    and sum: "unat (len c + len d) = unat (len c) + unat (len d)"
  defines "cd \<equiv> (blk c, len c + len d, bck c)"
  shows "c_start bs cd = c_start bs c" and "c_end bs cd = c_end bs d"
    and "before bs d e \<Longrightarrow> before bs cd e"
proof -
  note al = can_merge_aligned [OF bs cd can]
  show "c_start bs cd = c_start bs c" "c_end bs cd = c_end bs d"
    using al(1) sum by (auto simp: c_start_def c_end_def cd_def)
  have b: "0 < unat bs" using bs by (simp add: unat_gt_0)
  have "unat (len c) + unat (len d) + unat bs - 1 = unat (len c) + (unat (len d) + unat bs - 1)"
    using b by simp
  then have bl: "blocks bs cd = unat (len c) div unat bs + blocks bs d"
    using al(2) sum by (simp add: blocks_def div_plus_div_distrib_dvd_left cd_def)
  obtain q where q: "unat (len c) = unat bs * q" using al(2) by (elim dvdE)
  have "unat (blk d) * unat bs = (unat (blk c) + q) * unat bs"
    using al(1) q by (simp add: c_end_def c_start_def algebra_simps)
  then have "unat (blk d) = unat (blk c) + unat (len c) div unat bs" using b q by simp
  then show "before bs cd e" if "before bs d e"
    using cd that bl by (auto simp: before_def cd_def)
qed

lemma merged_image:
  assumes bs: "bs \<noteq> 0" "4 dvd unat bs" and cd: "before bs c d" and can: "can_merge bs c d"
    and sum: "unat (len c + len d) = unat (len c) + unat (len d)"
  shows "image_at m bs ((blk c, len c + len d, bck c) # es) pos = image_at m bs (c # d # es) pos"
proof -
  note al = can_merge_aligned [OF bs(1) cd can]
  have d4: "4 dvd unat (len c)" using bs(2) al(2) dvd_trans by blast
  have "back_byte m (bck c) (pos - c_start bs c) = back_byte m (bck d) (pos - c_start bs d)"
    if "c_end bs c \<le> pos"
  proof -
    have "pos - c_start bs c = unat (len c) + (pos - c_start bs d)"
      using that al(1) by (simp add: c_end_def)
    then show ?thesis
      using continues_byte [of "len c" "bck c" "bck d"] can d4 by (simp add: can_merge_def)
  qed
  then show ?thesis using al(1) merged_ok(1,2) [OF bs(1) cd can sum] by (auto simp: c_end_def)
qed

lemma merge_next_ok:
  assumes ok: "chunks_ok bs (c # ds)"
    and fits: "ds \<noteq> [] \<Longrightarrow> unat (len c) + unat (len (hd ds)) < 4294967296"
  shows "chunks_ok bs (merge_next bs c ds) \<and> image_at m bs (merge_next bs c ds) pos = image_at m bs (c # ds) pos"
proof (cases "ds \<noteq> [] \<and> can_merge bs c (hd ds)")
  case True
  then obtain d es where ds: "ds = d # es" and can: "can_merge bs c d" by (cases ds) auto
  have cd: "before bs c d" and bs: "bs \<noteq> 0" "4 dvd unat bs"
    using ok ds by (auto simp: chunks_ok_def)
  have sum: "unat (len c + len d) = unat (len c) + unat (len d)" using fits ds by (simp add: unat_add_u32)
  show ?thesis
    using ok ds can merged_ok(3) [OF bs(1) cd can sum] merged_image [OF bs cd can sum, of m es pos]
    by (auto simp: chunks_ok_def)
next
  case False
  then show ?thesis using ok by (cases ds) auto
qed

lemma before_merge_next:
  "\<forall>d\<in>set (c # ds). before bs x d \<Longrightarrow> y \<in> set (merge_next bs c ds) \<Longrightarrow> before bs x y"
  by (cases ds) (auto simp: before_def split: if_splits)

lemma merge_next_ok_in:
  assumes ok: "chunks_ok bs (pre @ c # ds)"
    and fits: "ds \<noteq> [] \<Longrightarrow> unat (len c) + unat (len (hd ds)) < 4294967296"
  shows "chunks_ok bs (pre @ merge_next bs c ds)
    \<and> image_at m bs (pre @ merge_next bs c ds) pos = image_at m bs (pre @ c # ds) pos"
proof -
  have "chunks_ok bs (c # ds)" using ok by (simp add: chunks_ok_def sorted_wrt_append)
  from merge_next_ok [OF this fits] have "chunks_ok bs (merge_next bs c ds)"
    and "image_at m bs (merge_next bs c ds) pos = image_at m bs (c # ds) pos" by auto
  moreover have "before bs x y" if "x \<in> set pre" "y \<in> set (merge_next bs c ds)" for x y
    using ok that before_merge_next [of c ds bs x y] by (auto simp: chunks_ok_def sorted_wrt_append)
  ultimately show ?thesis
    using ok by (simp only: chunks_ok_def sorted_wrt_append image_append) blast
qed

section \<open>Queueing\<close>

definition fresh :: "u32 \<Rightarrow> chunk \<Rightarrow> chunk list \<Rightarrow> bool" where
  "fresh bs n cs \<longleftrightarrow> list_all (\<lambda>c. before bs c n \<or> before bs n c) cs"

definition merges_fit :: "chunk \<Rightarrow> chunk list \<Rightarrow> bool" where
  "merges_fit n cs \<longleftrightarrow>
     list_all (\<lambda>c. list_all (\<lambda>d. unat (len c) + unat (len n) + unat (len d) < 4294967296) cs) cs"

lemma sorted_partition:
  assumes "sorted_wrt (before bs) cs"
  shows "cs = filter (\<lambda>c. blk c < blk n) cs @ filter (\<lambda>c. \<not> blk c < blk n) cs"
  using assms
proof (induction cs)
  case (Cons c cs)
  then have "filter (\<lambda>c. blk c < blk n) cs = []" if "\<not> blk c < blk n"
    using that by (force simp: before_def filter_empty_conv)
  with Cons show ?case by auto
qed simp

lemma image_insert:
  assumes ok: "chunks_ok bs (pre @ n # post)"
  shows "image_at m bs (pre @ n # post) pos =
    (if c_start bs n \<le> pos \<and> pos < c_end bs n then Some (back_byte m (bck n) (pos - c_start bs n))
     else image_at m bs (pre @ post) pos)"
proof -
  have "c_end bs c \<le> c_start bs n" if "c \<in> set pre" for c
    using that ok before_disjoint [of bs c n] by (auto simp: chunks_ok_def sorted_wrt_append)
  then have "image_at m bs pre pos = None" if "c_start bs n \<le> pos"
    using that by (intro image_outside) (meson leD order_trans)
  then show ?thesis by (auto simp: image_append split: option.splits)
qed

lemma fits_hd_merge_next:
  assumes "\<forall>d\<in>set ds. k + unat (len n) + unat (len d) < 4294967296" and "k + unat (len n) < 4294967296"
  shows "k + unat (len (hd (merge_next bs n ds))) < 4294967296"
  using assms by (cases ds) (auto simp: unat_add_u32)

lemma queue_chunk_image:
  assumes ok: "chunks_ok bs cs" and fresh: "fresh bs n cs" and fit: "merges_fit n cs"
  shows "chunks_ok bs (queue_chunk bs n cs) \<and> image_at m bs (queue_chunk bs n cs) pos =
    (if c_start bs n \<le> pos \<and> pos < c_end bs n then Some (back_byte m (bck n) (pos - c_start bs n))
     else image_at m bs cs pos)"
proof -
  define pre post where "pre = filter (\<lambda>c. blk c < blk n) cs" and "post = filter (\<lambda>c. \<not> blk c < blk n) cs"
  have cs: "cs = pre @ post"
    using ok sorted_partition [of bs cs n] by (simp add: pre_def post_def chunks_ok_def)
  have sides: "\<forall>c\<in>set pre. before bs c n" "\<forall>c\<in>set post. before bs n c"
    using fresh by (auto simp: fresh_def list_all_iff pre_def post_def before_def)
  have mid: "chunks_ok bs (pre @ n # post)"
    using ok sides unfolding cs by (auto simp: chunks_ok_def sorted_wrt_append)
  have fits: "unat (len c) + unat (len n) + unat (len d) < 4294967296" if "c \<in> set cs" "d \<in> set cs" for c d
    using fit that by (auto simp: merges_fit_def list_all_iff)
  have first: "chunks_ok bs (pre @ merge_next bs n post)
      \<and> image_at m bs (pre @ merge_next bs n post) pos = image_at m bs (pre @ n # post) pos"
    using fits [of "hd post" "hd post"] cs by (intro merge_next_ok_in [OF mid]) auto
  show ?thesis
  proof (cases pre rule: rev_cases)
    case Nil
    have "queue_chunk bs n cs = n # post"
      using sides cs Nil by (cases post) (auto simp: before_def)
    then show ?thesis using mid image_insert [OF mid] cs Nil by simp
  next
    case (snoc as c)
    have q: "queue_chunk bs n cs = as @ merge_next bs c (merge_next bs n post)"
      using sides unfolding cs snoc by (simp, intro queue_chunk_split) (auto simp: before_def)
    have "chunks_ok bs (as @ c # merge_next bs n post)" using first snoc by simp
    moreover have "\<forall>d\<in>set post. unat (len c) + unat (len n) + unat (len d) < 4294967296"
      using fits [of c] cs snoc by auto
    then have "unat (len c) + unat (len (hd (merge_next bs n post))) < 4294967296"
      using fits [of c c] cs snoc by (intro fits_hd_merge_next) auto
    ultimately show ?thesis
      using merge_next_ok_in [of bs as c "merge_next bs n post" m pos] first image_insert [OF mid] q cs snoc
      by simp
  qed
qed

section \<open>Splitting\<close>

lemma advance_byte: "4 dvd unat l \<Longrightarrow> back_byte m (advance l k) j = back_byte m k (unat l + j)"
proof -
  assume "4 dvd unat l"
  then have "(unat l + j) mod 4 = j mod 4" by (auto elim!: dvdE)
  then show ?thesis by (cases k) (auto simp: algebra_simps)
qed

lemma split_chunk_image:
  assumes bs: "bs \<noteq> 0" "4 dvd unat bs" and dvd: "unat bs dvd unat k" and less: "k < len c"
    and fit: "unat (blk c) + blocks bs c < 4294967296"
  shows "image_at m bs (split_chunk bs k c) pos = image_at m bs [c] pos"
proof -
  have b: "0 < unat bs" using bs by (simp add: unat_gt_0)
  have kl: "unat k < unat (len c)" using less by (simp add: word_less_nat_alt)
  then have "unat k div unat bs \<le> blocks bs c" using b by (simp add: blocks_def div_le_mono)
  then have "unat (blk c + k div bs) = unat (blk c) + unat k div unat bs"
    using fit by (simp add: unat_add_u32 unat_div)
  then have "unat (blk c + k div bs) * unat bs = unat (blk c) * unat bs + unat k"
    using dvd by (simp add: add_mult_distrib)
  moreover have "unat (len c - k) = unat (len c) - unat k" using less by (simp add: unat_sub less_imp_le)
  moreover have "4 dvd unat k" using bs(2) dvd dvd_trans by blast
  ultimately show ?thesis
    using kl by (auto simp: split_chunk_def c_start_def c_end_def advance_byte)
qed

section \<open>Adding chunks to the heap list\<close>

text \<open>
  \<open>adds_bytes m h l as r n\<close>: the call that returned \<open>r\<close> succeeded, kept the list well formed, and
  turned the image of the list \<open>as\<close> into the same image with the bytes of chunk \<open>n\<close> added.
\<close>

definition adds_bytes :: "media \<Rightarrow> heap \<Rightarrow> backed_block_list \<Rightarrow> addr list
    \<Rightarrow> (int \<times> heap \<times> backed_block_list) res \<Rightarrow> chunk \<Rightarrow> bool" where
  "adds_bytes m h l as r n \<longleftrightarrow> (\<exists>h' l' as'. r = Inr (0, h', l') \<and> list_inv h' (data_blocks l') as'
     \<and> bbl_block_size l' = bbl_block_size l \<and> chunks_ok (bbl_block_size l) (chunks h' as')
     \<and> (\<forall>pos. image_at m (bbl_block_size l) (chunks h' as') pos =
         (if c_start (bbl_block_size l) n \<le> pos \<and> pos < c_end (bbl_block_size l) n
          then Some (back_byte m (bck n) (pos - c_start (bbl_block_size l) n))
          else image_at m (bbl_block_size l) (chunks h as) pos)))"

lemma fresh_cong: "fresh bs (b, s, k) cs = fresh bs (b, s, k') cs"
  by (simp add: fresh_def before_def blocks_def)

lemma merges_fit_cong: "merges_fit (b, s, k) cs = merges_fit (b', s, k') cs"
  by (simp add: merges_fit_def)

lemma fresh_block: "fresh bs (b, s, k) cs \<Longrightarrow> b \<notin> fst ` set cs"
  by (auto simp: fresh_def before_def list_all_iff)

lemma add_bb_adds_bytes:
  assumes inv: "list_inv h (data_blocks l) as" and lu: "last_used_ok l as" and mem: "hp_oom h = []"
    and ok: "chunks_ok (bbl_block_size l) (chunks h as)"
    and fresh: "fresh (bbl_block_size l) (block, sz, bk) (chunks h as)"
    and fit: "merges_fit (block, sz, bk) (chunks h as)" and nofile: "fname (block, sz, bk) = []"
  shows "adds_bytes m h l as (add_bb h l block sz bk) (block, sz, bk)"
proof -
  have "bbl_block_size l \<noteq> 0" using ok by (simp add: chunks_ok_def)
  from add_bb_refines [OF inv this lu _ fresh_block [OF fresh] nofile] mem
  obtain h' l' as' where "add_bb h l block sz bk = Inr (0, h', l')" "list_inv h' (data_blocks l') as'"
      "chunks h' as' = queue_chunk (bbl_block_size l) (block, sz, bk) (chunks h as)"
      "bbl_block_size l' = bbl_block_size l"
    by auto
  with queue_chunk_image [OF ok fresh fit] show ?thesis
    unfolding adds_bytes_def by auto
qed

lemma list_inv_strdup:
  assumes "list_inv h p as"
  shows "list_inv (h\<lparr>hp_strs := (hp_strs h)(hp_brk h \<mapsto> s), hp_brk := Suc (hp_brk h)\<rparr>) p as"
  using assms bb_path_cong [of as "h\<lparr>hp_strs := (hp_strs h)(hp_brk h \<mapsto> s), hp_brk := Suc (hp_brk h)\<rparr>" h]
    chunks_cong [of as "h\<lparr>hp_strs := (hp_strs h)(hp_brk h \<mapsto> s), hp_brk := Suc (hp_brk h)\<rparr>" h]
  by (auto simp: list_inv_def heap_ok_def names_ok_def less_SucI)

lemma names_ok_new_file:
  assumes "names_ok h cs" and "f \<notin> set (concat (map fname cs))" and "hp_strs h f \<noteq> None"
  shows "names_ok h ((b, s, BACKED_BLOCK_FILE (Some f) off) # cs)"
  using assms by (simp add: names_ok_def fname_def [of "(b, s, BACKED_BLOCK_FILE (Some f) off)"])

lemma backed_block_add_file_adds_bytes:
  assumes inv: "list_inv h (data_blocks l) as" and lu: "last_used_ok l as" and mem: "hp_oom h = []"
    and ok: "chunks_ok (bbl_block_size l) (chunks h as)"
    and fresh: "fresh (bbl_block_size l) (block, sz, BACKED_BLOCK_FILE (Some (Suc (hp_brk h))) off) (chunks h as)"
    and fit: "merges_fit (block, sz, BACKED_BLOCK_FILE (Some (Suc (hp_brk h))) off) (chunks h as)"
  shows "adds_bytes m h l as (backed_block_add_file h l s off sz block)
      (block, sz, BACKED_BLOCK_FILE (Some (Suc (hp_brk h))) off)"
proof -
  let ?n = "hp_brk h" and ?bk = "BACKED_BLOCK_FILE (Some (Suc (hp_brk h))) off"
  let ?nn = "\<lparr>bb_block = block, bb_len = sz, bb_back = ?bk, bb_next = None\<rparr>"
  let ?h1 = "h\<lparr>hp_cells := (hp_cells h)(?n \<mapsto> ?nn), hp_brk := Suc ?n, hp_oom := []\<rparr>"
  let ?h = "?h1\<lparr>hp_strs := (hp_strs ?h1)(hp_brk ?h1 \<mapsto> s), hp_brk := Suc (hp_brk ?h1)\<rparr>"
  note fr = list_inv_malloc(1,2) [OF inv, where bb = ?nn and oom = "[]"] list_inv_malloc(3) [OF inv]
  have inv': "list_inv ?h (data_blocks l) as" using list_inv_strdup [OF fr(1)] .
  have ch: "chunks ?h as = chunks h as" using fr(2) chunks_cong [of as ?h ?h1] by simp
  have c: "chunk_of ?nn = (block, sz, ?bk)" by (simp add: chunk_of_def)
  have "Suc ?n \<notin> set (concat (map fname (chunks h as)))"
    using inv by (fastforce simp: list_inv_def names_ok_def heap_ok_def)
  moreover have "names_ok ?h (chunks h as)" using inv' unfolding list_inv_def ch by blast
  ultimately have names: "names_ok ?h (chunk_of ?nn # chunks ?h as)"
    unfolding ch c by (intro names_ok_new_file) simp_all
  have call: "backed_block_add_file h l s off sz block = queue_bb ?h l (Some ?n)"
    using mem by (cases h) (simp add: backed_block_add_file_def malloc_bb_def alloc_ok_def strdup_def)
  have "bbl_block_size l \<noteq> 0" using ok by (simp add: chunks_ok_def)
  from queue_bb_refines [OF inv' this lu _ _ fr(3) _ names] fresh_block [OF fresh] ch
  obtain h' l' as' where "queue_bb ?h l (Some ?n) = Inr (0, h', l')" "list_inv h' (data_blocks l') as'"
      "chunks h' as' = queue_chunk (bbl_block_size l) (block, sz, ?bk) (chunks h as)"
      "bbl_block_size l' = bbl_block_size l"
    unfolding c by auto
  with queue_chunk_image [OF ok fresh fit] show ?thesis
    unfolding call adds_bytes_def by auto
qed

section \<open>Properties of the block list\<close>

text \<open>
  C3. Adding a chunk to a well-formed block list, by any of the four functions
  \<^verbatim>\<open>backed_block_add_data\<close>, \<^verbatim>\<open>_fd\<close>, \<^verbatim>\<open>_fill\<close> and \<^verbatim>\<open>_file\<close>, succeeds, keeps the list well formed
  (sorted, disjoint, acyclic, names owned once) and changes the image it describes by exactly the
  bytes of the new chunk, whatever merging with the neighbours takes place.  It asks that the blocks
  of the chunk are free, that merged lengths fit in 32 bits and that the search pointer of the list
  does not dangle.
\<close>

theorem backed_block_add_image:
  assumes "list_inv h (data_blocks l) as" and "last_used_ok l as" and "hp_oom h = []"
    and "chunks_ok (bbl_block_size l) (chunks h as)"
    and "fresh (bbl_block_size l) (block, sz, BACKED_BLOCK_FILL 0) (chunks h as)"
    and "merges_fit (block, sz, BACKED_BLOCK_FILL 0) (chunks h as)"
  shows "adds_bytes m h l as (backed_block_add_data h l (buf, k) sz block) (block, sz, BACKED_BLOCK_DATA buf k)
     \<and> adds_bytes m h l as (backed_block_add_fd h l fd off sz block) (block, sz, BACKED_BLOCK_FD fd off)
     \<and> adds_bytes m h l as (backed_block_add_fill h l v sz block) (block, sz, BACKED_BLOCK_FILL v)
     \<and> adds_bytes m h l as (backed_block_add_file h l name off sz block)
         (block, sz, BACKED_BLOCK_FILE (Some (Suc (hp_brk h))) off)"
proof -
  have fr: "fresh (bbl_block_size l) (block, sz, bk) (chunks h as)" for bk
    using assms(5) fresh_cong by metis
  have ft: "merges_fit (block, sz, bk) (chunks h as)" for bk
    using assms(6) merges_fit_cong by metis
  note add = add_bb_adds_bytes [OF assms(1-4) fr ft]
  show ?thesis
    using backed_block_add_file_adds_bytes [OF assms(1-4) fr ft]
    unfolding backed_block_add_data_def backed_block_add_fd_def backed_block_add_fill_def fst_conv snd_conv
    by (intro conjI add) (simp_all add: fname_def)
qed

theorem backed_block_add_image_witness:
  "adds_bytes \<lparr>md_buf = (\<lambda>b k. of_nat k), md_file = (\<lambda>f k. 0), md_fd = (\<lambda>d k. 0)\<rparr>
     \<lparr>hp_cells = [0 \<mapsto> \<lparr>bb_block = 2, bb_len = 4096, bb_back = BACKED_BLOCK_FD 3 8192, bb_next = None\<rparr>],
       hp_strs = Map.empty, hp_brk = 1, hp_oom = []\<rparr>
     \<lparr>data_blocks = Some 0, last_used = None, bbl_block_size = 4096\<rparr> [0]
     (backed_block_add_fd
       \<lparr>hp_cells = [0 \<mapsto> \<lparr>bb_block = 2, bb_len = 4096, bb_back = BACKED_BLOCK_FD 3 8192, bb_next = None\<rparr>],
         hp_strs = Map.empty, hp_brk = 1, hp_oom = []\<rparr>
       \<lparr>data_blocks = Some 0, last_used = None, bbl_block_size = 4096\<rparr> 3 12288 100 3)
     (3, 100, BACKED_BLOCK_FD 3 12288)"
  by (rule backed_block_add_image [THEN conjunct2, THEN conjunct1])
     (simp_all add: list_inv_def heap_ok_def names_ok_def fname_def last_used_ok_def chunks_ok_def
        fresh_def merges_fit_def before_def blocks_def chunk_of_def)

lemma queue_chunk_not_Nil: "queue_chunk bs n cs \<noteq> []"
proof -
  have "insert_after bs n c ds \<noteq> []" for c ds
    using merge_next_hd(2) by (induction ds arbitrary: c) auto
  then show ?thesis by (cases cs) auto
qed

lemma insert_after_hd: "blk (hd (insert_after bs n c cs)) = blk c"
  by (cases cs; cases "merge_next bs n cs") (auto split: if_splits)

lemma absorbed_hd:
  assumes "absorbed bs n cs" and "sorted_wrt (<) (map fst cs)"
  shows "\<exists>c ds. cs = c # ds \<and> blk c < blk n"
proof (cases cs)
  case Nil then show ?thesis using assms by (simp add: absorbed_def)
next
  case (Cons c ds)
  have "blk c < blk n"
  proof (rule ccontr)
    assume "\<not> blk c < blk n"
    then have "filter (\<lambda>d. blk d < blk n) cs = []"
      using assms(2) Cons by (fastforce simp: filter_empty_conv)
    then show False using assms(1) by (simp add: absorbed_def)
  qed
  with Cons show ?thesis by blast
qed



text \<open>
  C23. Destroying a well-formed list frees every node and every file name of it exactly once and
  touches nothing else.
\<close>

theorem list_destroy_complete:
  assumes "list_inv h (data_blocks l) as"
  shows "\<exists>h'. backed_block_list_destroy h l = Inr h'
     \<and> (\<forall>x. hp_cells h' x = (if x \<in> set as then None else hp_cells h x))
     \<and> (\<forall>x. hp_strs h' x = (if x \<in> set (concat (map fname (chunks h as))) then None else hp_strs h x))"
  using assms by (rule backed_block_list_destroy_frees)

theorem list_destroy_complete_witness:
  "\<exists>h'. backed_block_list_destroy
      \<lparr>hp_cells = [0 \<mapsto> \<lparr>bb_block = 5, bb_len = 10, bb_back = BACKED_BLOCK_FILE (Some 1) 0, bb_next = None\<rparr>],
        hp_strs = [1 \<mapsto> ''a.img'', 2 \<mapsto> ''other''], hp_brk = 3, hp_oom = []\<rparr>
      \<lparr>data_blocks = Some 0, last_used = None, bbl_block_size = 4096\<rparr> = Inr h'
    \<and> hp_cells h' 0 = None \<and> hp_strs h' 1 = None \<and> hp_strs h' 2 = Some ''other''"
proof -
  let ?h = "\<lparr>hp_cells = [0 \<mapsto> \<lparr>bb_block = 5, bb_len = 10, bb_back = BACKED_BLOCK_FILE (Some 1) 0, bb_next = None\<rparr>],
        hp_strs = [1 \<mapsto> ''a.img'', 2 \<mapsto> ''other''], hp_brk = 3, hp_oom = []\<rparr>"
  let ?l = "\<lparr>data_blocks = Some 0, last_used = None, bbl_block_size = 4096\<rparr>"
  have "list_inv ?h (data_blocks ?l) [0]"
    by (auto simp: list_inv_def heap_ok_def names_ok_def fname_def chunk_of_def split: if_splits)
  from list_destroy_complete [OF this] show ?thesis
    by (auto simp: fname_def chunk_of_def)
qed

text \<open>
  C21. Splitting a chunk that is longer than the limit leaves the image of the list as it was: the node
  keeps the first whole blocks that fit, a new node behind it holds the rest.
\<close>

theorem backed_block_split_image:
  assumes ok: "heap_ok h" and path: "bb_path h p (pre @ a # post) None" and mem: "hp_oom h = []"
    and na: "hp_cells h a = Some na"
    and bs: "bbl_block_size l \<noteq> 0" "4 dvd unat (bbl_block_size l)"
    and long: "bbl_block_size l * (max_len div bbl_block_size l) < bb_len na"
    and fit: "unat (bb_block na) + blocks (bbl_block_size l) (chunk_of na) < 4294967296"
  shows "\<exists>h'. backed_block_split h l (Some a) max_len = Inr (0, h')
     \<and> bb_path h' p (pre @ a # hp_brk h # post) None
     \<and> (\<forall>m pos. image_at m (bbl_block_size l) (chunks h' (pre @ a # hp_brk h # post)) pos
          = image_at m (bbl_block_size l) (chunks h (pre @ a # post)) pos)
     \<and> bb_len (the (hp_cells h' a)) \<le> max_len"
proof -
  let ?b = "bbl_block_size l" let ?k = "?b * (max_len div ?b)"
  have kn: "unat ?k = unat ?b * (unat max_len div unat ?b)"
  proof -
    have "unat max_len div unat ?b < 4294967296"
      using unat_less_u32 [of max_len] div_le_dividend le_less_trans by blast
    moreover have "unat ?b * (unat max_len div unat ?b) < 4294967296"
      using unat_less_u32 [of max_len] times_div_less_eq_dividend le_less_trans by blast
    ultimately show ?thesis by (simp add: unat_word_ariths unat_div)
  qed
  then have dvd: "unat ?b dvd unat ?k" and le: "?k \<le> max_len"
    by (simp_all add: word_le_nat_alt)
  from backed_block_split_refines [OF ok path bs(1) _ na refl long] mem
  obtain h' where h': "backed_block_split h l (Some a) max_len = Inr (0, h')"
      "bb_path h' p (pre @ a # hp_brk h # post) None"
      "chunks h' pre = chunks h pre" "chunks h' post = chunks h post"
    and two: "chunks h' [a, hp_brk h] = split_chunk ?b ?k (chunk_of na)"
    by auto
  have "image_at m ?b (chunks h' (pre @ a # hp_brk h # post)) pos = image_at m ?b (chunks h (pre @ a # post)) pos" for m pos
  proof -
    have "chunks h' (pre @ a # hp_brk h # post) = chunks h pre @ split_chunk ?b ?k (chunk_of na) @ chunks h post"
      using two h'(3,4) by simp
    moreover have "chunks h (pre @ a # post) = chunks h pre @ [chunk_of na] @ chunks h post" using na by simp
    moreover have "image_at m ?b (split_chunk ?b ?k (chunk_of na)) pos = image_at m ?b [chunk_of na] pos"
      using bs dvd long fit by (intro split_chunk_image) simp_all
    ultimately show ?thesis by (simp only: image_append)
  qed
  moreover have "bb_len (the (hp_cells h' a)) = ?k"
    using two by (simp add: split_chunk_def chunk_of_def)
  ultimately show ?thesis using h'(1,2) le by auto
qed

theorem backed_block_split_image_witness:
  "\<exists>h'. backed_block_split
      \<lparr>hp_cells = [0 \<mapsto> \<lparr>bb_block = 7, bb_len = 20000, bb_back = BACKED_BLOCK_FD 3 0, bb_next = None\<rparr>],
        hp_strs = Map.empty, hp_brk = 1, hp_oom = []\<rparr>
      \<lparr>data_blocks = Some 0, last_used = None, bbl_block_size = 4096\<rparr> (Some 0) 9000 = Inr (0, h')
    \<and> bb_path h' (Some 0) [0, 1] None
    \<and> (\<forall>m pos. image_at m 4096 (chunks h' [0, 1]) pos = image_at m 4096 [(7, 20000, BACKED_BLOCK_FD 3 0)] pos)
    \<and> bb_len (the (hp_cells h' 0)) \<le> 9000"
  using backed_block_split_image [of
      "\<lparr>hp_cells = [0 \<mapsto> \<lparr>bb_block = 7, bb_len = 20000, bb_back = BACKED_BLOCK_FD 3 0, bb_next = None\<rparr>],
        hp_strs = Map.empty, hp_brk = 1, hp_oom = []\<rparr>" "Some 0" "[]" 0 "[]"
      "\<lparr>bb_block = 7, bb_len = 20000, bb_back = BACKED_BLOCK_FD 3 0, bb_next = None\<rparr>"
      "\<lparr>data_blocks = Some 0, last_used = None, bbl_block_size = 4096\<rparr>" 9000]
  by (simp add: heap_ok_def blocks_def chunk_of_def)




end
