(* ===== verification/Posix_File.thy ===== *)
theory Posix_File
  imports Knife_Prelude
begin

text \<open>
  The part of the POSIX file interface the tools use: an open file is its bytes, a position, and a
  schedule that says how the coming \<^verbatim>\<open>read\<close> and \<^verbatim>\<open>write\<close> calls behave (in full, in part, failing),
  so that short transfers and errors are branches of the model.  An exhausted schedule means that
  calls succeed in full.  Writing beyond the end fills the gap with zeros.
\<close>

section \<open>Open files\<close>

datatype io = IoFull | IoPart nat | IoFail nat

record ofile =
  fl_bytes :: "byte list"
  fl_pos :: nat
  fl_io :: "io list"

definition put_at :: "nat \<Rightarrow> byte list \<Rightarrow> byte list \<Rightarrow> byte list" where
  "put_at pos data bs =
     (if data = [] then bs
      else take pos bs @ replicate (pos - length bs) 0 @ data @ drop (pos + length data) bs)"

definition next_io :: "ofile \<Rightarrow> io \<times> ofile" where
  "next_io f = (case fl_io f of [] \<Rightarrow> (IoFull, f) | i # is \<Rightarrow> (i, f\<lparr>fl_io := is\<rparr>))"

text \<open>
  \<^verbatim>\<open>write(fd, data, n)\<close>: the number of bytes written or a negative error.  A count that is negative
  as an \<^verbatim>\<open>int\<close> exceeds \<^verbatim>\<open>SSIZE_MAX\<close> as a \<^verbatim>\<open>size_t\<close> and is refused.
\<close>

definition posix_write :: "ofile \<Rightarrow> byte list \<Rightarrow> int \<Rightarrow> int \<times> ofile" where
  "posix_write f data n =
    (if n < 0 then (- 22, f)
     else
       (case next_io f of (i, f) \<Rightarrow>
         let out = (\<lambda>k. (let d = take (min k (nat n)) data in
                      (int (length d), f\<lparr>fl_bytes := put_at (fl_pos f) d (fl_bytes f),
                                         fl_pos := fl_pos f + length d\<rparr>)))
         in (case i of IoFull \<Rightarrow> out (nat n) | IoPart k \<Rightarrow> out k | IoFail e \<Rightarrow> (- int (Suc e), f))))"

text \<open>
  \<^verbatim>\<open>read(fd, buf, n)\<close>: the bytes read, none exactly at the end of the file, or an error.  A partial
  read of a file that has bytes left delivers at least one.
\<close>

definition posix_read :: "ofile \<Rightarrow> nat \<Rightarrow> (int + byte list) \<times> ofile" where
  "posix_read f n =
    (case next_io f of (i, f) \<Rightarrow>
      let inp = (\<lambda>k. (let d = take (min k n) (drop (fl_pos f) (fl_bytes f)) in
                   (Inr d, f\<lparr>fl_pos := fl_pos f + length d\<rparr>)))
      in (case i of IoFull \<Rightarrow> inp n | IoPart k \<Rightarrow> inp (Suc k) | IoFail e \<Rightarrow> (Inl (- int (Suc e)), f)))"

definition lseek_set :: "ofile \<Rightarrow> int \<Rightarrow> int \<times> ofile" where
  "lseek_set f off = (if off < 0 then (- 1, f) else (off, f\<lparr>fl_pos := nat off\<rparr>))"

definition lseek_cur :: "ofile \<Rightarrow> int \<Rightarrow> int \<times> ofile" where
  "lseek_cur f off = lseek_set f (int (fl_pos f) + off)"

definition lseek_end :: "ofile \<Rightarrow> int \<Rightarrow> int \<times> ofile" where
  "lseek_end f off = lseek_set f (int (length (fl_bytes f)) + off)"

definition posix_ftruncate :: "ofile \<Rightarrow> int \<Rightarrow> int \<times> ofile" where
  "posix_ftruncate f n =
    (if n < 0 then (- 22, f)
     else (0, f\<lparr>fl_bytes := take (nat n) (fl_bytes f) @ replicate (nat n - length (fl_bytes f)) 0\<rparr>))"

section \<open>Facts\<close>

lemma put_at_end: "put_at (length bs) data bs = bs @ data"
  by (simp add: put_at_def)

lemma length_put_at: "data \<noteq> [] \<Longrightarrow> length (put_at pos data bs) = max (length bs) (pos + length data)"
  by (simp add: put_at_def)

lemma nth_put_at:
  "i < length (put_at pos data bs) \<Longrightarrow> put_at pos data bs ! i =
     (if pos \<le> i \<and> i < pos + length data then data ! (i - pos) else if i < length bs then bs ! i else 0)"
  by (auto simp: put_at_def nth_append min_def nth_Cons' split: if_splits)

text \<open>An open file all of whose coming transfers succeed in full.\<close>

definition reliable :: "ofile \<Rightarrow> bool" where
  "reliable f \<longleftrightarrow> fl_io f = []"

lemma posix_write_full:
  "reliable f \<Longrightarrow> n = int k \<Longrightarrow> k \<le> length data \<Longrightarrow>
     posix_write f data n = (n, f\<lparr>fl_bytes := put_at (fl_pos f) (take k data) (fl_bytes f), fl_pos := fl_pos f + k\<rparr>)"
  by (simp add: posix_write_def next_io_def reliable_def Let_def)

lemma posix_read_full:
  "reliable f \<Longrightarrow> fl_pos f + n \<le> length (fl_bytes f) \<Longrightarrow>
     posix_read f n = (Inr (take n (drop (fl_pos f) (fl_bytes f))), f\<lparr>fl_pos := fl_pos f + n\<rparr>)"
  by (simp add: posix_read_def next_io_def reliable_def Let_def)

end
