(* ===== verification/Output_File.thy ===== *)
theory Output_File
  imports Posix_File Crc "HOL-Library.Signed_Division"
begin

text \<open>
  The sparse image format (\<^verbatim>\<open>libsparse/sparse_format.h\<close>) and the writers of
  \<^verbatim>\<open>libsparse/output_file.c\<close>: the two kinds of chunk writers (sparse and plain) on top of three
  kinds of devices (a descriptor, a gzip stream, a callback).

  An \<open>output_file\<close> carries the state of its device as a type parameter, and the functions take the
  device operations (\<^verbatim>\<open>struct output_file_ops\<close>) as a record of functions; \<^verbatim>\<open>sparse_ops\<close>, which only
  ever is one of two tables, is a flag.  A buffer argument is the bytes of the buffer, a length
  argument of type \<^verbatim>\<open>int\<close> an integer in the range of \<^verbatim>\<open>int\<close>.  Every function returns the C return
  value and the new state, or a fault where the C code would divide by zero.  Allocation of the
  small structures and buffers is not modelled as failing here.
\<close>

section \<open>The format\<close>

abbreviation SPARSE_HEADER_MAGIC :: u32 where "SPARSE_HEADER_MAGIC \<equiv> 0xed26ff3a"
abbreviation CHUNK_TYPE_RAW :: u16 where "CHUNK_TYPE_RAW \<equiv> 0xCAC1"
abbreviation CHUNK_TYPE_FILL :: u16 where "CHUNK_TYPE_FILL \<equiv> 0xCAC2"
abbreviation CHUNK_TYPE_DONT_CARE :: u16 where "CHUNK_TYPE_DONT_CARE \<equiv> 0xCAC3"
abbreviation CHUNK_TYPE_CRC32 :: u16 where "CHUNK_TYPE_CRC32 \<equiv> 0xCAC4"

record sparse_header =
  sh_magic :: u32
  sh_major_version :: u16
  sh_minor_version :: u16
  sh_file_hdr_sz :: u16
  sh_chunk_hdr_sz :: u16
  sh_blk_sz :: u32
  sh_total_blks :: u32
  sh_total_chunks :: u32
  sh_image_checksum :: u32

record chunk_header =
  ch_chunk_type :: u16
  ch_reserved1 :: u16
  ch_chunk_sz :: u32
  ch_total_sz :: u32

text \<open>The memory image of the two structures on a little-endian machine, and the way back.\<close>

definition sparse_header_bytes :: "sparse_header \<Rightarrow> byte list" where
  "sparse_header_bytes h =
     u32_le (sh_magic h) @ u16_le (sh_major_version h) @ u16_le (sh_minor_version h)
     @ u16_le (sh_file_hdr_sz h) @ u16_le (sh_chunk_hdr_sz h) @ u32_le (sh_blk_sz h)
     @ u32_le (sh_total_blks h) @ u32_le (sh_total_chunks h) @ u32_le (sh_image_checksum h)"

definition sparse_header_of :: "byte list \<Rightarrow> sparse_header" where
  "sparse_header_of b = \<lparr>sh_magic = u32_of_le b, sh_major_version = u16_of_le (drop 4 b),
     sh_minor_version = u16_of_le (drop 6 b), sh_file_hdr_sz = u16_of_le (drop 8 b),
     sh_chunk_hdr_sz = u16_of_le (drop 10 b), sh_blk_sz = u32_of_le (drop 12 b),
     sh_total_blks = u32_of_le (drop 16 b), sh_total_chunks = u32_of_le (drop 20 b),
     sh_image_checksum = u32_of_le (drop 24 b)\<rparr>"

definition chunk_header_bytes :: "chunk_header \<Rightarrow> byte list" where
  "chunk_header_bytes c =
     u16_le (ch_chunk_type c) @ u16_le (ch_reserved1 c) @ u32_le (ch_chunk_sz c) @ u32_le (ch_total_sz c)"

definition chunk_header_of :: "byte list \<Rightarrow> chunk_header" where
  "chunk_header_of b = \<lparr>ch_chunk_type = u16_of_le b, ch_reserved1 = u16_of_le (drop 2 b),
     ch_chunk_sz = u32_of_le (drop 4 b), ch_total_sz = u32_of_le (drop 8 b)\<rparr>"

abbreviation SPARSE_HEADER_LEN :: nat where "SPARSE_HEADER_LEN \<equiv> 28"
abbreviation CHUNK_HEADER_LEN :: nat where "CHUNK_HEADER_LEN \<equiv> 12"

lemma sparse_header_codec [codec, simp]:
  "length (sparse_header_bytes h) = SPARSE_HEADER_LEN"
  "sparse_header_of (sparse_header_bytes h @ r) = h"
  by (simp_all add: sparse_header_bytes_def sparse_header_of_def)

lemma sparse_header_codec_all [simp]: "sparse_header_of (sparse_header_bytes h) = h"
  using sparse_header_codec(2) [of h "[]"] by simp

lemma chunk_header_codec [codec, simp]:
  "length (chunk_header_bytes c) = CHUNK_HEADER_LEN"
  "chunk_header_of (chunk_header_bytes c @ r) = c"
  by (simp_all add: chunk_header_bytes_def chunk_header_of_def)

lemma chunk_header_codec_all [simp]: "chunk_header_of (chunk_header_bytes c) = c"
  using chunk_header_codec(2) [of c "[]"] by simp

section \<open>Integer helpers\<close>

text \<open>Conversion of an unsigned length to \<^verbatim>\<open>int\<close>, as at every call of the device's write.\<close>

abbreviation to_int :: "u32 \<Rightarrow> int" where "to_int w \<equiv> sint w"

text \<open>\<^verbatim>\<open>DIV_ROUND_UP\<close> and \<^verbatim>\<open>ALIGN\<close> of \<^verbatim>\<open>sparse_defs.h\<close> at type \<^verbatim>\<open>unsigned int\<close>.\<close>

definition div_round_up :: "u32 \<Rightarrow> u32 \<Rightarrow> u32 res" where
  "div_round_up x y = (if y = 0 then Inl DivByZero else Inr ((x + y - 1) div y))"

definition align_up :: "u32 \<Rightarrow> u32 \<Rightarrow> u32 res" where
  "align_up x y = bindR (div_round_up x y) (\<lambda>q. Inr (y * q))"

section \<open>Devices\<close>

record 'd output_file_ops =
  op_skip :: "'d \<Rightarrow> int \<Rightarrow> int \<times> 'd"
  op_pad :: "'d \<Rightarrow> int \<Rightarrow> int \<times> 'd"
  op_write :: "'d \<Rightarrow> byte list \<Rightarrow> int \<Rightarrow> int \<times> 'd"

subsection \<open>A descriptor\<close>

definition file_skip :: "ofile \<Rightarrow> int \<Rightarrow> int \<times> ofile" where
  "file_skip f cnt = (case lseek_cur f cnt of (ret, f) \<Rightarrow> if ret < 0 then (- 1, f) else (0, f))"

definition file_pad :: "ofile \<Rightarrow> int \<Rightarrow> int \<times> ofile" where
  "file_pad f len = (case posix_ftruncate f len of (ret, f) \<Rightarrow> if ret < 0 then (ret, f) else (0, f))"

definition file_write :: "ofile \<Rightarrow> byte list \<Rightarrow> int \<Rightarrow> int \<times> ofile" where
  "file_write f data len = (case posix_write f data len of (ret, f) \<Rightarrow>
     if ret < 0 then (- 1, f) else if ret < len then (- 1, f) else (0, f))"

definition file_ops :: "ofile output_file_ops" where
  "file_ops = \<lparr>op_skip = file_skip, op_pad = file_pad, op_write = file_write\<rparr>"

subsection \<open>A gzip stream\<close>

text \<open>The functions of zlib the code calls are arguments: seek, tell and write on a stream \<open>'g\<close>.\<close>

record 'g gz_lib =
  gzseek_cur :: "'g \<Rightarrow> int \<Rightarrow> int \<times> 'g"
  gzseek_set :: "'g \<Rightarrow> int \<Rightarrow> int \<times> 'g"
  gztell :: "'g \<Rightarrow> int"
  gzwrite :: "'g \<Rightarrow> byte list \<Rightarrow> int \<Rightarrow> int \<times> 'g"

definition gz_file_skip :: "'g gz_lib \<Rightarrow> 'g \<Rightarrow> int \<Rightarrow> int \<times> 'g" where
  "gz_file_skip z g cnt = (case gzseek_cur z g cnt of (ret, g) \<Rightarrow> if ret < 0 then (- 1, g) else (0, g))"

definition gz_file_pad :: "'g gz_lib \<Rightarrow> 'g \<Rightarrow> int \<Rightarrow> int \<times> 'g" where
  "gz_file_pad z g len =
    (let ret = gztell z g in
     if ret < 0 then (- 1, g)
     else if ret \<ge> len then (0, g)
     else (case gzseek_set z g (len - 1) of (ret, g) \<Rightarrow>
       if ret < 0 then (- 1, g)
       else (case gzwrite z g [0] 1 of (_, g) \<Rightarrow> (0, g))))"

definition gz_file_write :: "'g gz_lib \<Rightarrow> 'g \<Rightarrow> byte list \<Rightarrow> int \<Rightarrow> int \<times> 'g" where
  "gz_file_write z g data len = (case gzwrite z g data len of (ret, g) \<Rightarrow>
     if ret < 0 then (- 1, g) else if ret < len then (- 1, g) else (0, g))"

definition gz_file_ops :: "'g gz_lib \<Rightarrow> 'g output_file_ops" where
  "gz_file_ops z = \<lparr>op_skip = gz_file_skip z, op_pad = gz_file_pad z, op_write = gz_file_write z\<rparr>"

subsection \<open>A callback\<close>

text \<open>
  The callback is an argument: it takes its private state, a buffer or \<^verbatim>\<open>NULL\<close>, and a length, and
  returns its result and the new private state.
\<close>

type_synonym 'p callback = "'p \<Rightarrow> byte list option \<Rightarrow> int \<Rightarrow> int \<times> 'p"

abbreviation INT_MAX :: int where "INT_MAX \<equiv> 2147483647"

function callback_file_skip :: "'p callback \<Rightarrow> 'p \<Rightarrow> int \<Rightarrow> int \<times> 'p" where
  "callback_file_skip write p off =
    (if off > 0 then
       let to_write = min off INT_MAX in
       (case write p None to_write of (ret, p) \<Rightarrow>
         if ret < 0 then (ret, p) else callback_file_skip write p (off - to_write))
     else (0, p))"
  by pat_completeness auto
termination by (relation "measure (\<lambda>(write, p, off). nat off)") (auto simp: min_def)

declare callback_file_skip.simps [simp del]

definition callback_file_pad :: "'p \<Rightarrow> int \<Rightarrow> int \<times> 'p" where
  "callback_file_pad p len = (- 1, p)"

definition callback_file_write :: "'p callback \<Rightarrow> 'p \<Rightarrow> byte list \<Rightarrow> int \<Rightarrow> int \<times> 'p" where
  "callback_file_write write p data len = write p (Some data) len"

definition callback_file_ops :: "'p callback \<Rightarrow> 'p output_file_ops" where
  "callback_file_ops write =
     \<lparr>op_skip = callback_file_skip write, op_pad = callback_file_pad, op_write = callback_file_write write\<rparr>"

section \<open>Reading in full\<close>

text \<open>
  \<^verbatim>\<open>read_all\<close>: reads until \<open>len\<close> bytes have arrived; a read of no bytes is an error.  The bytes of
  the buffer are the result.
\<close>

function read_all :: "ofile \<Rightarrow> nat \<Rightarrow> (int + byte list) \<times> ofile" where
  "read_all f len =
    (if 0 < len then
       (case posix_read f len of
          (Inl e, f) \<Rightarrow> (Inl e, f)
        | (Inr d, f) \<Rightarrow>
            if d = [] then (Inl (- 22), f)
            else (case read_all f (len - length d) of (r, f) \<Rightarrow> (map_sum id ((@) d) r, f)))
     else (Inr [], f))"
  by pat_completeness auto
termination by (relation "measure (\<lambda>(f, len). len)") auto

declare read_all.simps [simp del]

section \<open>The output file\<close>

record 'd output_file =
  of_dev :: 'd
  cur_out_ptr :: int
  chunk_cnt :: u32
  of_crc32 :: u32
  of_sparse :: bool
  use_crc :: bool
  of_block_size :: u32
  of_len :: int
  zero_buf :: "byte list"
  fill_buf :: "byte list"

text \<open>\<^verbatim>\<open>out->ops->write(out, data, len)\<close>\<close>

definition dev_write :: "'d output_file_ops \<Rightarrow> 'd output_file \<Rightarrow> byte list \<Rightarrow> int \<Rightarrow> int \<times> 'd output_file" where
  "dev_write ops out data len = (case op_write ops (of_dev out) data len of (ret, d) \<Rightarrow> (ret, out\<lparr>of_dev := d\<rparr>))"

definition dev_skip :: "'d output_file_ops \<Rightarrow> 'd output_file \<Rightarrow> int \<Rightarrow> int \<times> 'd output_file" where
  "dev_skip ops out len = (case op_skip ops (of_dev out) len of (ret, d) \<Rightarrow> (ret, out\<lparr>of_dev := d\<rparr>))"

definition dev_pad :: "'d output_file_ops \<Rightarrow> 'd output_file \<Rightarrow> int \<Rightarrow> int \<times> 'd output_file" where
  "dev_pad ops out len = (case op_pad ops (of_dev out) len of (ret, d) \<Rightarrow> (ret, out\<lparr>of_dev := d\<rparr>))"

section \<open>Sparse chunks\<close>

definition chunk_hdr :: "u16 \<Rightarrow> u32 \<Rightarrow> u32 \<Rightarrow> byte list" where
  "chunk_hdr ty sz tot =
     chunk_header_bytes \<lparr>ch_chunk_type = ty, ch_reserved1 = 0, ch_chunk_sz = sz, ch_total_sz = tot\<rparr>"

definition write_sparse_skip_chunk ::
  "'d output_file_ops \<Rightarrow> 'd output_file \<Rightarrow> int \<Rightarrow> (int \<times> 'd output_file) res" where
  "write_sparse_skip_chunk ops out skip_len =
    bindR (assertR (of_block_size out \<noteq> 0) DivByZero) (\<lambda>_.
    if skip_len smod uint (of_block_size out) \<noteq> 0 then Inr (- 1, out)
    else
      (case dev_write ops out (chunk_hdr CHUNK_TYPE_DONT_CARE
               (word_of_int (skip_len sdiv uint (of_block_size out))) 12) 12 of (ret, out) \<Rightarrow>
        if ret < 0 then Inr (- 1, out)
        else Inr (0, out\<lparr>cur_out_ptr := cur_out_ptr out + skip_len, chunk_cnt := chunk_cnt out + 1\<rparr>)))"

definition write_sparse_fill_chunk ::
  "'d output_file_ops \<Rightarrow> 'd output_file \<Rightarrow> u32 \<Rightarrow> u32 \<Rightarrow> (int \<times> 'd output_file) res" where
  "write_sparse_fill_chunk ops out len fill_val =
    bindR (align_up len (of_block_size out)) (\<lambda>rnd_up_len.
    case dev_write ops out (chunk_hdr CHUNK_TYPE_FILL (rnd_up_len div of_block_size out) (12 + 4)) 12 of
      (ret, out) \<Rightarrow>
        if ret < 0 then Inr (- 1, out)
        else (case dev_write ops out (u32_le fill_val) 4 of (ret, out) \<Rightarrow>
          if ret < 0 then Inr (- 1, out)
          else
            (let out = (if use_crc out
                   then out\<lparr>of_crc32 := ((\<lambda>c. sparse_crc32 c (u32_le fill_val))
                              ^^ (unat (of_block_size out) div 4)) (of_crc32 out)\<rparr>
                   else out)
             in Inr (0, out\<lparr>cur_out_ptr := cur_out_ptr out + to_int rnd_up_len,
                            chunk_cnt := chunk_cnt out + 1\<rparr>))))"

definition write_sparse_data_chunk ::
  "'d output_file_ops \<Rightarrow> 'd output_file \<Rightarrow> u32 \<Rightarrow> byte list \<Rightarrow> (int \<times> 'd output_file) res" where
  "write_sparse_data_chunk ops out len data =
    bindR (align_up len (of_block_size out)) (\<lambda>rnd_up_len.
    let zero_len = rnd_up_len - len in
    case dev_write ops out (chunk_hdr CHUNK_TYPE_RAW (rnd_up_len div of_block_size out) (12 + rnd_up_len)) 12 of
      (ret, out) \<Rightarrow>
        if ret < 0 then Inr (- 1, out)
        else (case dev_write ops out data (to_int len) of (ret, out) \<Rightarrow>
          if ret < 0 then Inr (- 1, out)
          else (case (if zero_len \<noteq> 0 then dev_write ops out (zero_buf out) (to_int zero_len) else (0, out)) of
            (ret, out) \<Rightarrow>
              if ret < 0 then Inr (- 1, out)
              else
                (let out = (if use_crc out
                       then (let c = sparse_crc32 (of_crc32 out) data in
                             out\<lparr>of_crc32 := (if zero_len \<noteq> 0
                               then sparse_crc32 c (take (unat zero_len) (zero_buf out)) else c)\<rparr>)
                       else out)
                 in Inr (0, out\<lparr>cur_out_ptr := cur_out_ptr out + to_int rnd_up_len,
                                chunk_cnt := chunk_cnt out + 1\<rparr>)))))"

text \<open>The result of the second write is not looked at: \<^verbatim>\<open>ret\<close> still holds that of the first.\<close>

definition write_sparse_end_chunk :: "'d output_file_ops \<Rightarrow> 'd output_file \<Rightarrow> int \<times> 'd output_file" where
  "write_sparse_end_chunk ops out =
    (if use_crc out then
       (case dev_write ops out (chunk_hdr CHUNK_TYPE_CRC32 0 (12 + 4)) 12 of (ret, out) \<Rightarrow>
          if ret < 0 then (ret, out)
          else (case dev_write ops out (u32_le (of_crc32 out)) 4 of (_, out) \<Rightarrow>
            (0, out\<lparr>chunk_cnt := chunk_cnt out + 1\<rparr>)))
     else (0, out))"

section \<open>Plain chunks\<close>

definition write_normal_data_chunk ::
  "'d output_file_ops \<Rightarrow> 'd output_file \<Rightarrow> u32 \<Rightarrow> byte list \<Rightarrow> (int \<times> 'd output_file) res" where
  "write_normal_data_chunk ops out len data =
    bindR (align_up len (of_block_size out)) (\<lambda>rnd_up_len.
    case dev_write ops out data (to_int len) of (ret, out) \<Rightarrow>
      if ret < 0 then Inr (ret, out)
      else if rnd_up_len > len then Inr (dev_skip ops out (uint (rnd_up_len - len)))
      else Inr (ret, out))"

text \<open>The loop that writes the fill buffer; with a block size of 0 it does not end.\<close>

function normal_fill_loop ::
  "'d output_file_ops \<Rightarrow> 'd output_file \<Rightarrow> u32 \<Rightarrow> (int \<times> 'd output_file) res" where
  "normal_fill_loop ops out len =
    (if len = 0 then Inr (0, out)
     else if of_block_size out = 0 then Inl Diverges
     else
       let write_len = min len (of_block_size out) in
       (case op_write ops (of_dev out) (fill_buf out) (to_int write_len) of (ret, d) \<Rightarrow>
          if ret < 0 then Inr (ret, out\<lparr>of_dev := d\<rparr>)
          else normal_fill_loop ops (out\<lparr>of_dev := d\<rparr>) (len - write_len)))"
  by pat_completeness auto
termination
proof (relation "measure (\<lambda>(ops, out, len). unat len)", goal_cases)
  case (2 ops out len x xa y)
  then have "0 < unat x" "x \<le> len"
    by (auto simp: min_def unat_gt_0 split: if_splits)
  then show ?case by (simp add: unat_sub word_le_nat_alt)
qed simp

declare normal_fill_loop.simps [simp del]

definition write_normal_fill_chunk ::
  "'d output_file_ops \<Rightarrow> 'd output_file \<Rightarrow> u32 \<Rightarrow> u32 \<Rightarrow> (int \<times> 'd output_file) res" where
  "write_normal_fill_chunk ops out len fill_val =
    (let words = unat (of_block_size out) div 4 in
     normal_fill_loop ops
       (out\<lparr>fill_buf := concat (replicate words (u32_le fill_val)) @ drop (4 * words) (fill_buf out)\<rparr>) len)"

definition write_normal_skip_chunk :: "'d output_file_ops \<Rightarrow> 'd output_file \<Rightarrow> int \<Rightarrow> int \<times> 'd output_file" where
  "write_normal_skip_chunk ops out len = dev_skip ops out len"

definition write_normal_end_chunk :: "'d output_file_ops \<Rightarrow> 'd output_file \<Rightarrow> int \<times> 'd output_file" where
  "write_normal_end_chunk ops out = dev_pad ops out (of_len out)"

section \<open>Opening, closing, dispatch\<close>

text \<open>\<^verbatim>\<open>output_file_close\<close> discards the result of the end chunk; what remains is the device.\<close>

definition output_file_close :: "'d output_file_ops \<Rightarrow> 'd output_file \<Rightarrow> 'd" where
  "output_file_close ops out =
     of_dev (snd (if of_sparse out then write_sparse_end_chunk ops out else write_normal_end_chunk ops out))"

definition output_file_init ::
  "'d output_file_ops \<Rightarrow> 'd \<Rightarrow> u32 \<Rightarrow> int \<Rightarrow> bool \<Rightarrow> u32 \<Rightarrow> bool \<Rightarrow> (int \<times> 'd output_file) res" where
  "output_file_init ops dev block_size len sparse chunks crc =
    (let out = \<lparr>of_dev = dev, cur_out_ptr = 0, chunk_cnt = 0, of_crc32 = 0, of_sparse = sparse, use_crc = crc,
           of_block_size = block_size, of_len = len, zero_buf = replicate (unat block_size) 0,
           fill_buf = replicate (unat block_size) 0\<rparr> in
     if sparse then
       bindR (assertR (block_size \<noteq> 0) DivByZero) (\<lambda>_.
         case dev_write ops out (sparse_header_bytes
           \<lparr>sh_magic = SPARSE_HEADER_MAGIC, sh_major_version = 1, sh_minor_version = 0,
             sh_file_hdr_sz = 28, sh_chunk_hdr_sz = 12, sh_blk_sz = block_size,
             sh_total_blks = word_of_int (len sdiv uint block_size),
             sh_total_chunks = (if crc then chunks + 1 else chunks), sh_image_checksum = 0\<rparr>) 28 of
         (ret, out) \<Rightarrow> if ret < 0 then Inr (ret, out) else Inr (0, out))
     else Inr (0, out))"

text \<open>
  \<^verbatim>\<open>output_file_open_fd\<close> and \<^verbatim>\<open>output_file_open_callback\<close>: no output file when the header cannot be
  written; the device has then still been written to.
\<close>

definition output_file_open_fd ::
  "'d output_file_ops \<Rightarrow> 'd \<Rightarrow> u32 \<Rightarrow> int \<Rightarrow> bool \<Rightarrow> u32 \<Rightarrow> bool \<Rightarrow> ('d output_file option \<times> 'd) res" where
  "output_file_open_fd ops dev block_size len sparse chunks crc =
     bindR (output_file_init ops dev block_size len sparse chunks crc) (\<lambda>(ret, out).
       Inr (if ret < 0 then None else Some out, of_dev out))"

definition output_file_open_callback ::
  "'p callback \<Rightarrow> 'p \<Rightarrow> u32 \<Rightarrow> int \<Rightarrow> bool \<Rightarrow> u32 \<Rightarrow> bool \<Rightarrow> ('p output_file option \<times> 'p) res" where
  "output_file_open_callback write priv block_size len sparse chunks crc =
     bindR (output_file_init (callback_file_ops write) priv block_size len sparse chunks crc) (\<lambda>(ret, out).
       Inr (if ret < 0 then None else Some out, of_dev out))"

definition write_data_chunk ::
  "'d output_file_ops \<Rightarrow> 'd output_file \<Rightarrow> u32 \<Rightarrow> byte list \<Rightarrow> (int \<times> 'd output_file) res" where
  "write_data_chunk ops out len data =
    (if of_sparse out then write_sparse_data_chunk ops out len data else write_normal_data_chunk ops out len data)"

definition write_fill_chunk ::
  "'d output_file_ops \<Rightarrow> 'd output_file \<Rightarrow> u32 \<Rightarrow> u32 \<Rightarrow> (int \<times> 'd output_file) res" where
  "write_fill_chunk ops out len fill_val =
    (if of_sparse out then write_sparse_fill_chunk ops out len fill_val
     else write_normal_fill_chunk ops out len fill_val)"

definition write_skip_chunk :: "'d output_file_ops \<Rightarrow> 'd output_file \<Rightarrow> int \<Rightarrow> (int \<times> 'd output_file) res" where
  "write_skip_chunk ops out len =
    (if of_sparse out then write_sparse_skip_chunk ops out len else Inr (write_normal_skip_chunk ops out len))"

text \<open>
  The memory and the files a chunk may be read from: buffers have their bytes, opening a name gives a descriptor or a negative error, mapping
  a range of a descriptor gives an error number or 0, and a mapped descriptor has its bytes.
\<close>

record world =
  w_buf :: "nat \<Rightarrow> nat \<Rightarrow> byte"
  w_open :: "string \<Rightarrow> int"
  w_mmap :: "int \<Rightarrow> int \<Rightarrow> int \<Rightarrow> nat"
  w_fd :: "int \<Rightarrow> int \<Rightarrow> byte"

definition write_fd_chunk ::
  "world \<Rightarrow> 'd output_file_ops \<Rightarrow> 'd output_file \<Rightarrow> u32 \<Rightarrow> int \<Rightarrow> int \<Rightarrow> (int \<times> 'd output_file) res" where
  "write_fd_chunk w ops out len fd offset =
    (let aligned_offset = offset - offset mod 4096;
         aligned_diff = offset - aligned_offset;
         buffer_size = to_int (len + word_of_int aligned_diff) in
     if w_mmap w fd aligned_offset buffer_size \<noteq> 0
     then Inr (- int (w_mmap w fd aligned_offset buffer_size), out)
     else write_data_chunk ops out len
            (map (\<lambda>k. w_fd w fd (aligned_offset + (aligned_diff + int k))) [0..<unat len]))"

definition write_file_chunk ::
  "world \<Rightarrow> 'd output_file_ops \<Rightarrow> 'd output_file \<Rightarrow> u32 \<Rightarrow> string \<Rightarrow> int \<Rightarrow> (int \<times> 'd output_file) res" where
  "write_file_chunk w ops out len fname offset =
    (if w_open w fname < 0 then Inr (w_open w fname, out)
     else write_fd_chunk w ops out len (w_open w fname) offset)"

section \<open>Rounding\<close>

definition cdiv :: "nat \<Rightarrow> nat \<Rightarrow> nat" where
  "cdiv n b = (n + b - 1) div b"

lemma cdiv_bounds:
  assumes "0 < b"
  shows "n \<le> b * cdiv n b" and "b * cdiv n b < n + b"
proof -
  have "(n + b - 1) mod b < b" using assms by simp
  then show "n \<le> b * cdiv n b" "b * cdiv n b < n + b"
    using assms mult_div_mod_eq [of b "n + b - 1"] unfolding cdiv_def by linarith+
qed

lemma cdiv_mult [simp]: "0 < b \<Longrightarrow> cdiv (b * k) b = k"
  unfolding cdiv_def by (rule div_nat_eqI) (simp_all add: algebra_simps)

lemma div_round_up_nat:
  assumes "y \<noteq> 0" and "unat x + unat y \<le> 4294967296"
  shows "\<exists>q. div_round_up x y = Inr q \<and> unat q = cdiv (unat x) (unat y)"
proof -
  have y: "0 < unat y" using assms(1) by (simp add: unat_gt_0)
  then have "unat (y - 1) = unat y - 1" by (simp add: unat_sub word_le_nat_alt)
  then have "unat (x + (y - 1)) = unat x + unat y - 1"
    using y assms(2) by (subst unat_add_u32) auto
  then have "unat ((x + y - 1) div y) = cdiv (unat x) (unat y)"
    by (simp add: unat_div cdiv_def add_diff_eq)
  then show ?thesis using assms(1) by (simp add: div_round_up_def)
qed

lemma align_up_nat:
  assumes y: "y \<noteq> 0" and fit: "unat x + unat y \<le> 4294967296"
  shows "\<exists>r. align_up x y = Inr r \<and> unat r = unat y * cdiv (unat x) (unat y)
    \<and> unat (r div y) = cdiv (unat x) (unat y) \<and> unat (r - x) = unat r - unat x \<and> x \<le> r"
proof -
  obtain q where q: "div_round_up x y = Inr q" "unat q = cdiv (unat x) (unat y)"
    using div_round_up_nat [OF assms] by auto
  have y0: "0 < unat y" using y by (simp add: unat_gt_0)
  note b = cdiv_bounds [OF y0, of "unat x"]
  have "unat (y * q) = unat y * unat q"
    using b(2) fit q(2) by (intro unat_mult_u32) simp
  then have m: "unat (y * q) = unat y * cdiv (unat x) (unat y)" using q(2) by simp
  then have le: "x \<le> y * q" using b(1) by (simp add: word_le_nat_alt)
  have "unat (y * q div y) = cdiv (unat x) (unat y)"
    unfolding unat_div m using y0 by simp
  with m le unat_sub [OF le] show ?thesis
    unfolding align_up_def q(1) bindR_simps by blast
qed

lemma nonneg_sdiv:
  "0 \<le> a \<Longrightarrow> 0 \<le> b \<Longrightarrow> a sdiv b = a div b" "0 \<le> a \<Longrightarrow> 0 \<le> b \<Longrightarrow> a smod b = a mod b" for a b :: int
  by (cases "a = 0"; cases "b = 0"; simp add: signed_divide_int_def signed_modulo_int_def sgn_if
      minus_mult_div_eq_mod)+

section \<open>What a device promises\<close>

text \<open>
  A sink is a device that takes in bytes: as long as it is in good state, a write of the first \<open>k\<close>
  bytes of a buffer succeeds and appends them.  \<open>absorb\<close> is the effect of appending bytes on the
  state of the device.
\<close>

locale sink =
  fixes ops :: "'d output_file_ops" and good :: "'d \<Rightarrow> bool" and absorb :: "'d \<Rightarrow> byte list \<Rightarrow> 'd"
  assumes write_ok: "good d \<Longrightarrow> k \<le> length data \<Longrightarrow> op_write ops d data (int k) = (0, absorb d (take k data))"
    and good_absorb: "good d \<Longrightarrow> good (absorb d bs)"
    and absorb_Nil: "good d \<Longrightarrow> absorb d [] = d"
    and absorb_append: "good d \<Longrightarrow> absorb d (xs @ ys) = absorb (absorb d xs) ys"

text \<open>The encodings of the chunks as they stand in a sparse image.\<close>

definition enc_skip :: "u32 \<Rightarrow> byte list" where
  "enc_skip n = chunk_hdr CHUNK_TYPE_DONT_CARE n 12"

definition enc_fill :: "u32 \<Rightarrow> u32 \<Rightarrow> byte list" where
  "enc_fill n v = chunk_hdr CHUNK_TYPE_FILL n 16 @ u32_le v"

definition enc_raw :: "u32 \<Rightarrow> byte list \<Rightarrow> byte list" where
  "enc_raw bs data =
    (let n = cdiv (length data) (unat bs) in
     chunk_hdr CHUNK_TYPE_RAW (word_of_nat n) (word_of_nat (12 + unat bs * n)) @ data
       @ replicate (unat bs * n - length data) 0)"

definition enc_crc :: "u32 \<Rightarrow> byte list" where
  "enc_crc c = chunk_hdr CHUNK_TYPE_CRC32 0 16 @ u32_le c"

definition sparse_hdr :: "u32 \<Rightarrow> int \<Rightarrow> u32 \<Rightarrow> byte list" where
  "sparse_hdr block_size sz chunks = sparse_header_bytes
     \<lparr>sh_magic = SPARSE_HEADER_MAGIC, sh_major_version = 1, sh_minor_version = 0, sh_file_hdr_sz = 28,
       sh_chunk_hdr_sz = 12, sh_blk_sz = block_size, sh_total_blks = word_of_int (sz sdiv uint block_size),
       sh_total_chunks = chunks, sh_image_checksum = 0\<rparr>"

lemma length_chunk_hdr [simp]: "length (chunk_hdr t n k) = 12"
  by (simp add: chunk_hdr_def)

lemma length_enc [simp]:
  "length (enc_skip n) = 12" "length (enc_fill n v) = 16" "length (enc_crc c) = 16"
  by (simp_all add: enc_skip_def enc_fill_def enc_crc_def)

lemma length_enc_raw: "bs \<noteq> 0 \<Longrightarrow> length (enc_raw bs data) = 12 + unat bs * cdiv (length data) (unat bs)"
  using cdiv_bounds(1) [of "unat bs" "length data"] by (simp add: enc_raw_def Let_def unat_gt_0)

text \<open>The checksum a writer keeps, after a raw chunk and after a fill chunk.\<close>

definition raw_crc :: "u32 \<Rightarrow> byte list \<Rightarrow> u32 \<Rightarrow> u32" where
  "raw_crc bs data c =
     sparse_crc32 c (data @ replicate (unat bs * cdiv (length data) (unat bs) - length data) 0)"

definition fill_crc :: "u32 \<Rightarrow> u32 \<Rightarrow> u32 \<Rightarrow> u32" where
  "fill_crc bs v c = sparse_crc32 c (concat (replicate (unat bs div 4) (u32_le v)))"

lemma crc_funpow: "((\<lambda>c. sparse_crc32 c d) ^^ n) c = sparse_crc32 c (concat (replicate n d))"
proof (induction n arbitrary: c)
  case (Suc n)
  then show ?case by (simp del: funpow.simps add: funpow_Suc_right sparse_crc32_append)
qed simp

context sink
begin

lemma dev_write_ok:
  "good (of_dev out) \<Longrightarrow> k \<le> length data \<Longrightarrow>
     dev_write ops out data (int k) = (0, out\<lparr>of_dev := absorb (of_dev out) (take k data)\<rparr>)"
  by (simp add: dev_write_def write_ok)

lemma dev_write_all:
  "good (of_dev out) \<Longrightarrow> n = int (length data) \<Longrightarrow>
     dev_write ops out data n = (0, out\<lparr>of_dev := absorb (of_dev out) data\<rparr>)"
  using dev_write_ok [of out "length data" data] by simp

lemma write_sparse_skip_chunk_ok:
  assumes "good (of_dev out)" and "of_block_size out \<noteq> 0"
  shows "write_sparse_skip_chunk ops out (int n * uint (of_block_size out)) =
    Inr (0, out\<lparr>of_dev := absorb (of_dev out) (enc_skip (word_of_nat n)),
      cur_out_ptr := cur_out_ptr out + int n * uint (of_block_size out), chunk_cnt := chunk_cnt out + 1\<rparr>)"
proof -
  have "uint (of_block_size out) \<noteq> 0" using assms(2) by (simp add: uint_0_iff)
  then show ?thesis
    using assms by (simp add: write_sparse_skip_chunk_def dev_write_all enc_skip_def nonneg_sdiv)
qed

lemma write_sparse_fill_chunk_ok:
  assumes "good (of_dev out)" and "of_block_size out \<noteq> 0"
    and "unat sz + unat (of_block_size out) \<le> 4294967296"
  shows "\<exists>ptr. write_sparse_fill_chunk ops out sz v =
    Inr (0, out\<lparr>of_dev := absorb (of_dev out) (enc_fill (word_of_nat (cdiv (unat sz) (unat (of_block_size out)))) v),
      cur_out_ptr := ptr, chunk_cnt := chunk_cnt out + 1,
      of_crc32 := if use_crc out then fill_crc (of_block_size out) v (of_crc32 out) else of_crc32 out\<rparr>)"
proof -
  obtain r where r: "align_up sz (of_block_size out) = Inr r"
      "unat (r div of_block_size out) = cdiv (unat sz) (unat (of_block_size out))"
    using align_up_nat [OF assms(2,3)] by auto
  then have "r div of_block_size out = word_of_nat (cdiv (unat sz) (unat (of_block_size out)))"
    by (intro word_of_nat_eqI)
  with assms r(1) show ?thesis
    by (intro exI [of _ "cur_out_ptr out + to_int r"], cases out)
       (simp add: write_sparse_fill_chunk_def dev_write_all good_absorb Let_def
        absorb_append enc_fill_def fill_crc_def crc_funpow)
qed

lemma write_sparse_data_chunk_ok:
  assumes good: "good (of_dev out)" and bs: "of_block_size out \<noteq> 0"
    and fit: "unat sz + unat (of_block_size out) \<le> 2147483648" and data: "length data = unat sz"
    and zero: "zero_buf out = replicate (unat (of_block_size out)) 0"
  shows "\<exists>ptr. write_sparse_data_chunk ops out sz data =
    Inr (0, out\<lparr>of_dev := absorb (of_dev out) (enc_raw (of_block_size out) data),
      cur_out_ptr := ptr, chunk_cnt := chunk_cnt out + 1,
      of_crc32 := if use_crc out then raw_crc (of_block_size out) data (of_crc32 out) else of_crc32 out\<rparr>)"
proof -
  let ?b = "of_block_size out" let ?n = "cdiv (unat sz) (unat ?b)"
  obtain r where r: "align_up sz ?b = Inr r" "unat r = unat ?b * ?n"
      "unat (r div ?b) = ?n" "unat (r - sz) = unat r - unat sz" "sz \<le> r"
    using align_up_nat [OF bs, of sz] fit by auto
  have b: "0 < unat ?b" using bs by (simp add: unat_gt_0)
  note bd = cdiv_bounds [OF b, of "unat sz"]
  have q: "r div ?b = word_of_nat ?n" using r(3) by (rule word_of_nat_eqI)
  have "unat (12 + r) = 12 + unat ?b * ?n"
    using r(2) bd(2) fit by (subst unat_add_u32) simp_all
  then have tot: "12 + r = word_of_nat (12 + unat ?b * ?n)" by (rule word_of_nat_eqI)
  have z: "to_int (r - sz) = int (unat ?b * ?n - unat sz)" "unat ?b * ?n - unat sz \<le> unat ?b"
    using r(2,4) bd fit by (simp_all add: sint_small_u32)
  have zz: "r - sz = 0 \<longleftrightarrow> unat ?b * ?n - unat sz = 0" using r(2,4) by (metis unat_eq_zero)
  have s: "to_int sz = int (length data)" using fit data b by (simp add: sint_small_u32)
  let ?H = "chunk_hdr CHUNK_TYPE_RAW (r div ?b) (12 + r)" and ?Z = "replicate (unat ?b * ?n - unat sz) (0 :: byte)"
  define o1 where "o1 = out\<lparr>of_dev := absorb (of_dev out) ?H\<rparr>"
  define o2 where "o2 = out\<lparr>of_dev := absorb (of_dev out) (?H @ data)\<rparr>"
  define o3 where "o3 = out\<lparr>of_dev := absorb (of_dev out) (?H @ data @ ?Z)\<rparr>"
  have w1: "dev_write ops out ?H 12 = (0, o1)"
    using good by (simp add: dev_write_all o1_def)
  have w2: "dev_write ops o1 data (to_int sz) = (0, o2)"
    using dev_write_all [of o1 _ data] s good by (simp add: o1_def o2_def good_absorb absorb_append)
  have w3: "(if r - sz \<noteq> 0 then dev_write ops o2 (zero_buf o2) (to_int (r - sz)) else (0, o2)) = (0, o3)"
    using dev_write_ok [of o2 "unat ?b * ?n - unat sz" "zero_buf o2"] zz z good zero
    by (auto simp: o2_def o3_def good_absorb absorb_append absorb_Nil min_absorb1)
  have enc: "enc_raw ?b data = ?H @ data @ ?Z"
    using data by (simp add: enc_raw_def Let_def q tot)
  have crc: "(if use_crc o3 then (let c = sparse_crc32 (of_crc32 o3) data in
        o3\<lparr>of_crc32 := (if r - sz \<noteq> 0 then sparse_crc32 c (take (unat (r - sz)) (zero_buf o3)) else c)\<rparr>) else o3)
      = o3\<lparr>of_crc32 := if use_crc out then raw_crc ?b data (of_crc32 out) else of_crc32 out\<rparr>"
    using zz data zero z(2) r(2,4) by (auto simp: o3_def raw_crc_def sparse_crc32_append min_absorb1)
  show ?thesis
    using r(1) w1 w2 w3 enc crc unfolding write_sparse_data_chunk_def Let_def
    by (intro exI [of _ "cur_out_ptr out + to_int r"]) (simp, simp add: o3_def)
qed

lemma write_sparse_end_chunk_ok:
  "good (of_dev out) \<Longrightarrow> of_sparse out \<Longrightarrow>
     output_file_close ops out = absorb (of_dev out) (if use_crc out then enc_crc (of_crc32 out) else [])"
  by (simp add: output_file_close_def write_sparse_end_chunk_def dev_write_all good_absorb
      absorb_append enc_crc_def absorb_Nil)

lemma output_file_init_ok:
  assumes "good dev" and "block_size \<noteq> 0"
  shows "output_file_init ops dev block_size sz True chunks crc = Inr (0,
    \<lparr>of_dev = absorb dev (sparse_hdr block_size sz (if crc then chunks + 1 else chunks)), cur_out_ptr = 0, chunk_cnt = 0,
      of_crc32 = 0, of_sparse = True, use_crc = crc, of_block_size = block_size, of_len = sz,
      zero_buf = replicate (unat block_size) 0, fill_buf = replicate (unat block_size) 0\<rparr>)"
  using assms by (simp add: output_file_init_def dev_write_all sparse_hdr_def)

end

text \<open>
  A device for plain images can in addition be moved forward: \<open>forward d k\<close> is its state after
  skipping \<open>k\<close> bytes.
\<close>

locale plain_sink = sink +
  fixes forward :: "'d \<Rightarrow> nat \<Rightarrow> 'd"
  assumes skip_ok: "good d \<Longrightarrow> op_skip ops d (int k) = (0, forward d k)"
    and good_forward: "good d \<Longrightarrow> good (forward d k)"

definition fill_bytes :: "u32 \<Rightarrow> nat \<Rightarrow> byte list" where
  "fill_bytes v n = map (\<lambda>k. u32_le v ! (k mod 4)) [0..<n]"

lemma length_fill_bytes [simp]: "length (fill_bytes v n) = n"
  by (simp add: fill_bytes_def)

lemma fill_bytes_add: "4 dvd m \<Longrightarrow> fill_bytes v (m + n) = fill_bytes v m @ fill_bytes v n"
proof (rule nth_equalityI)
  assume m: "4 dvd m"
  fix i assume "i < length (fill_bytes v (m + n))"
  moreover have "i mod 4 = (i - m) mod 4" if "m \<le> i"
    using m that mod_eq_dvd_iff_nat [of "i - m" i 4] by simp
  ultimately show "fill_bytes v (m + n) ! i = (fill_bytes v m @ fill_bytes v n) ! i"
    by (auto simp: fill_bytes_def nth_append)
qed simp

lemma take_fill_bytes: "k \<le> n \<Longrightarrow> take k (fill_bytes v n) = fill_bytes v k"
  by (simp add: fill_bytes_def take_map)

lemma concat_fill_bytes: "concat (replicate n (u32_le v)) = fill_bytes v (4 * n)"
proof (induction n)
  case (Suc n)
  have "fill_bytes v 4 = u32_le v"
    by (rule nth_equalityI) (auto simp: fill_bytes_def)
  then show ?case using Suc fill_bytes_add [of 4 v "4 * n"] by simp
qed (simp add: fill_bytes_def)

context plain_sink
begin

lemma normal_fill_loop_ok:
  assumes "good (of_dev out)" and "of_block_size out \<noteq> 0" and "4 dvd unat (of_block_size out)"
    and "unat (of_block_size out) < 2147483648" and "fill_buf out = fill_bytes v (unat (of_block_size out))"
  shows "normal_fill_loop ops out sz = Inr (0, out\<lparr>of_dev := absorb (of_dev out) (fill_bytes v (unat sz))\<rparr>)"
  using assms
proof (induction ops\<equiv>ops out sz rule: normal_fill_loop.induct)
  case (1 out sz)
  show ?case
  proof (cases "sz = 0")
    case True
    then show ?thesis using 1(2) by (simp add: normal_fill_loop.simps absorb_Nil fill_bytes_def)
  next
    case False
    let ?w = "min sz (of_block_size out)"
    have w: "unat ?w \<le> unat (of_block_size out)" "unat (sz - ?w) = unat sz - unat ?w" "unat ?w \<le> unat sz"
      by (auto simp: min_def unat_sub word_le_nat_alt)
    have i: "to_int ?w = int (unat ?w)" using w(1) 1(5) by (intro sint_small_u32) simp
    have wr: "op_write ops (of_dev out) (fill_buf out) (to_int ?w) = (0, absorb (of_dev out) (fill_bytes v (unat ?w)))"
      unfolding i using 1(2,6) w(1) by (subst write_ok) (simp_all add: take_fill_bytes)
    let ?out = "out\<lparr>of_dev := absorb (of_dev out) (fill_bytes v (unat ?w))\<rparr>"
    have "normal_fill_loop ops ?out (sz - ?w)
        = Inr (0, ?out\<lparr>of_dev := absorb (of_dev ?out) (fill_bytes v (unat (sz - ?w)))\<rparr>)"
      using 1 False wr by (intro 1(1) [OF False 1(3) refl wr [symmetric]]) (simp_all add: good_absorb)
    moreover have "absorb (of_dev ?out) (fill_bytes v (unat (sz - ?w))) = absorb (of_dev out) (fill_bytes v (unat sz))"
    proof (cases "sz \<le> of_block_size out")
      case True
      then show ?thesis using 1(2) by (simp add: min_def good_absorb absorb_Nil fill_bytes_def)
    next
      case f: False
      then have "?w = of_block_size out" by simp
      then show ?thesis
        using fill_bytes_add [OF 1(4), of v "unat sz - unat (of_block_size out)"] w 1(2)
        by (simp add: absorb_append)
    qed
    ultimately show ?thesis
      using False 1(3) wr by (subst normal_fill_loop.simps) (simp add: Let_def)
  qed
qed

lemma write_normal_fill_chunk_ok:
  assumes "good (of_dev out)" and "of_block_size out \<noteq> 0" and "4 dvd unat (of_block_size out)"
    and "unat (of_block_size out) < 2147483648" and "length (fill_buf out) = unat (of_block_size out)"
  shows "write_normal_fill_chunk ops out sz v =
    Inr (0, out\<lparr>of_dev := absorb (of_dev out) (fill_bytes v (unat sz)),
      fill_buf := fill_bytes v (unat (of_block_size out))\<rparr>)"
proof -
  have "4 * (unat (of_block_size out) div 4) = unat (of_block_size out)" using assms(3) by simp
  then show ?thesis
    using normal_fill_loop_ok [of "out\<lparr>fill_buf := fill_bytes v (unat (of_block_size out))\<rparr>" v sz] assms
    by (simp add: write_normal_fill_chunk_def Let_def concat_fill_bytes)
qed

lemma write_normal_data_chunk_ok:
  assumes good: "good (of_dev out)" and bs: "of_block_size out \<noteq> 0"
    and fit: "unat sz + unat (of_block_size out) \<le> 2147483648" and data: "length data = unat sz"
  shows "write_normal_data_chunk ops out sz data = Inr (0, out\<lparr>of_dev :=
     (let k = unat (of_block_size out) * cdiv (unat sz) (unat (of_block_size out)) - unat sz;
          d = absorb (of_dev out) data in if k = 0 then d else forward d k)\<rparr>)"
proof -
  let ?b = "of_block_size out"
  define k where "k = unat ?b * cdiv (unat sz) (unat ?b) - unat sz"
  obtain r where r: "align_up sz ?b = Inr r" "unat (r - sz) = k" "sz < r \<longleftrightarrow> k \<noteq> 0"
    using align_up_nat [OF bs, of sz] fit by (auto simp: k_def word_less_nat_alt not_le)
  have b: "0 < unat ?b" using bs by (simp add: unat_gt_0)
  have s: "to_int sz = int (length data)" using fit data b by (simp add: sint_small_u32)
  have u: "uint (r - sz) = int k" using r(2) by (metis uint_nat)
  show ?thesis
    using good r(1,3) dev_write_all [OF good s] skip_ok [of "absorb (of_dev out) data" k] u
    unfolding k_def [symmetric] Let_def write_normal_data_chunk_def
    by (simp add: dev_skip_def good_absorb)
qed

end

section \<open>The descriptor is a sink\<close>

definition file_absorb :: "ofile \<Rightarrow> byte list \<Rightarrow> ofile" where
  "file_absorb f bs = f\<lparr>fl_bytes := put_at (fl_pos f) bs (fl_bytes f), fl_pos := fl_pos f + length bs\<rparr>"

definition file_forward :: "ofile \<Rightarrow> nat \<Rightarrow> ofile" where
  "file_forward f k = f\<lparr>fl_pos := fl_pos f + k\<rparr>"

lemma put_at_put_at: "put_at (pos + length xs) ys (put_at pos xs bs) = put_at pos (xs @ ys) bs"
proof (cases "xs = [] \<or> ys = []")
  case False
  have "length (take pos bs @ replicate (pos - length bs) (0 :: byte)) = pos" by simp
  then show ?thesis using False by (simp add: put_at_def ac_simps)
qed (auto simp: put_at_def)

lemma file_write_ok:
  assumes "reliable f" and "k \<le> length data"
  shows "file_write f data (int k) = (0, file_absorb f (take k data))"
  using posix_write_full [OF assms(1) refl assms(2)] assms(2) by (simp add: file_write_def file_absorb_def)

interpretation fd: plain_sink file_ops reliable file_absorb file_forward
proof
  show "op_write file_ops d data (int k) = (0, file_absorb d (take k data))"
    if "reliable d" "k \<le> length data" for d k data
    using that by (simp add: file_ops_def file_write_ok)
  show "op_skip file_ops d (int k) = (0, file_forward d k)" if "reliable d" for d k
    by (simp add: file_ops_def file_skip_def lseek_cur_def lseek_set_def file_forward_def nat_add_distrib)
  show "file_absorb d (xs @ ys) = file_absorb (file_absorb d xs) ys" if "reliable d" for d xs ys
    by (simp add: file_absorb_def put_at_put_at)
qed (auto simp: reliable_def file_absorb_def file_forward_def put_at_def)

section \<open>Reading in full is independent of how reads are split\<close>

lemma posix_read_step:
  assumes "\<forall>i\<in>set (fl_io f). \<nexists>e. i = IoFail e" and "fl_pos f + n \<le> length (fl_bytes f)" and "n \<noteq> 0"
  shows "\<exists>k io. 0 < k \<and> k \<le> n \<and> set io \<subseteq> set (fl_io f) \<and>
    posix_read f n = (Inr (take k (drop (fl_pos f) (fl_bytes f))), f\<lparr>fl_pos := fl_pos f + k, fl_io := io\<rparr>)"
proof (cases "fl_io f")
  case Nil
  then show ?thesis using assms(2,3)
    by (intro exI [of _ n] exI [of _ "[]"], cases f) (simp add: posix_read_def next_io_def Let_def)
next
  case (Cons i ios)
  define k where "k = (case i of IoPart j \<Rightarrow> min (Suc j) n | _ \<Rightarrow> n)"
  show ?thesis
    using assms Cons by (intro exI [of _ k] exI [of _ ios], cases f, cases i)
      (auto simp: posix_read_def next_io_def Let_def k_def)
qed

lemma read_all_complete:
  assumes "\<forall>i\<in>set (fl_io f). \<nexists>e. i = IoFail e" and "fl_pos f + n \<le> length (fl_bytes f)"
  shows "\<exists>io. read_all f n = (Inr (take n (drop (fl_pos f) (fl_bytes f))), f\<lparr>fl_pos := fl_pos f + n, fl_io := io\<rparr>)
    \<and> set io \<subseteq> set (fl_io f)"
  using assms
proof (induction n arbitrary: f rule: less_induct)
  case (less n)
  show ?case
  proof (cases "n = 0")
    case True
    then show ?thesis by (intro exI [of _ "fl_io f"]) (simp add: read_all.simps)
  next
    case False
    obtain k io where k: "0 < k" "k \<le> n" "set io \<subseteq> set (fl_io f)"
      and r: "posix_read f n = (Inr (take k (drop (fl_pos f) (fl_bytes f))), f\<lparr>fl_pos := fl_pos f + k, fl_io := io\<rparr>)"
      using posix_read_step [OF less.prems] False by blast
    let ?f = "f\<lparr>fl_pos := fl_pos f + k, fl_io := io\<rparr>"
    have "\<exists>io'. read_all ?f (n - k) = (Inr (take (n - k) (drop (fl_pos ?f) (fl_bytes ?f))),
        ?f\<lparr>fl_pos := fl_pos ?f + (n - k), fl_io := io'\<rparr>) \<and> set io' \<subseteq> set (fl_io ?f)"
      using k less.prems False by (intro less.IH) auto
    then obtain io' where "read_all ?f (n - k) = (Inr (take (n - k) (drop (fl_pos f + k) (fl_bytes f))),
        f\<lparr>fl_pos := fl_pos f + n, fl_io := io'\<rparr>)" "set io' \<subseteq> set (fl_io f)"
      using k by auto
    moreover have "take n (drop (fl_pos f) (fl_bytes f)) =
        take k (drop (fl_pos f) (fl_bytes f)) @ take (n - k) (drop (fl_pos f + k) (fl_bytes f))"
      using take_add [of k "n - k" "drop (fl_pos f) (fl_bytes f)"] k(2) by (simp add: add.commute)
    ultimately show ?thesis
      using k False less.prems(2) r by (subst read_all.simps) auto
  qed
qed

lemma posix_read_steady:
  assumes "\<forall>i\<in>set (fl_io f). \<nexists>e. i = IoFail e"
  shows "\<exists>k io. 0 < k \<and> set io \<subseteq> set (fl_io f) \<and>
    posix_read f n = (Inr (take (min k n) (drop (fl_pos f) (fl_bytes f))),
      f\<lparr>fl_pos := fl_pos f + length (take (min k n) (drop (fl_pos f) (fl_bytes f))), fl_io := io\<rparr>)"
proof (cases "fl_io f")
  case Nil
  then show ?thesis
    by (intro exI [of _ "Suc n"] exI [of _ "[]"], cases f) (simp add: posix_read_def next_io_def Let_def min_def)
next
  case (Cons i ios)
  show ?thesis
    using assms Cons by (intro exI [of _ "case i of IoPart j \<Rightarrow> Suc j | _ \<Rightarrow> Suc n"] exI [of _ ios], cases f, cases i)
      (auto simp: posix_read_def next_io_def Let_def min_def)
qed

lemma read_all_eof:
  assumes "\<forall>i\<in>set (fl_io f). \<nexists>e. i = IoFail e" and "0 < n" and "length (fl_bytes f) < fl_pos f + n"
  shows "fst (read_all f n) = Inl (- 22)"
  using assms
proof (induction n arbitrary: f rule: less_induct)
  case (less n)
  let ?d = "\<lambda>k. take (min k n) (drop (fl_pos f) (fl_bytes f))"
  obtain k io where k: "0 < k" "set io \<subseteq> set (fl_io f)"
    and r: "posix_read f n = (Inr (?d k), f\<lparr>fl_pos := fl_pos f + length (?d k), fl_io := io\<rparr>)"
    using posix_read_steady [OF less.prems(1), of n] by blast
  show ?case
  proof (cases "?d k = []")
    case True
    then show ?thesis using r less.prems(2) by (subst read_all.simps) simp
  next
    case False
    let ?f = "f\<lparr>fl_pos := fl_pos f + length (?d k), fl_io := io\<rparr>"
    have l: "0 < length (?d k)" "length (?d k) < n" using False less.prems by auto
    have "fst (read_all ?f (n - length (?d k))) = Inl (- 22)"
      using l less.prems k by (intro less.IH) auto
    then show ?thesis
      using r less.prems(2) False by (subst read_all.simps) (auto split: prod.splits)
  qed
qed

section \<open>Properties\<close>

text \<open>
  \<^verbatim>\<open>read_all\<close> is robust against short reads: however the reads are split, it delivers exactly the next
  \<open>n\<close> bytes of the file when there are that many, and otherwise ends with \<^verbatim>\<open>-EINVAL\<close>; it never loops.
\<close>

theorem read_all_robust:
  assumes "\<forall>i\<in>set (fl_io f). \<nexists>e. i = IoFail e"
  shows "fst (read_all f n) =
    (if n = 0 \<or> fl_pos f + n \<le> length (fl_bytes f) then Inr (take n (drop (fl_pos f) (fl_bytes f))) else Inl (- 22))"
proof (cases "n = 0")
  case True
  then show ?thesis by (simp add: read_all.simps)
next
  case False
  then show ?thesis using read_all_complete [OF assms] read_all_eof [OF assms] by fastforce
qed

theorem read_all_robust_witness:
  "fst (read_all \<lparr>fl_bytes = [1, 2, 3, 4, 5], fl_pos = 1, fl_io = [IoPart 0, IoPart 1]\<rparr> 4) = Inr [2, 3, 4, 5]"
  using read_all_robust [of "\<lparr>fl_bytes = [1, 2, 3, 4, 5], fl_pos = 1, fl_io = [IoPart 0, IoPart 1]\<rparr>" 4] by simp

end
