(* ===== verification/Sparse_File.thy ===== *)
theory Sparse_File
  imports Output_File Block_Image
begin

text \<open>
  The sparse file of \<^verbatim>\<open>libsparse/sparse.c\<close>: a block list with a block size and a length, its output as
  a sparse or plain image to a descriptor or a callback, the computation of the length of the output,
  and the splitting into several files of bounded size (\<^verbatim>\<open>sparse_file_resparse\<close>).

  The heap of the block list is threaded through; the loops over the list take the number of
  addresses handed out as fuel.
\<close>

section \<open>The sparse file\<close>

record sparse_file =
  sf_block_size :: u32
  sf_len :: int
  sf_verbose :: bool
  sf_list :: backed_block_list

definition sparse_file_new :: "heap \<Rightarrow> u32 \<Rightarrow> int \<Rightarrow> (sparse_file option \<times> heap) res" where
  "sparse_file_new h block_size sz = (case alloc_ok h of (ok, h) \<Rightarrow>
     if \<not> ok then Inr (None, h)
     else bindR (backed_block_list_new h block_size) (\<lambda>(l, h).
       Inr (Some \<lparr>sf_block_size = block_size, sf_len = sz, sf_verbose = False, sf_list = l\<rparr>, h)))"

definition sparse_file_destroy :: "heap \<Rightarrow> sparse_file \<Rightarrow> heap res" where
  "sparse_file_destroy h s = backed_block_list_destroy h (sf_list s)"

definition lift_add :: "(heap \<Rightarrow> backed_block_list \<Rightarrow> (int \<times> heap \<times> backed_block_list) res)
    \<Rightarrow> heap \<Rightarrow> sparse_file \<Rightarrow> (int \<times> heap \<times> sparse_file) res" where
  "lift_add add h s = bindR (add h (sf_list s)) (\<lambda>(ret, h, l). Inr (ret, h, s\<lparr>sf_list := l\<rparr>))"

definition sparse_file_add_data where
  "sparse_file_add_data h s data sz block = lift_add (\<lambda>h l. backed_block_add_data h l data sz block) h s"

definition sparse_file_add_fill where
  "sparse_file_add_fill h s fill_val sz block = lift_add (\<lambda>h l. backed_block_add_fill h l fill_val sz block) h s"

definition sparse_file_add_file where
  "sparse_file_add_file h s filename file_offset sz block =
     lift_add (\<lambda>h l. backed_block_add_file h l filename file_offset sz block) h s"

definition sparse_file_add_fd where
  "sparse_file_add_fd h s fd file_offset sz block =
     lift_add (\<lambda>h l. backed_block_add_fd h l fd file_offset sz block) h s"

definition sparse_file_verbose :: "sparse_file \<Rightarrow> sparse_file" where
  "sparse_file_verbose s = s\<lparr>sf_verbose := True\<rparr>"

section \<open>Counting and writing\<close>

fun count_loop :: "nat \<Rightarrow> heap \<Rightarrow> u32 \<Rightarrow> ptr \<Rightarrow> u32 \<Rightarrow> u32 \<Rightarrow> (u32 \<times> u32) res" where
  "count_loop fuel h bs None last_block cnt = Inr (last_block, cnt)"
| "count_loop 0 h bs (Some a) last_block cnt = Inl Diverges"
| "count_loop (Suc fuel) h bs (Some a) last_block cnt =
     bindR (load h (Some a)) (\<lambda>b.
     bindR (div_round_up (bb_len b) bs) (\<lambda>q.
       count_loop fuel h bs (bb_next b) (bb_block b + q)
         ((if bb_block b > last_block then cnt + 1 else cnt) + 1)))"

definition sparse_count_chunks :: "heap \<Rightarrow> sparse_file \<Rightarrow> u32 res" where
  "sparse_count_chunks h s =
     bindR (count_loop (hp_brk h) h (sf_block_size s) (backed_block_iter_new (sf_list s)) 0 0) (\<lambda>(last_block, cnt).
     bindR (assertR (sf_block_size s \<noteq> 0) DivByZero) (\<lambda>_.
     Inr (if uint last_block < (sf_len s + uint (sf_block_size s) - 1) sdiv uint (sf_block_size s)
          then cnt + 1 else cnt)))"

text \<open>The results of the chunk writers are not looked at.\<close>

definition sparse_file_write_block ::
  "world \<Rightarrow> heap \<Rightarrow> 'd output_file_ops \<Rightarrow> 'd output_file \<Rightarrow> backed_block \<Rightarrow> 'd output_file res" where
  "sparse_file_write_block w h ops out b =
     bindR (case bb_back b of
         BACKED_BLOCK_DATA buf off \<Rightarrow>
           write_data_chunk ops out (bb_len b) (map (\<lambda>k. w_buf w buf (off + k)) [0..<unat (bb_len b)])
       | BACKED_BLOCK_FILE None off \<Rightarrow> Inr (- 14, out)
       | BACKED_BLOCK_FILE (Some a) off \<Rightarrow>
           (case hp_strs h a of None \<Rightarrow> Inl UseAfterFree
            | Some name \<Rightarrow> write_file_chunk w ops out (bb_len b) name off)
       | BACKED_BLOCK_FD fd off \<Rightarrow> write_fd_chunk w ops out (bb_len b) fd off
       | BACKED_BLOCK_FILL v \<Rightarrow> write_fill_chunk ops out (bb_len b) v)
     (\<lambda>(_, out). Inr out)"

fun write_blocks_loop ::
  "nat \<Rightarrow> world \<Rightarrow> heap \<Rightarrow> u32 \<Rightarrow> 'd output_file_ops \<Rightarrow> 'd output_file \<Rightarrow> ptr \<Rightarrow> u32
   \<Rightarrow> ('d output_file \<times> u32) res" where
  "write_blocks_loop fuel w h bs ops out None last_block = Inr (out, last_block)"
| "write_blocks_loop 0 w h bs ops out (Some a) last_block = Inl Diverges"
| "write_blocks_loop (Suc fuel) w h bs ops out (Some a) last_block =
     bindR (load h (Some a)) (\<lambda>b.
     bindR (if bb_block b > last_block
            then bindR (write_skip_chunk ops out (uint (bb_block b - last_block) * uint bs)) (\<lambda>(_, out). Inr out)
            else Inr out) (\<lambda>out.
     bindR (sparse_file_write_block w h ops out b) (\<lambda>out.
     bindR (div_round_up (bb_len b) bs) (\<lambda>q.
       write_blocks_loop fuel w h bs ops out (bb_next b) (bb_block b + q)))))"

definition write_all_blocks ::
  "world \<Rightarrow> heap \<Rightarrow> sparse_file \<Rightarrow> 'd output_file_ops \<Rightarrow> 'd output_file \<Rightarrow> (int \<times> 'd output_file) res" where
  "write_all_blocks w h s ops out =
     bindR (write_blocks_loop (hp_brk h) w h (sf_block_size s) ops out (backed_block_iter_new (sf_list s)) 0)
       (\<lambda>(out, last_block).
     let pad = sf_len s - uint last_block * uint (sf_block_size s) in
     bindR (assertR (pad \<ge> 0) AssertFailed) (\<lambda>_.
     bindR (if pad > 0 then bindR (write_skip_chunk ops out pad) (\<lambda>(_, out). Inr out) else Inr out) (\<lambda>out.
     Inr (0, out))))"

definition sparse_file_write ::
  "world \<Rightarrow> heap \<Rightarrow> sparse_file \<Rightarrow> 'd output_file_ops \<Rightarrow> 'd \<Rightarrow> bool \<Rightarrow> bool \<Rightarrow> (int \<times> 'd) res" where
  "sparse_file_write w h s ops dev sparse crc =
     bindR (sparse_count_chunks h s) (\<lambda>chunks.
     bindR (output_file_open_fd ops dev (sf_block_size s) (sf_len s) sparse chunks crc) (\<lambda>(out, dev).
     case out of None \<Rightarrow> Inr (- ENOMEM, dev)
     | Some out \<Rightarrow>
         bindR (write_all_blocks w h s ops out) (\<lambda>(ret, out). Inr (ret, output_file_close ops out))))"

definition sparse_file_callback ::
  "world \<Rightarrow> heap \<Rightarrow> sparse_file \<Rightarrow> bool \<Rightarrow> bool \<Rightarrow> 'p callback \<Rightarrow> 'p \<Rightarrow> (int \<times> 'p) res" where
  "sparse_file_callback w h s sparse crc write priv =
     bindR (sparse_count_chunks h s) (\<lambda>chunks.
     bindR (output_file_open_callback write priv (sf_block_size s) (sf_len s) sparse chunks crc) (\<lambda>(out, priv).
     case out of None \<Rightarrow> Inr (- ENOMEM, priv)
     | Some out \<Rightarrow>
         bindR (write_all_blocks w h s (callback_file_ops write) out) (\<lambda>(ret, out).
           Inr (ret, output_file_close (callback_file_ops write) out))))"

definition out_counter_write :: "int callback" where
  "out_counter_write cnt data n = (0, cnt + n)"

definition sparse_file_len :: "world \<Rightarrow> heap \<Rightarrow> sparse_file \<Rightarrow> bool \<Rightarrow> bool \<Rightarrow> int res" where
  "sparse_file_len w h s sparse crc =
     bindR (sparse_count_chunks h s) (\<lambda>chunks.
     bindR (output_file_open_callback out_counter_write 0 (sf_block_size s) (sf_len s) sparse chunks crc) (\<lambda>(out, cnt).
     case out of None \<Rightarrow> Inr (- 1)
     | Some out \<Rightarrow>
         bindR (write_all_blocks w h s (callback_file_ops out_counter_write) out) (\<lambda>(ret, out).
           let cnt = output_file_close (callback_file_ops out_counter_write) out in
           Inr (if ret < 0 then - 1 else cnt))))"

section \<open>Splitting into files of bounded size\<close>

text \<open>
  The loop of \<^verbatim>\<open>move_chunks_up_to_len\<close>: the nodes from \<open>bb\<close> on are measured one by one with the counting
  device; the result is the heap, the device, \<^verbatim>\<open>last_bb\<close> and the node the loop stopped at.
\<close>

fun measure_loop ::
  "nat \<Rightarrow> world \<Rightarrow> heap \<Rightarrow> backed_block_list \<Rightarrow> u32 \<Rightarrow> int output_file \<Rightarrow> int \<Rightarrow> ptr \<Rightarrow> ptr
   \<Rightarrow> (heap \<times> int output_file \<times> ptr \<times> ptr) res" where
  "measure_loop fuel w h from lim out file_len last_bb None = Inr (h, out, last_bb, None)"
| "measure_loop 0 w h from lim out file_len last_bb (Some a) = Inl Diverges"
| "measure_loop (Suc fuel) w h from lim out file_len last_bb (Some a) =
     bindR (load h (Some a)) (\<lambda>b.
     bindR (sparse_file_write_block w h (callback_file_ops out_counter_write) (out\<lparr>of_dev := 0\<rparr>) b) (\<lambda>out.
     let cnt = of_dev out in
     if file_len + cnt > uint lim then
       (if last_bb = None \<or> uint lim - file_len > uint (lim div 8) then
          bindR (backed_block_split h from (Some a) (word_of_int (uint lim - file_len))) (\<lambda>(_, h).
            Inr (h, out, Some a, Some a))
        else Inr (h, out, last_bb, Some a))
     else measure_loop fuel w h from lim out (file_len + cnt) (Some a) (bb_next b)))"

definition move_chunks_up_to_len ::
  "world \<Rightarrow> heap \<Rightarrow> sparse_file \<Rightarrow> sparse_file \<Rightarrow> u32 \<Rightarrow> (heap \<times> sparse_file \<times> sparse_file \<times> ptr) res" where
  "move_chunks_up_to_len w h from to max_len =
    (let lim = max_len - (28 + 4 * 12 + 4);
         start = backed_block_iter_new (sf_list from) in
     bindR (output_file_open_callback out_counter_write 0 (sf_block_size to) (sf_len to) True 0 False) (\<lambda>(out, _).
     case out of None \<Rightarrow> Inr (h, from, to, None)
     | Some out \<Rightarrow>
         bindR (measure_loop (hp_brk h) w h (sf_list from) lim out 0 None start) (\<lambda>(h, out, last_bb, bb).
         bindR (backed_block_list_move h (sf_list from) (sf_list to) start last_bb) (\<lambda>(h, fl, tl).
         Inr (h, from\<lparr>sf_list := fl\<rparr>, to\<lparr>sf_list := tl\<rparr>, bb)))))"

text \<open>
  The \<^verbatim>\<open>do\<close> loop of \<^verbatim>\<open>sparse_file_resparse\<close>, with \<open>outs\<close> the files stored in \<^verbatim>\<open>out_s\<close> so far.  The result of
  \<^verbatim>\<open>sparse_file_new\<close> is used without a check.
\<close>

fun resparse_loop ::
  "nat \<Rightarrow> world \<Rightarrow> heap \<Rightarrow> sparse_file \<Rightarrow> sparse_file \<Rightarrow> u32 \<Rightarrow> int \<Rightarrow> nat \<Rightarrow> sparse_file list
   \<Rightarrow> (heap \<times> sparse_file \<times> sparse_file \<times> nat \<times> sparse_file list) res" where
  "resparse_loop 0 w h in_s tmp max_len out_s_count c outs = Inl Diverges"
| "resparse_loop (Suc fuel) w h in_s tmp max_len out_s_count c outs =
     bindR (sparse_file_new h (sf_block_size in_s) (sf_len in_s)) (\<lambda>(s, h).
     case s of None \<Rightarrow> Inl NullDeref
     | Some s \<Rightarrow>
       bindR (move_chunks_up_to_len w h in_s s max_len) (\<lambda>(h, in_s, s, bb).
       bindR (if int c < out_s_count then Inr (h, tmp, outs @ [s])
              else bindR (backed_block_list_move h (sf_list s) (sf_list tmp) None None) (\<lambda>(h, sl, tl).
                   bindR (sparse_file_destroy h (s\<lparr>sf_list := sl\<rparr>)) (\<lambda>h.
                   Inr (h, tmp\<lparr>sf_list := tl\<rparr>, outs)))) (\<lambda>(h, tmp, outs).
       if bb = None then Inr (h, in_s, tmp, Suc c, outs)
       else resparse_loop fuel w h in_s tmp max_len out_s_count (Suc c) outs)))"

definition sparse_file_resparse ::
  "nat \<Rightarrow> world \<Rightarrow> heap \<Rightarrow> sparse_file \<Rightarrow> u32 \<Rightarrow> int
   \<Rightarrow> (int \<times> heap \<times> sparse_file \<times> sparse_file list) res" where
  "sparse_file_resparse fuel w h in_s max_len out_s_count =
     bindR (sparse_file_new h (sf_block_size in_s) (sf_len in_s)) (\<lambda>(tmp, h).
     case tmp of None \<Rightarrow> Inr (- ENOMEM, h, in_s, [])
     | Some tmp \<Rightarrow>
       bindR (resparse_loop fuel w h in_s tmp max_len out_s_count 0 []) (\<lambda>(h, in_s, tmp, c, outs).
       bindR (backed_block_list_move h (sf_list tmp) (sf_list in_s) None None) (\<lambda>(h, tl, il).
       bindR (sparse_file_destroy h (tmp\<lparr>sf_list := tl\<rparr>)) (\<lambda>h.
       Inr (int c, h, in_s\<lparr>sf_list := il\<rparr>, outs)))))"

section \<open>What is written\<close>

text \<open>The bytes behind the chunks, as the writers see them.\<close>

definition media_of :: "world \<Rightarrow> heap \<Rightarrow> media" where
  "media_of w h = \<lparr>md_buf = w_buf w, md_file = (\<lambda>p off. w_fd w (w_open w (the (hp_strs h (the p)))) off),
     md_fd = w_fd w\<rparr>"

definition chunk_bytes :: "media \<Rightarrow> chunk \<Rightarrow> byte list" where
  "chunk_bytes m c = map (back_byte m (bck c)) [0..<unat (len c)]"

lemma length_chunk_bytes [simp]: "length (chunk_bytes m c) = unat (len c)"
  by (simp add: chunk_bytes_def)

lemma chunk_bytes_simps:
  "bck c = BACKED_BLOCK_DATA buf n \<Longrightarrow> chunk_bytes m c = map (\<lambda>k. md_buf m buf (n + k)) [0..<unat (len c)]"
  "bck c = BACKED_BLOCK_FILE fn off \<Longrightarrow> chunk_bytes m c = map (\<lambda>k. md_file m fn (off + int k)) [0..<unat (len c)]"
  "bck c = BACKED_BLOCK_FD fd off \<Longrightarrow> chunk_bytes m c = map (\<lambda>k. md_fd m fd (off + int k)) [0..<unat (len c)]"
  by (simp_all add: chunk_bytes_def)

definition is_fill :: "chunk \<Rightarrow> bool" where
  "is_fill c = (case bck c of BACKED_BLOCK_FILL _ \<Rightarrow> True | _ \<Rightarrow> False)"

definition enc_chunk :: "media \<Rightarrow> u32 \<Rightarrow> chunk \<Rightarrow> byte list" where
  "enc_chunk m bs c = (case bck c of
      BACKED_BLOCK_FILL v \<Rightarrow> enc_fill (word_of_nat (blocks bs c)) v
    | _ \<Rightarrow> enc_raw bs (chunk_bytes m c))"

definition crc_chunk :: "media \<Rightarrow> u32 \<Rightarrow> u32 \<Rightarrow> chunk \<Rightarrow> u32" where
  "crc_chunk m bs crc c = (case bck c of
      BACKED_BLOCK_FILL v \<Rightarrow> fill_crc bs v crc
    | _ \<Rightarrow> raw_crc bs (chunk_bytes m c) crc)"

definition next_block :: "u32 \<Rightarrow> chunk \<Rightarrow> u32" where
  "next_block bs c = blk c + word_of_nat (blocks bs c)"

fun enc_list :: "media \<Rightarrow> u32 \<Rightarrow> u32 \<Rightarrow> chunk list \<Rightarrow> byte list" where
  "enc_list m bs k [] = []"
| "enc_list m bs k (c # cs) =
     (if k < blk c then enc_skip (blk c - k) else []) @ enc_chunk m bs c @ enc_list m bs (next_block bs c) cs"

fun end_block :: "u32 \<Rightarrow> u32 \<Rightarrow> chunk list \<Rightarrow> u32" where
  "end_block bs k [] = k"
| "end_block bs k (c # cs) = end_block bs (next_block bs c) cs"

fun count_list :: "u32 \<Rightarrow> u32 \<Rightarrow> chunk list \<Rightarrow> nat" where
  "count_list bs k [] = 0"
| "count_list bs k (c # cs) = (if k < blk c then 2 else 1) + count_list bs (next_block bs c) cs"

text \<open>
  A chunk can be written: its length leaves room in an \<^verbatim>\<open>int\<close> for rounding up, and a file behind it can
  be opened and mapped.
\<close>

definition mapped :: "world \<Rightarrow> int \<Rightarrow> int \<Rightarrow> u32 \<Rightarrow> bool" where
  "mapped w fd off sz \<longleftrightarrow> w_mmap w fd (off - off mod 4096) (to_int (sz + word_of_int (off mod 4096))) = 0"

definition writable :: "world \<Rightarrow> heap \<Rightarrow> u32 \<Rightarrow> chunk \<Rightarrow> bool" where
  "writable w h bs c \<longleftrightarrow> unat (len c) + unat bs \<le> 2147483648 \<and> (case bck c of
      BACKED_BLOCK_FD fd off \<Rightarrow> mapped w fd off (len c)
    | BACKED_BLOCK_FILE p off \<Rightarrow> (case p of None \<Rightarrow> False | Some a \<Rightarrow>
        (case hp_strs h a of None \<Rightarrow> False | Some name \<Rightarrow> 0 \<le> w_open w name \<and> mapped w (w_open w name) off (len c)))
    | _ \<Rightarrow> True)"

lemma blocks_cdiv: "blocks bs c = cdiv (unat (len c)) (unat bs)"
  by (simp add: blocks_def cdiv_def)

lemma div_round_up_blocks:
  assumes "bs \<noteq> 0" and "unat (len c) + unat bs \<le> 4294967296"
  shows "div_round_up (len c) bs = Inr (word_of_nat (blocks bs c))"
  using div_round_up_nat [OF assms] word_of_nat_eqI unfolding blocks_cdiv by blast

lemma write_fd_chunk_mapped:
  assumes "mapped w fd off sz"
  shows "write_fd_chunk w ops out sz fd off =
    write_data_chunk ops out sz (map (\<lambda>k. w_fd w fd (off + int k)) [0..<unat sz])"
  using assms by (simp add: write_fd_chunk_def mapped_def Let_def)

text \<open>What happens to a block that is no fill: its bytes go to the writer of data chunks.\<close>

lemma write_block_data:
  assumes "writable w h bs (chunk_of b)" and "\<not> is_fill (chunk_of b)"
  shows "sparse_file_write_block w h ops out b =
    bindR (write_data_chunk ops out (bb_len b) (chunk_bytes (media_of w h) (chunk_of b))) (\<lambda>(_, out). Inr out)"
  using assms
  by (cases "bb_back b")
     (auto simp: sparse_file_write_block_def writable_def is_fill_def chunk_bytes_simps media_of_def
       write_fd_chunk_mapped write_file_chunk_def split: option.splits)

section \<open>Sparse output\<close>

definition sparse_out :: "('d \<Rightarrow> bool) \<Rightarrow> u32 \<Rightarrow> 'd output_file \<Rightarrow> bool" where
  "sparse_out good bs out \<longleftrightarrow> good (of_dev out) \<and> of_sparse out \<and> of_block_size out = bs
     \<and> zero_buf out = replicate (unat bs) 0"

text \<open>\<open>emits\<close>: the new state is the old one after the bytes \<open>e\<close>, with checksum \<open>crc\<close>.\<close>

definition emits :: "('d \<Rightarrow> bool) \<Rightarrow> ('d \<Rightarrow> byte list \<Rightarrow> 'd) \<Rightarrow> u32 \<Rightarrow> 'd output_file \<Rightarrow> byte list \<Rightarrow> u32
    \<Rightarrow> 'd output_file \<Rightarrow> bool" where
  "emits good absorb bs out e crc out' \<longleftrightarrow> sparse_out good bs out' \<and> of_dev out' = absorb (of_dev out) e
     \<and> use_crc out' = use_crc out \<and> of_crc32 out' = (if use_crc out then crc else of_crc32 out)"

context sink
begin

lemma emits_trans:
  assumes "sparse_out good bs out" and "emits good absorb bs out e crc out'" and "emits good absorb bs out' e' crc' out''"
  shows "emits good absorb bs out (e @ e') crc' out''"
  using assms by (auto simp: emits_def sparse_out_def absorb_append)

lemma write_block_emits:
  assumes out: "sparse_out good bs out" and bs: "bs \<noteq> 0" and wr: "writable w h bs (chunk_of b)"
  shows "\<exists>out'. sparse_file_write_block w h ops out b = Inr out'
    \<and> emits good absorb bs out (enc_chunk (media_of w h) bs (chunk_of b))
        (crc_chunk (media_of w h) bs (of_crc32 out) (chunk_of b)) out'"
proof (cases "is_fill (chunk_of b)")
  case True
  then obtain v where v: "bb_back b = BACKED_BLOCK_FILL v" by (auto simp: is_fill_def split: backing.splits)
  have "unat (bb_len b) + unat (of_block_size out) \<le> 4294967296" using wr out by (simp add: writable_def sparse_out_def)
  from write_sparse_fill_chunk_ok [of out "bb_len b" v, OF _ _ this] out bs v show ?thesis
    by (fastforce simp: sparse_file_write_block_def write_fill_chunk_def sparse_out_def emits_def good_absorb
        enc_chunk_def crc_chunk_def blocks_cdiv)
next
  case False
  let ?d = "chunk_bytes (media_of w h) (chunk_of b)"
  have "unat (bb_len b) + unat (of_block_size out) \<le> 2147483648" using wr out by (simp add: writable_def sparse_out_def)
  from write_sparse_data_chunk_ok [of out "bb_len b" ?d, OF _ _ this] out bs
  obtain ptr where "write_sparse_data_chunk ops out (bb_len b) ?d =
     Inr (0, out\<lparr>of_dev := absorb (of_dev out) (enc_raw bs ?d),
      cur_out_ptr := ptr, chunk_cnt := chunk_cnt out + 1,
      of_crc32 := if use_crc out then raw_crc bs ?d (of_crc32 out) else of_crc32 out\<rparr>)"
    by (auto simp: sparse_out_def)
  moreover have "enc_chunk (media_of w h) bs (chunk_of b) = enc_raw bs ?d"
    "crc_chunk (media_of w h) bs (of_crc32 out) (chunk_of b) = raw_crc bs ?d (of_crc32 out)"
    using False by (auto simp: enc_chunk_def crc_chunk_def is_fill_def split: backing.splits)
  ultimately show ?thesis
    using out by (simp add: write_block_data [OF wr False] write_data_chunk_def emits_def sparse_out_def good_absorb)
qed

lemma write_skip_emits:
  assumes "sparse_out good bs out" and "bs \<noteq> 0"
  shows "\<exists>out'. write_skip_chunk ops out (int n * uint bs) = Inr (0, out')
    \<and> emits good absorb bs out (enc_skip (word_of_nat n)) (of_crc32 out) out'"
  using assms write_sparse_skip_chunk_ok [of out n]
  by (auto simp: write_skip_chunk_def sparse_out_def emits_def good_absorb)

lemma write_blocks_loop_emits:
  assumes "sparse_out good bs out" and "bs \<noteq> 0" and "bb_path h p as None" and "length as \<le> fuel"
    and "\<forall>c\<in>set (chunks h as). writable w h bs c"
  shows "\<exists>out'. write_blocks_loop fuel w h bs ops out p k = Inr (out', end_block bs k (chunks h as))
    \<and> emits good absorb bs out (enc_list (media_of w h) bs k (chunks h as))
        (foldl (crc_chunk (media_of w h) bs) (of_crc32 out) (chunks h as)) out'"
  using assms
proof (induction as arbitrary: out p fuel k)
  case Nil
  then show ?case by (auto simp: emits_def sparse_out_def absorb_Nil)
next
  case (Cons a as)
  then obtain b f where b: "p = Some a" "hp_cells h a = Some b" "bb_path h (bb_next b) as None"
    and f: "fuel = Suc f" by (cases fuel) (auto split: option.splits)
  let ?c = "chunk_of b" and ?m = "media_of w h"
  have wr: "writable w h bs ?c" using Cons.prems(5) b by simp
  let ?gap = "if k < blk ?c then enc_skip (blk ?c - k) else []"
  obtain o1 where o1: "(if bb_block b > k
            then bindR (write_skip_chunk ops out (uint (bb_block b - k) * uint bs)) (\<lambda>(_, out). Inr out)
            else Inr out) = Inr o1" "emits good absorb bs out ?gap (of_crc32 out) o1"
  proof (cases "k < bb_block b")
    case True
    then show ?thesis
      using write_skip_emits [OF Cons.prems(1,2), of "unat (bb_block b - k)"] that by auto
  next
    case False
    then show ?thesis using Cons.prems(1) that by (auto simp: emits_def sparse_out_def absorb_Nil)
  qed
  have s1: "sparse_out good bs o1" using o1(2) by (simp add: emits_def)
  obtain o2 where o2: "sparse_file_write_block w h ops o1 b = Inr o2"
      "emits good absorb bs o1 (enc_chunk ?m bs ?c) (crc_chunk ?m bs (of_crc32 o1) ?c) o2"
    using write_block_emits [OF s1 Cons.prems(2) wr] by auto
  have s2: "sparse_out good bs o2" using o2(2) by (simp add: emits_def)
  have q: "div_round_up (bb_len b) bs = Inr (word_of_nat (blocks bs ?c))"
    using div_round_up_blocks [of bs ?c] Cons.prems(2) wr by (simp add: writable_def)
  obtain o3 where o3: "write_blocks_loop f w h bs ops o2 (bb_next b) (next_block bs ?c)
        = Inr (o3, end_block bs (next_block bs ?c) (chunks h as))"
      "emits good absorb bs o2 (enc_list ?m bs (next_block bs ?c) (chunks h as))
        (foldl (crc_chunk ?m bs) (of_crc32 o2) (chunks h as)) o3"
    using Cons.IH [OF s2 Cons.prems(2) b(3), of f] Cons.prems(4,5) f by auto
  have "emits good absorb bs out ((?gap @ enc_chunk ?m bs ?c) @ enc_list ?m bs (next_block bs ?c) (chunks h as))
      (foldl (crc_chunk ?m bs) (of_crc32 o2) (chunks h as)) o3"
    using emits_trans [OF Cons.prems(1) emits_trans [OF Cons.prems(1) o1(2) o2(2)] o3(2)] .
  moreover have "of_crc32 o2 = (if use_crc out then crc_chunk ?m bs (of_crc32 out) ?c else of_crc32 out)"
    using o1(2) o2(2) by (simp add: emits_def)
  ultimately have "emits good absorb bs out (enc_list ?m bs k (chunks h (a # as)))
      (foldl (crc_chunk ?m bs) (of_crc32 out) (chunks h (a # as))) o3"
    using b by (auto simp: emits_def)
  moreover have "write_blocks_loop fuel w h bs ops out p k = Inr (o3, end_block bs k (chunks h (a # as)))"
    using b f o1(1) o2(1) o3(1) q by (simp add: next_block_def)
  ultimately show ?case by blast
qed

end

text \<open>The chunk count of the header and the whole image.\<close>

definition tail_skip :: "u32 \<Rightarrow> nat \<Rightarrow> chunk list \<Rightarrow> byte list" where
  "tail_skip bs n cs =
    (let e = unat (end_block bs 0 cs) in if e < n then enc_skip (word_of_nat (n - e)) else [])"

definition total_chunks :: "u32 \<Rightarrow> nat \<Rightarrow> chunk list \<Rightarrow> nat" where
  "total_chunks bs n cs = count_list bs 0 cs + (if unat (end_block bs 0 cs) < n then 1 else 0)"

definition sparse_image :: "media \<Rightarrow> u32 \<Rightarrow> nat \<Rightarrow> bool \<Rightarrow> chunk list \<Rightarrow> byte list" where
  "sparse_image m bs n crc cs =
     sparse_hdr bs (int n * uint bs) (word_of_nat (total_chunks bs n cs + (if crc then 1 else 0)))
     @ enc_list m bs 0 cs @ tail_skip bs n cs
     @ (if crc then enc_crc (foldl (crc_chunk m bs) 0 cs) else [])"

text \<open>A sparse file of \<open>n\<close> blocks whose list can be written.\<close>

definition file_ok :: "world \<Rightarrow> heap \<Rightarrow> sparse_file \<Rightarrow> addr list \<Rightarrow> nat \<Rightarrow> bool" where
  "file_ok w h s as n \<longleftrightarrow> heap_ok h \<and> bb_path h (data_blocks (sf_list s)) as None
     \<and> sf_block_size s \<noteq> 0 \<and> sf_len s = int n * uint (sf_block_size s)
     \<and> (\<forall>c\<in>set (chunks h as). writable w h (sf_block_size s) c)
     \<and> unat (end_block (sf_block_size s) 0 (chunks h as)) \<le> n"

lemma uint_pos: "bs \<noteq> 0 \<Longrightarrow> 0 < uint bs"
  using uint_0_iff [of bs] uint_ge_0 [of bs] by linarith

lemma uint_less_int_iff: "uint x < int n \<longleftrightarrow> unat x < n"
proof -
  have "int (unat x) = uint x" by simp
  then show ?thesis by linarith
qed

lemma count_loop_path:
  assumes "bs \<noteq> 0" and "bb_path h p as None" and "length as \<le> fuel"
    and "\<forall>c\<in>set (chunks h as). unat (len c) + unat bs \<le> 4294967296"
  shows "count_loop fuel h bs p k cnt =
    Inr (end_block bs k (chunks h as), cnt + word_of_nat (count_list bs k (chunks h as)))"
  using assms
proof (induction as arbitrary: p fuel k cnt)
  case (Cons a as)
  then obtain b f where b: "p = Some a" "hp_cells h a = Some b" "bb_path h (bb_next b) as None"
    and f: "fuel = Suc f" by (cases fuel) (auto split: option.splits)
  have "div_round_up (bb_len b) bs = Inr (word_of_nat (blocks bs (chunk_of b)))"
    using div_round_up_blocks [of bs "chunk_of b"] Cons.prems b by simp
  then show ?case
    using b f Cons.IH [OF Cons.prems(1) b(3), of f] Cons.prems(3,4) by (simp add: next_block_def algebra_simps)
qed simp

lemma rounded_len: "bs \<noteq> 0 \<Longrightarrow> (int n * uint bs + uint bs - 1) sdiv uint bs = int n" for bs :: u32
proof -
  assume "bs \<noteq> 0"
  then have b: "0 < uint bs" by (rule uint_pos)
  then have "0 \<le> int n * uint bs" by simp
  with b have "0 \<le> int n * uint bs + uint bs - 1" by linarith
  moreover have "(int n * uint bs + (uint bs - 1)) div uint bs = int n"
    using b by (simp add: div_add1_eq [of _ "uint bs - 1"] div_pos_pos_trivial)
  ultimately show ?thesis using b by (simp add: nonneg_sdiv algebra_simps)
qed

lemma sparse_count_chunks_ok:
  assumes "file_ok w h s as n"
  shows "sparse_count_chunks h s = Inr (word_of_nat (total_chunks (sf_block_size s) n (chunks h as)))"
proof -
  let ?bs = "sf_block_size s" and ?cs = "chunks h as"
  have "count_loop (hp_brk h) h ?bs (data_blocks (sf_list s)) 0 0
      = Inr (end_block ?bs 0 ?cs, 0 + word_of_nat (count_list ?bs 0 ?cs))"
  proof (rule count_loop_path)
    show "length as \<le> hp_brk h" using assms bb_path_length by (auto simp: file_ok_def)
    show "\<forall>c\<in>set ?cs. unat (len c) + unat ?bs \<le> 4294967296"
      using assms by (fastforce simp: file_ok_def writable_def)
  qed (use assms in \<open>auto simp: file_ok_def\<close>)
  moreover have "uint (end_block ?bs 0 ?cs) < int n \<longleftrightarrow> unat (end_block ?bs 0 ?cs) < n"
    by (rule uint_less_int_iff)
  ultimately show ?thesis
    using assms rounded_len [of ?bs n]
    by (simp add: sparse_count_chunks_def backed_block_iter_new_def file_ok_def total_chunks_def)
qed

context sink
begin

lemma write_all_blocks_emits:
  assumes ok: "file_ok w h s as n" and out: "sparse_out good (sf_block_size s) out"
  shows "\<exists>out'. write_all_blocks w h s ops out = Inr (0, out') \<and> emits good absorb (sf_block_size s) out
     (enc_list (media_of w h) (sf_block_size s) 0 (chunks h as) @ tail_skip (sf_block_size s) n (chunks h as))
     (foldl (crc_chunk (media_of w h) (sf_block_size s)) (of_crc32 out) (chunks h as)) out'"
proof -
  let ?bs = "sf_block_size s" and ?cs = "chunks h as" and ?m = "media_of w h"
  let ?e = "end_block ?bs 0 ?cs" and ?crc = "foldl (crc_chunk ?m ?bs) (of_crc32 out) ?cs"
  have bs: "?bs \<noteq> 0" and len: "length as \<le> hp_brk h" using ok bb_path_length by (auto simp: file_ok_def)
  obtain o1 where o1: "write_blocks_loop (hp_brk h) w h ?bs ops out (data_blocks (sf_list s)) 0 = Inr (o1, ?e)"
      "emits good absorb ?bs out (enc_list ?m ?bs 0 ?cs) ?crc o1"
    using write_blocks_loop_emits [OF out bs _ len, of h "data_blocks (sf_list s)" w 0] ok
    by (auto simp: file_ok_def)
  have s1: "sparse_out good ?bs o1" using o1(2) by (simp add: emits_def)
  have e: "unat ?e \<le> n" using ok by (simp add: file_ok_def)
  then have pad: "sf_len s - uint ?e * uint ?bs = int (n - unat ?e) * uint ?bs"
    using ok by (simp add: file_ok_def of_nat_diff left_diff_distrib)
  have pos: "int (n - unat ?e) * uint ?bs > 0 \<longleftrightarrow> unat ?e < n"
    using bs e uint_pos [of ?bs] by (simp add: zero_less_mult_iff uint_less_int_iff)
  obtain o2 where o2: "(if int (n - unat ?e) * uint ?bs > 0
        then bindR (write_skip_chunk ops o1 (int (n - unat ?e) * uint ?bs)) (\<lambda>(_, out). Inr out) else Inr o1) = Inr o2"
      "emits good absorb ?bs o1 (tail_skip ?bs n ?cs) (of_crc32 o1) o2"
  proof (cases "unat ?e < n")
    case True
    then show ?thesis
      using write_skip_emits [OF s1 bs, of "n - unat ?e"] that pos by (auto simp: tail_skip_def Let_def)
  next
    case False
    then show ?thesis using s1 that pos by (auto simp: emits_def sparse_out_def absorb_Nil tail_skip_def Let_def)
  qed
  have "write_all_blocks w h s ops out = Inr (0, o2)"
    unfolding write_all_blocks_def backed_block_iter_new_def o1(1) Let_def bindR_simps prod.case pad o2(1)
    by simp
  moreover have "emits good absorb ?bs out (enc_list ?m ?bs 0 ?cs @ tail_skip ?bs n ?cs) ?crc o2"
    using emits_trans [OF out o1(2) o2(2)] o1(2) by (auto simp: emits_def)
  ultimately show ?thesis by blast
qed

lemma sparse_file_write_emits:
  assumes ok: "file_ok w h s as n" and dev: "good dev"
  shows "sparse_file_write w h s ops dev True crc =
    Inr (0, absorb dev (sparse_image (media_of w h) (sf_block_size s) n crc (chunks h as)))"
proof -
  let ?bs = "sf_block_size s" and ?cs = "chunks h as" and ?m = "media_of w h"
  let ?k = "word_of_nat (total_chunks ?bs n ?cs) :: u32"
  have bs: "?bs \<noteq> 0" and sz: "sf_len s = int n * uint ?bs" using ok by (auto simp: file_ok_def)
  let ?hdr = "sparse_hdr ?bs (sf_len s) (if crc then ?k + 1 else ?k)"
  obtain o1 where o1: "output_file_init ops dev ?bs (sf_len s) True ?k crc = Inr (0, o1)"
      "sparse_out good ?bs o1" "of_dev o1 = absorb dev ?hdr" "use_crc o1 = crc" "of_crc32 o1 = 0"
    using output_file_init_ok [OF dev bs, of "sf_len s" ?k crc] dev by (simp add: sparse_out_def good_absorb)
  obtain o2 where o2: "write_all_blocks w h s ops o1 = Inr (0, o2)"
      "emits good absorb ?bs o1 (enc_list ?m ?bs 0 ?cs @ tail_skip ?bs n ?cs) (foldl (crc_chunk ?m ?bs) 0 ?cs) o2"
    using write_all_blocks_emits [OF ok o1(2)] o1(5) by auto
  have "output_file_close ops o2 = absorb (of_dev o2) (if crc then enc_crc (foldl (crc_chunk ?m ?bs) 0 ?cs) else [])"
    using o2(2) o1(4) by (subst write_sparse_end_chunk_ok) (auto simp: emits_def sparse_out_def)
  also have "\<dots> = absorb dev (sparse_image ?m ?bs n crc ?cs)"
    using o2(2) o1(3) dev sz by (simp add: emits_def sparse_image_def absorb_append good_absorb)
  finally show ?thesis
    using o1(1) o2(1) sparse_count_chunks_ok [OF ok]
    by (simp add: sparse_file_write_def output_file_open_fd_def)
qed

end

section \<open>The counting device\<close>

definition count_absorb :: "int \<Rightarrow> byte list \<Rightarrow> int" where
  "count_absorb c bs = c + int (length bs)"

definition count_forward :: "int \<Rightarrow> nat \<Rightarrow> int" where
  "count_forward c k = c + int k"

lemma callback_skip_counts: "0 \<le> off \<Longrightarrow> callback_file_skip out_counter_write c off = (0, c + off)"
proof (induction "nat off" arbitrary: c off rule: less_induct)
  case less
  show ?case
  proof (cases "off = 0")
    case False
    let ?w = "min off INT_MAX"
    have "callback_file_skip out_counter_write (c + ?w) (off - ?w) = (0, c + ?w + (off - ?w))"
      using less.prems False by (intro less.hyps) (auto simp: min_def)
    then show ?thesis
      using less.prems False by (subst callback_file_skip.simps) (simp add: out_counter_write_def Let_def)
  qed (simp add: callback_file_skip.simps)
qed

interpretation counter: plain_sink "callback_file_ops out_counter_write" "\<lambda>_. True" count_absorb count_forward
  by unfold_locales
     (simp_all add: callback_file_ops_def callback_file_write_def out_counter_write_def count_absorb_def
       count_forward_def callback_skip_counts)

lemma sparse_file_callback_eq:
  "sparse_file_callback w h s sparse crc wr priv = sparse_file_write w h s (callback_file_ops wr) priv sparse crc"
  by (simp add: sparse_file_callback_def sparse_file_write_def output_file_open_callback_def output_file_open_fd_def)

lemma sparse_file_len_eq:
  "sparse_file_len w h s sparse crc =
     bindR (sparse_file_write w h s (callback_file_ops out_counter_write) 0 sparse crc) (\<lambda>(ret, cnt).
       Inr (if ret < 0 then - 1 else cnt))"
  by (auto simp: sparse_file_len_def sparse_file_write_def output_file_open_callback_def output_file_open_fd_def
      bindR_def Let_def split: sum.splits option.splits prod.splits)

lemma sparse_file_len_image:
  assumes "file_ok w h s as n"
  shows "sparse_file_len w h s True crc =
    Inr (int (length (sparse_image (media_of w h) (sf_block_size s) n crc (chunks h as))))"
  using counter.sparse_file_write_emits [OF assms] by (simp add: sparse_file_len_eq count_absorb_def)

section \<open>Plain output to a descriptor\<close>

text \<open>The file as a function on all positions, zero beyond its end.\<close>

definition file_at :: "ofile \<Rightarrow> nat \<Rightarrow> byte" where
  "file_at f i = (if i < length (fl_bytes f) then fl_bytes f ! i else 0)"

lemma file_at_absorb:
  "file_at (file_absorb f bs) i =
     (if fl_pos f \<le> i \<and> i < fl_pos f + length bs then bs ! (i - fl_pos f) else file_at f i)"
proof (cases "bs = []")
  case False
  then have "length (put_at (fl_pos f) bs (fl_bytes f)) = max (length (fl_bytes f)) (fl_pos f + length bs)"
    by (rule length_put_at)
  then show ?thesis by (auto simp: file_at_def file_absorb_def nth_put_at)
qed (auto simp: file_at_def file_absorb_def put_at_def)

lemma file_at_forward [simp]: "file_at (file_forward f k) = file_at f"
  by (simp add: file_at_def file_forward_def fun_eq_iff)

definition plain_out :: "u32 \<Rightarrow> ofile output_file \<Rightarrow> bool" where
  "plain_out bs out \<longleftrightarrow> reliable (of_dev out) \<and> \<not> of_sparse out \<and> of_block_size out = bs
     \<and> length (fill_buf out) = unat bs"

text \<open>
  A fill chunk is written at its length, without the padding to a block that other chunks get; so
  only whole blocks of fill keep the following chunks in place.
\<close>

definition plain_ok :: "world \<Rightarrow> heap \<Rightarrow> u32 \<Rightarrow> chunk \<Rightarrow> bool" where
  "plain_ok w h bs c \<longleftrightarrow> writable w h bs c \<and> (is_fill c \<longrightarrow> unat bs dvd unat (len c))"

lemma plain_write_block:
  assumes out: "plain_out bs out" and bs: "bs \<noteq> 0" "4 dvd unat bs" "unat bs < 2147483648"
    and wr: "plain_ok w h bs (chunk_of b)"
  shows "\<exists>out'. sparse_file_write_block w h file_ops out b = Inr out' \<and> plain_out bs out'
    \<and> of_len out' = of_len out
    \<and> fl_pos (of_dev out') = fl_pos (of_dev out) + blocks bs (chunk_of b) * unat bs
    \<and> file_at (of_dev out') = file_at (file_absorb (of_dev out) (chunk_bytes (media_of w h) (chunk_of b)))"
proof (cases "is_fill (chunk_of b)")
  case True
  then obtain v where v: "bb_back b = BACKED_BLOCK_FILL v" by (auto simp: is_fill_def split: backing.splits)
  have b: "0 < unat bs" using bs by (simp add: unat_gt_0)
  have dvd: "unat bs dvd unat (bb_len b)" using True wr by (simp add: plain_ok_def)
  then have n: "blocks bs (chunk_of b) * unat bs = unat (bb_len b)"
    using b by (auto simp: blocks_cdiv mult.commute [of "cdiv _ _"] elim!: dvdE)
  have fb: "chunk_bytes (media_of w h) (chunk_of b) = fill_bytes v (unat (bb_len b))"
    using v by (simp add: chunk_bytes_def fill_bytes_def)
  from fd.write_normal_fill_chunk_ok [of out "bb_len b" v] out bs
  have "write_normal_fill_chunk file_ops out (bb_len b) v = Inr (0, out\<lparr>of_dev := file_absorb (of_dev out)
      (fill_bytes v (unat (bb_len b))), fill_buf := fill_bytes v (unat bs)\<rparr>)"
    by (simp add: plain_out_def)
  then show ?thesis
    using out v n fb
    by (simp add: sparse_file_write_block_def write_fill_chunk_def plain_out_def fd.good_absorb file_absorb_def reliable_def)
next
  case False
  have b: "0 < unat bs" using bs by (simp add: unat_gt_0)
  have fit: "unat (bb_len b) + unat bs \<le> 2147483648" and wr': "writable w h bs (chunk_of b)"
    using wr by (simp_all add: plain_ok_def writable_def)
  have le: "unat (bb_len b) \<le> unat bs * blocks bs (chunk_of b)"
    using cdiv_bounds(1) [OF b] by (simp add: blocks_cdiv)
  let ?d = "chunk_bytes (media_of w h) (chunk_of b)"
  have obs: "of_block_size out = bs" using out by (simp add: plain_out_def)
  have "write_normal_data_chunk file_ops out (bb_len b) ?d = Inr (0, out\<lparr>of_dev :=
     (let k = unat bs * blocks bs (chunk_of b) - unat (bb_len b);
          d = file_absorb (of_dev out) ?d in if k = 0 then d else file_forward d k)\<rparr>)"
    using fd.write_normal_data_chunk_ok [of out "bb_len b" ?d, unfolded obs] out bs fit
    by (simp add: plain_out_def blocks_cdiv)
  then show ?thesis
    using out le by (auto simp: write_block_data [OF wr' False] write_data_chunk_def plain_out_def Let_def
        fd.good_absorb fd.good_forward file_absorb_def file_forward_def reliable_def file_at_def mult.commute)
qed

lemma plain_write_skip:
  assumes "plain_out bs out"
  shows "\<exists>out'. write_skip_chunk file_ops out (int k) = Inr (0, out') \<and> plain_out bs out' \<and> of_len out' = of_len out
    \<and> fl_pos (of_dev out') = fl_pos (of_dev out) + k \<and> file_at (of_dev out') = file_at (of_dev out)"
  using assms fd.skip_ok [of "of_dev out" k]
  by (auto simp: write_skip_chunk_def write_normal_skip_chunk_def dev_skip_def plain_out_def fd.good_forward
      file_forward_def reliable_def file_at_def)

text \<open>The blocks of a well-formed list, from block \<open>k\<close> on.\<close>

definition starts_at :: "u32 \<Rightarrow> chunk list \<Rightarrow> bool" where
  "starts_at k cs \<longleftrightarrow> (case cs of [] \<Rightarrow> True | c # _ \<Rightarrow> k \<le> blk c)"

lemma starts_at_0 [simp]: "starts_at 0 cs"
  by (cases cs) (simp_all add: starts_at_def)

lemma next_block_le:
  assumes "chunks_ok bs (c # cs)" and "unat (blk c) + blocks bs c < 4294967296"
  shows "unat (next_block bs c) = unat (blk c) + blocks bs c" and "starts_at (next_block bs c) cs"
proof -
  show *: "unat (next_block bs c) = unat (blk c) + blocks bs c"
    using assms(2) by (simp add: next_block_def unat_word_ariths unat_of_nat)
  show "starts_at (next_block bs c) cs"
    using assms(1) * by (cases cs) (auto simp: starts_at_def chunks_ok_def before_def word_le_nat_alt)
qed

lemma plain_seek:
  assumes out: "plain_out bs out" and k: "k \<le> to" and pos: "fl_pos (of_dev out) = unat k * unat bs"
  shows "\<exists>o1. (if to > k
            then bindR (write_skip_chunk file_ops out (uint (to - k) * uint bs)) (\<lambda>(_, out). Inr out)
            else Inr out) = Inr o1 \<and> plain_out bs o1 \<and> of_len o1 = of_len out
     \<and> fl_pos (of_dev o1) = unat to * unat bs \<and> file_at (of_dev o1) = file_at (of_dev out)"
proof (cases "k < to")
  case True
  let ?n = "unat (to - k) * unat bs"
  have "int ?n = uint (to - k) * uint bs" by simp
  moreover have "unat k * unat bs + ?n = unat to * unat bs"
    using k by (simp add: unat_sub word_le_nat_alt flip: add_mult_distrib)
  ultimately show ?thesis using plain_write_skip [OF out, of ?n] True pos by auto
next
  case False
  then show ?thesis using out k pos by auto
qed

lemma image_head_only:
  assumes ok: "chunks_ok bs (c # cs)" and "c_start bs c \<le> i \<and> i < c_end bs c"
  shows "image_at m bs cs i = None"
proof (rule image_outside)
  fix d assume "d \<in> set cs"
  then have "c_end bs c \<le> c_start bs d" using ok by (intro before_disjoint) (auto simp: chunks_ok_def)
  then show "\<not> (c_start bs d \<le> i \<and> i < c_end bs d)" using assms(2) by simp
qed

lemma plain_write_loop:
  assumes "plain_out bs out" and "chunks_ok bs (chunks h as)" and "unat bs < 2147483648"
    and "bb_path h p as None" and "length as \<le> fuel"
    and "\<forall>c\<in>set (chunks h as). plain_ok w h bs c \<and> unat (blk c) + blocks bs c < 4294967296"
    and "starts_at k (chunks h as)" and "fl_pos (of_dev out) = unat k * unat bs"
  shows "\<exists>out'. write_blocks_loop fuel w h bs file_ops out p k = Inr (out', end_block bs k (chunks h as))
    \<and> plain_out bs out' \<and> of_len out' = of_len out
    \<and> fl_pos (of_dev out') = unat (end_block bs k (chunks h as)) * unat bs
    \<and> (\<forall>i. file_at (of_dev out') i = (case image_at (media_of w h) bs (chunks h as) i of
          Some b \<Rightarrow> b | None \<Rightarrow> file_at (of_dev out) i))"
  using assms
proof (induction as arbitrary: out p fuel k)
  case Nil
  then show ?case by auto
next
  case (Cons a as)
  then obtain b f where b: "p = Some a" "hp_cells h a = Some b" "bb_path h (bb_next b) as None"
    and f: "fuel = Suc f" by (cases fuel) (auto split: option.splits)
  let ?c = "chunk_of b" and ?m = "media_of w h"
  have ok: "chunks_ok bs (?c # chunks h as)" using Cons.prems(2) b by simp
  have bs: "bs \<noteq> 0" "4 dvd unat bs" using ok by (auto simp: chunks_ok_def)
  have wr: "plain_ok w h bs ?c" "unat (blk ?c) + blocks bs ?c < 4294967296" using Cons.prems(6) b by auto
  note nx = next_block_le [OF ok wr(2)]
  have k: "k \<le> bb_block b" using Cons.prems(7) b by (simp add: starts_at_def)
  obtain o1 where o1: "(if bb_block b > k
            then bindR (write_skip_chunk file_ops out (uint (bb_block b - k) * uint bs)) (\<lambda>(_, out). Inr out)
            else Inr out) = Inr o1" "plain_out bs o1" "of_len o1 = of_len out"
      "fl_pos (of_dev o1) = unat (bb_block b) * unat bs" "file_at (of_dev o1) = file_at (of_dev out)"
    using plain_seek [OF Cons.prems(1) k] Cons.prems(8) by blast
  obtain o2 where o2: "sparse_file_write_block w h file_ops o1 b = Inr o2" "plain_out bs o2" "of_len o2 = of_len out"
      "fl_pos (of_dev o2) = unat (next_block bs ?c) * unat bs"
      "file_at (of_dev o2) = file_at (file_absorb (of_dev o1) (chunk_bytes ?m ?c))"
    using plain_write_block [OF o1(2) bs Cons.prems(3) wr(1)] o1(3,4) nx(1) by (auto simp: add_mult_distrib)
  have q: "div_round_up (bb_len b) bs = Inr (word_of_nat (blocks bs ?c))"
    using div_round_up_blocks [of bs ?c] bs wr by (simp add: plain_ok_def writable_def)
  obtain o3 where o3: "write_blocks_loop f w h bs file_ops o2 (bb_next b) (next_block bs ?c)
        = Inr (o3, end_block bs (next_block bs ?c) (chunks h as))" "plain_out bs o3" "of_len o3 = of_len out"
      "fl_pos (of_dev o3) = unat (end_block bs (next_block bs ?c) (chunks h as)) * unat bs"
      "\<forall>i. file_at (of_dev o3) i = (case image_at ?m bs (chunks h as) i of Some b \<Rightarrow> b | None \<Rightarrow> file_at (of_dev o2) i)"
    using Cons.IH [OF o2(2) _ Cons.prems(3) b(3), of f "next_block bs ?c"] Cons.prems(5,6) f o2 ok nx
    by (auto simp: chunks_ok_def)
  have "file_at (of_dev o3) i = (case image_at ?m bs (?c # chunks h as) i of
      Some b \<Rightarrow> b | None \<Rightarrow> file_at (of_dev out) i)" for i
    using image_head_only [OF ok, of i ?m] o3(5) o2(5) o1(4,5)
    by (auto simp: file_at_absorb c_start_def c_end_def chunk_bytes_def split: option.splits)
  moreover have "write_blocks_loop fuel w h bs file_ops out p k = Inr (o3, end_block bs k (chunks h (a # as)))"
    using b f o1(1) o2(1) o3(1) q by (simp add: next_block_def)
  ultimately show ?case using o3(2-4) b by auto
qed

lemma close_plain:
  assumes "plain_out bs out" and "of_len out = int k"
  shows "fl_bytes (output_file_close file_ops out) = map (file_at (of_dev out)) [0..<k]"
  using assms
  by (auto simp: output_file_close_def plain_out_def write_normal_end_chunk_def dev_pad_def file_ops_def
      file_pad_def posix_ftruncate_def file_at_def nth_append intro!: nth_equalityI)

text \<open>
  The whole image: a plain write to an empty file produces the bytes of the image, with zeros where
  the image has none, up to the length of the sparse file.
\<close>

lemma sparse_file_write_plain:
  assumes ok: "file_ok w h s as n" and cs: "chunks_ok (sf_block_size s) (chunks h as)"
    and bs: "unat (sf_block_size s) < 2147483648"
    and all: "\<forall>c\<in>set (chunks h as). plain_ok w h (sf_block_size s) c
      \<and> unat (blk c) + blocks (sf_block_size s) c < 4294967296"
    and f: "reliable f" "fl_bytes f = []" "fl_pos f = 0"
  shows "\<exists>f'. sparse_file_write w h s file_ops f False crc = Inr (0, f')
    \<and> fl_bytes f' = map (\<lambda>i. case image_at (media_of w h) (sf_block_size s) (chunks h as) i of Some b \<Rightarrow> b | None \<Rightarrow> 0)
        [0..<n * unat (sf_block_size s)]"
proof -
  let ?bs = "sf_block_size s" and ?cs = "chunks h as" and ?m = "media_of w h"
  let ?e = "unat (end_block ?bs 0 ?cs)"
  obtain nch where cnt: "sparse_count_chunks h s = Inr nch" using sparse_count_chunks_ok [OF ok] by blast
  obtain o1 where o1: "output_file_init file_ops f ?bs (sf_len s) False nch crc = Inr (0, o1)"
      "plain_out ?bs o1" "of_dev o1 = f" "of_len o1 = sf_len s"
    using f(1) by (simp add: output_file_init_def plain_out_def)
  have path: "bb_path h (data_blocks (sf_list s)) as None" "length as \<le> hp_brk h"
    using ok bb_path_length by (auto simp: file_ok_def)
  obtain o2 where o2: "write_blocks_loop (hp_brk h) w h ?bs file_ops o1 (data_blocks (sf_list s)) 0
        = Inr (o2, end_block ?bs 0 ?cs)" "plain_out ?bs o2" "of_len o2 = sf_len s"
      "\<forall>i. file_at (of_dev o2) i = (case image_at ?m ?bs ?cs i of Some b \<Rightarrow> b | None \<Rightarrow> file_at f i)"
    using plain_write_loop [OF o1(2) cs bs path, of w 0] all o1(3,4) f(3)
    by auto
  have e: "?e \<le> n" and sz: "sf_len s = int (n * unat ?bs)" using ok by (auto simp: file_ok_def)
  define k where "k = (n - ?e) * unat ?bs"
  have pad: "sf_len s - uint (end_block ?bs 0 ?cs) * uint ?bs = int k"
    using sz e by (simp add: of_nat_diff left_diff_distrib k_def)
  obtain o3 where o3: "(if int k > 0
        then bindR (write_skip_chunk file_ops o2 (int k)) (\<lambda>(_, out). Inr out) else Inr o2) = Inr o3"
      "plain_out ?bs o3" "of_len o3 = sf_len s" "file_at (of_dev o3) = file_at (of_dev o2)"
    using plain_write_skip [OF o2(2), of k] o2(2,3) that by (cases "int k > 0") auto
  have wr: "write_all_blocks w h s file_ops o1 = Inr (0, o3)"
    unfolding write_all_blocks_def backed_block_iter_new_def o2(1) Let_def bindR_simps prod.case pad o3(1)
    by simp
  let ?f = "output_file_close file_ops o3"
  have "fl_bytes ?f = map (file_at (of_dev o3)) [0..<n * unat ?bs]"
    using o3(2,3) unfolding sz by (rule close_plain)
  moreover have "file_at f i = 0" for i using f(2) by (simp add: file_at_def)
  ultimately show ?thesis
    using cnt o1(1) wr o2(4) o3(4)
    by (simp add: sparse_file_write_def output_file_open_fd_def cong: option.case_cong)
qed

section \<open>Properties\<close>

text \<open>A small sparse file of six blocks of four bytes: two blocks of data at block 1, one block of fill at block 4.\<close>

definition demo_heap :: heap where
  "demo_heap = \<lparr>hp_cells = [0 \<mapsto> \<lparr>bb_block = 1, bb_len = 6, bb_back = BACKED_BLOCK_DATA 0 0, bb_next = Some 1\<rparr>,
      1 \<mapsto> \<lparr>bb_block = 4, bb_len = 4, bb_back = BACKED_BLOCK_FILL 7, bb_next = None\<rparr>],
     hp_strs = Map.empty, hp_brk = Suc (Suc 0), hp_oom = []\<rparr>"

definition demo_file :: sparse_file where
  "demo_file = \<lparr>sf_block_size = 4, sf_len = 24, sf_verbose = False,
     sf_list = \<lparr>data_blocks = Some 0, last_used = None, bbl_block_size = 4\<rparr>\<rparr>"

definition demo_world :: world where
  "demo_world = \<lparr>w_buf = (\<lambda>b k. word_of_nat k), w_open = (\<lambda>_. - 1), w_mmap = (\<lambda>_ _ _. 0), w_fd = (\<lambda>_ _. 0)\<rparr>"

definition new_file :: ofile where
  "new_file = \<lparr>fl_bytes = [], fl_pos = 0, fl_io = []\<rparr>"

lemma demo_chunks: "chunks demo_heap [0, 1] = [(1, 6, BACKED_BLOCK_DATA 0 0), (4, 4, BACKED_BLOCK_FILL 7)]"
  by (simp add: demo_heap_def chunk_of_def)

lemma demo_ok: "file_ok demo_world demo_heap demo_file [0, 1] 6"
  unfolding file_ok_def demo_chunks
  by (auto simp: demo_heap_def demo_file_def heap_ok_def writable_def next_block_def blocks_def split: if_splits)







lemma upt_0_4: "[0..<4] = [0, 1, 2, 3 :: nat]" and replicate_2: "replicate 2 x = [x, x]"
  by (simp_all add: upt_rec numeral_2_eq_2)

text \<open>
  A fill chunk that ends within a block is not padded in a plain image: what follows it is written too
  early.  Here the data of block 1 of a file with blocks of four bytes lands at byte 2.
\<close>

lemma partial_fill_misplaces:
  "map_sum id (\<lambda>(ret, f). (ret, fl_bytes f)) (sparse_file_write demo_world
     (demo_heap\<lparr>hp_cells := [0 \<mapsto> \<lparr>bb_block = 0, bb_len = 2, bb_back = BACKED_BLOCK_FILL 0x9090909, bb_next = Some 1\<rparr>,
        1 \<mapsto> \<lparr>bb_block = 1, bb_len = 4, bb_back = BACKED_BLOCK_DATA 0 1, bb_next = None\<rparr>]\<rparr>)
     (demo_file\<lparr>sf_len := 8\<rparr>) file_ops new_file False False) = Inr (0, [9, 9, 1, 2, 3, 4, 0, 0])"
  by (simp add: sparse_file_write_def sparse_count_chunks_def demo_file_def demo_heap_def demo_world_def new_file_def
     backed_block_iter_new_def div_round_up_def output_file_open_fd_def output_file_init_def dev_write_def file_ops_def file_write_def
     posix_write_def next_io_def Let_def put_at_def write_all_blocks_def sparse_file_write_block_def write_data_chunk_def
     write_normal_data_chunk_def align_up_def write_fill_chunk_def write_normal_fill_chunk_def normal_fill_loop.simps
     output_file_close_def write_normal_end_chunk_def dev_pad_def file_pad_def posix_ftruncate_def u32_le_def
     upt_0_4 replicate_2)

lemma write_all_blocks_ret: "write_all_blocks w h s ops out = Inr (ret, out') \<Longrightarrow> ret = 0"
  by (auto simp: write_all_blocks_def Let_def bindR_eq_Inr_iff)

text \<open>
  C25. Write errors are lost: whatever the device does after the header, \<^verbatim>\<open>sparse_file_write\<close> reports
  success; the only error it ever returns is the one for a header that could not be written.
\<close>

theorem write_errors_lost:
  "case sparse_file_write w h s ops dev sparse crc of Inl _ \<Rightarrow> True | Inr (ret, dev') \<Rightarrow>
     ret = 0 \<or> (ret = - ENOMEM \<and> sparse
       \<and> (\<exists>cnt out. output_file_init ops dev (sf_block_size s) (sf_len s) sparse cnt crc = Inr out \<and> fst out < 0))"
proof (cases "sparse_file_write w h s ops dev sparse crc")
  case (Inr r)
  obtain ret dev' where r: "r = (ret, dev')" by (cases r)
  obtain cnt ret1 out where o: "output_file_init ops dev (sf_block_size s) (sf_len s) sparse cnt crc = Inr (ret1, out)"
      "ret1 < 0 \<and> ret = - ENOMEM \<or> (\<exists>o'. write_all_blocks w h s ops out = Inr (ret, o'))"
    using Inr r by (auto simp: sparse_file_write_def output_file_open_fd_def bindR_eq_Inr_iff split: if_splits)
  have plain: "fst out = 0" if "output_file_init ops dev (sf_block_size s) (sf_len s) False cnt crc = Inr out" for cnt out
    using that by (auto simp: output_file_init_def)
  show ?thesis
    using Inr r o plain [of cnt "(ret1, out)"] by (cases sparse) (auto dest: write_all_blocks_ret)
qed simp

text \<open>For instance, a disk that is full after the header: success is reported for an image without its chunks.\<close>

lemma full_disk_reports_success:
  "map_sum id (\<lambda>(ret, f). (ret, length (fl_bytes f))) (sparse_file_write demo_world demo_heap demo_file file_ops
      (new_file\<lparr>fl_io := [IoFull, IoFail 27, IoFail 27, IoFail 27, IoFail 27, IoFail 27]\<rparr>) True False) = Inr (0, 28)"
  by (simp add: sparse_file_write_def sparse_count_chunks_def demo_file_def demo_heap_def demo_world_def new_file_def
     backed_block_iter_new_def div_round_up_def output_file_open_fd_def output_file_init_def dev_write_def file_ops_def file_write_def
     posix_write_def next_io_def Let_def put_at_def write_all_blocks_def write_skip_chunk_def write_sparse_skip_chunk_def
     sparse_file_write_block_def write_data_chunk_def write_sparse_data_chunk_def align_up_def write_fill_chunk_def write_sparse_fill_chunk_def
     output_file_close_def write_sparse_end_chunk_def nonneg_sdiv sparse_header_bytes_def u32_le_def)

text \<open>
  A sparse file whose last chunk reaches beyond its length cannot be written: once the chunks are
  out, \<^verbatim>\<open>write_all_blocks\<close> fails its assertion and the program aborts.  This is the case for every image
  whose length is no multiple of the block size and whose last block holds data.
\<close>

theorem unaligned_length_aborts:
  assumes "heap_ok h" and "bb_path h (data_blocks (sf_list s)) as None" and "sf_block_size s \<noteq> 0"
    and "\<forall>c\<in>set (chunks h as). writable w h (sf_block_size s) c"
    and "sf_len s < int (unat (end_block (sf_block_size s) 0 (chunks h as)) * unat (sf_block_size s))"
    and "reliable f"
  shows "sparse_file_write w h s file_ops f True crc = Inl AssertFailed"
proof -
  let ?bs = "sf_block_size s" and ?cs = "chunks h as"
  have len: "length as \<le> hp_brk h" using assms(1,2) by (rule bb_path_length)
  have small: "\<forall>c\<in>set ?cs. unat (len c) + unat ?bs \<le> 4294967296" using assms(4) by (fastforce simp: writable_def)
  obtain cnt where cnt: "sparse_count_chunks h s = Inr cnt"
    using count_loop_path [OF assms(3,2) len small, of 0 0] assms(3)
    by (simp add: sparse_count_chunks_def backed_block_iter_new_def)
  obtain o1 where o1: "output_file_init file_ops f ?bs (sf_len s) True cnt crc = Inr (0, o1)" "sparse_out reliable ?bs o1"
    using fd.output_file_init_ok [OF assms(6,3)] assms(6) by (simp add: sparse_out_def fd.good_absorb)
  obtain o2 where "write_blocks_loop (hp_brk h) w h ?bs file_ops o1 (data_blocks (sf_list s)) 0 = Inr (o2, end_block ?bs 0 ?cs)"
    using fd.write_blocks_loop_emits [OF o1(2) assms(3,2) len assms(4), of 0] by blast
  then show ?thesis
    using cnt o1(1) assms(5)
    by (simp add: sparse_file_write_def output_file_open_fd_def write_all_blocks_def backed_block_iter_new_def Let_def)
qed

theorem unaligned_length_aborts_witness:
  "sparse_file_write demo_world demo_heap (demo_file\<lparr>sf_len := 18\<rparr>) file_ops new_file True False = Inl AssertFailed"
proof (rule unaligned_length_aborts [of _ _ "[0, 1]"])
  show "heap_ok demo_heap" "bb_path demo_heap (data_blocks (sf_list (demo_file\<lparr>sf_len := 18\<rparr>))) [0, 1] None"
    "\<forall>c\<in>set (chunks demo_heap [0, 1]). writable demo_world demo_heap (sf_block_size (demo_file\<lparr>sf_len := 18\<rparr>)) c"
    using demo_ok by (auto simp: file_ok_def demo_file_def)
  show "sf_len (demo_file\<lparr>sf_len := 18\<rparr>) < int (unat (end_block (sf_block_size (demo_file\<lparr>sf_len := 18\<rparr>)) 0
      (chunks demo_heap [0, 1])) * unat (sf_block_size (demo_file\<lparr>sf_len := 18\<rparr>)))"
    unfolding demo_chunks by (simp add: demo_file_def next_block_def blocks_def)
qed (simp_all add: demo_file_def new_file_def reliable_def)

end
