(* ===== verification/Sparse_Read.thy ===== *)
theory Sparse_Read
  imports Sparse_File
begin

text \<open>
  Reading images back, \<^verbatim>\<open>libsparse/sparse_read.c\<close>: the interpreter of the chunks of a sparse image with
  its optional checksum, the reader of plain images, and the two import functions.

  The functions share a state: the heap of the block list, the sparse file under construction, the
  open file that is read, and the running checksum behind \<^verbatim>\<open>crc_ptr\<close> (none when the pointer is
  \<^verbatim>\<open>NULL\<close>).  \<open>fd\<close> is the number of the descriptor, which ends up in the chunks.  The messages of
  \<^verbatim>\<open>verbose_error\<close> are left out.
\<close>

record reader =
  rd_heap :: heap
  rd_s :: sparse_file
  rd_f :: ofile
  rd_crc :: "u32 option"

abbreviation COPY_BUF_SIZE :: nat where "COPY_BUF_SIZE \<equiv> 1048576"

section \<open>Chunks\<close>

text \<open>The checksum loop of \<^verbatim>\<open>process_raw_chunk\<close>: reads the data in pieces of at most 1 MiB.\<close>

function raw_crc_loop :: "ofile \<Rightarrow> u32 \<Rightarrow> nat \<Rightarrow> (int + u32) \<times> ofile" where
  "raw_crc_loop f crc n =
    (if n = 0 then (Inr crc, f)
     else
       let k = min n COPY_BUF_SIZE in
       (case read_all f k of
          (Inl e, f) \<Rightarrow> (Inl e, f)
        | (Inr d, f) \<Rightarrow> raw_crc_loop f (sparse_crc32 crc d) (n - k)))"
  by pat_completeness auto
termination by (relation "measure (\<lambda>(f, crc, n). n)") (auto simp: Let_def)

declare raw_crc_loop.simps [simp del]

definition add_to_file ::
  "reader \<Rightarrow> (heap \<Rightarrow> sparse_file \<Rightarrow> (int \<times> heap \<times> sparse_file) res) \<Rightarrow> (int \<times> reader) res" where
  "add_to_file r add = bindR (add (rd_heap r) (rd_s r)) (\<lambda>(ret, h, s). Inr (ret, r\<lparr>rd_heap := h, rd_s := s\<rparr>))"

definition process_raw_chunk ::
  "int \<Rightarrow> reader \<Rightarrow> u32 \<Rightarrow> int \<Rightarrow> u32 \<Rightarrow> u32 \<Rightarrow> (int \<times> reader) res" where
  "process_raw_chunk fd r chunk_size offset blks block =
    (let bs = sf_block_size (rd_s r); n = blks * bs in
     bindR (assertR (bs \<noteq> 0) DivByZero) (\<lambda>_.
     if chunk_size mod bs \<noteq> 0 then Inr (- EINVAL, r)
     else if chunk_size div bs \<noteq> blks then Inr (- EINVAL, r)
     else
       bindR (add_to_file r (\<lambda>h s. sparse_file_add_fd h s fd offset n block)) (\<lambda>(ret, r).
       if ret < 0 then Inr (ret, r)
       else
         (case rd_crc r of
            Some crc \<Rightarrow>
              (case raw_crc_loop (rd_f r) crc (unat n) of
                 (Inl e, f) \<Rightarrow> Inr (e, r\<lparr>rd_f := f\<rparr>)
               | (Inr crc, f) \<Rightarrow> Inr (0, r\<lparr>rd_f := f, rd_crc := Some crc\<rparr>))
          | None \<Rightarrow> (case lseek_cur (rd_f r) (uint n) of (_, f) \<Rightarrow> Inr (0, r\<lparr>rd_f := f\<rparr>))))))"

text \<open>The checksum loops over a copy buffer that holds a pattern.\<close>

function buf_crc_loop :: "byte list \<Rightarrow> u32 \<Rightarrow> nat \<Rightarrow> u32" where
  "buf_crc_loop buf crc n =
    (if n = 0 then crc
     else let k = min n COPY_BUF_SIZE in buf_crc_loop buf (sparse_crc32 crc (take k buf)) (n - k))"
  by pat_completeness auto
termination by (relation "measure (\<lambda>(buf, crc, n). n)") (auto simp: Let_def)

declare buf_crc_loop.simps [simp del]

text \<open>The length handed to \<^verbatim>\<open>sparse_file_add_fill\<close> is an \<^verbatim>\<open>int64_t\<close> converted to \<^verbatim>\<open>unsigned int\<close>.\<close>

definition process_fill_chunk :: "reader \<Rightarrow> u32 \<Rightarrow> u32 \<Rightarrow> u32 \<Rightarrow> (int \<times> reader) res" where
  "process_fill_chunk r chunk_size blks block =
    (let n = uint blks * uint (sf_block_size (rd_s r)) in
     if chunk_size \<noteq> 4 then Inr (- EINVAL, r)
     else
       (case read_all (rd_f r) 4 of
          (Inl e, f) \<Rightarrow> Inr (e, r\<lparr>rd_f := f\<rparr>)
        | (Inr d, f) \<Rightarrow>
            let fill_val = u32_of_le d in
            bindR (add_to_file (r\<lparr>rd_f := f\<rparr>)
                     (\<lambda>h s. sparse_file_add_fill h s fill_val (word_of_int n) block)) (\<lambda>(ret, r).
            if ret < 0 then Inr (ret, r)
            else Inr (0, r\<lparr>rd_crc := map_option (\<lambda>crc.
                   buf_crc_loop (concat (replicate (COPY_BUF_SIZE div 4) (u32_le fill_val))) crc (nat n)) (rd_crc r)\<rparr>))))"

definition process_skip_chunk :: "reader \<Rightarrow> u32 \<Rightarrow> u32 \<Rightarrow> int \<times> reader" where
  "process_skip_chunk r chunk_size blks =
    (if chunk_size \<noteq> 0 then (- EINVAL, r)
     else
       let n = uint blks * uint (sf_block_size (rd_s r)) in
       (0, r\<lparr>rd_crc := map_option (\<lambda>crc. buf_crc_loop (replicate COPY_BUF_SIZE 0) crc (nat n)) (rd_crc r)\<rparr>))"

definition process_crc32_chunk :: "reader \<Rightarrow> u32 \<Rightarrow> u32 \<Rightarrow> int \<times> reader" where
  "process_crc32_chunk r chunk_size crc32 =
    (if chunk_size \<noteq> 4 then (- EINVAL, r)
     else
       (case read_all (rd_f r) 4 of
          (Inl e, f) \<Rightarrow> (e, r\<lparr>rd_f := f\<rparr>)
        | (Inr d, f) \<Rightarrow> (if u32_of_le d \<noteq> crc32 then - EINVAL else 0, r\<lparr>rd_f := f\<rparr>)))"

text \<open>
  \<^verbatim>\<open>process_chunk\<close>: the number of blocks of the chunk as an \<^verbatim>\<open>int\<close>, or a negative error.  A checksum
  chunk dereferences \<^verbatim>\<open>crc_ptr\<close> whether or not it is set; an unknown chunk type is no error.
\<close>

definition process_chunk ::
  "int \<Rightarrow> reader \<Rightarrow> int \<Rightarrow> u32 \<Rightarrow> chunk_header \<Rightarrow> u32 \<Rightarrow> (int \<times> reader) res" where
  "process_chunk fd r offset chunk_hdr_sz hdr cur_block =
    (let chunk_data_size = ch_total_sz hdr - chunk_hdr_sz;
         done = (\<lambda>(ret, r). Inr (if ret < 0 then ret else to_int (ch_chunk_sz hdr), r)) in
     if ch_chunk_type hdr = CHUNK_TYPE_RAW then
       bindR (process_raw_chunk fd r chunk_data_size offset (ch_chunk_sz hdr) cur_block) done
     else if ch_chunk_type hdr = CHUNK_TYPE_FILL then
       bindR (process_fill_chunk r chunk_data_size (ch_chunk_sz hdr) cur_block) done
     else if ch_chunk_type hdr = CHUNK_TYPE_DONT_CARE then
       (case process_skip_chunk r chunk_data_size (ch_chunk_sz hdr) of (ret, r) \<Rightarrow>
          if chunk_data_size \<noteq> 0 \<and> ret < 0 then Inr (ret, r) else Inr (to_int (ch_chunk_sz hdr), r))
     else if ch_chunk_type hdr = CHUNK_TYPE_CRC32 then
       (case rd_crc r of None \<Rightarrow> Inl NullDeref
        | Some crc \<Rightarrow> (case process_crc32_chunk r chunk_data_size crc of (ret, r) \<Rightarrow>
            Inr (if ret < 0 then ret else 0, r)))
     else Inr (0, r))"

section \<open>Images\<close>

text \<open>The loop over the chunks; \<open>n\<close> counts those that are left.\<close>

fun read_chunks_loop :: "nat \<Rightarrow> int \<Rightarrow> reader \<Rightarrow> u16 \<Rightarrow> u32 \<Rightarrow> (int \<times> u32 \<times> reader) res" where
  "read_chunks_loop 0 fd r chunk_hdr_sz cur_block = Inr (0, cur_block, r)"
| "read_chunks_loop (Suc n) fd r chunk_hdr_sz cur_block =
     (case read_all (rd_f r) CHUNK_HEADER_LEN of
        (Inl e, f) \<Rightarrow> Inr (e, cur_block, r\<lparr>rd_f := f\<rparr>)
      | (Inr d, f) \<Rightarrow>
          let f = (if unat chunk_hdr_sz > CHUNK_HEADER_LEN
                   then snd (lseek_cur f (uint chunk_hdr_sz - 12)) else f) in
          (case lseek_cur f 0 of (offset, f) \<Rightarrow>
             bindR (process_chunk fd (r\<lparr>rd_f := f\<rparr>) offset (ucast chunk_hdr_sz) (chunk_header_of d) cur_block)
               (\<lambda>(ret, r).
               if ret < 0 then Inr (ret, cur_block, r)
               else read_chunks_loop n fd r chunk_hdr_sz (cur_block + word_of_int ret))))"

text \<open>
  The buffer \<^verbatim>\<open>copybuf\<close> is a static variable: the first call allocates it and it is never released.
  The argument \<open>cb\<close> of the readers says whether an earlier call has allocated it already.
\<close>

definition sparse_file_read_sparse :: "bool \<Rightarrow> int \<Rightarrow> heap \<Rightarrow> sparse_file \<Rightarrow> ofile \<Rightarrow> bool \<Rightarrow> (int \<times> reader) res" where
  "sparse_file_read_sparse cb fd h s f crc =
    (let r = \<lparr>rd_heap = h, rd_s = s, rd_f = f, rd_crc = (if crc then Some 0 else None)\<rparr> in
     case (if cb then (True, h) else alloc_ok h) of (ok, h) \<Rightarrow>
     let r = r\<lparr>rd_heap := h\<rparr> in
     if \<not> ok then Inr (- ENOMEM, r)
     else
       (case read_all f SPARSE_HEADER_LEN of
          (Inl e, f) \<Rightarrow> Inr (e, r\<lparr>rd_f := f\<rparr>)
        | (Inr d, f) \<Rightarrow>
            let hdr = sparse_header_of d; r = r\<lparr>rd_f := f\<rparr> in
            if sh_magic hdr \<noteq> SPARSE_HEADER_MAGIC then Inr (- EINVAL, r)
            else if sh_major_version hdr \<noteq> 1 then Inr (- EINVAL, r)
            else if unat (sh_file_hdr_sz hdr) < SPARSE_HEADER_LEN then Inr (- EINVAL, r)
            else if unat (sh_chunk_hdr_sz hdr) < CHUNK_HEADER_LEN then Inr (- EINVAL, r)
            else
              let r = (if unat (sh_file_hdr_sz hdr) > SPARSE_HEADER_LEN
                       then r\<lparr>rd_f := snd (lseek_cur f (uint (sh_file_hdr_sz hdr) - 28))\<rparr> else r) in
              bindR (read_chunks_loop (unat (sh_total_chunks hdr)) fd r (sh_chunk_hdr_sz hdr) 0)
                (\<lambda>(ret, cur_block, r).
                if ret < 0 then Inr (ret, r)
                else if sh_total_blks hdr \<noteq> cur_block then Inr (- EINVAL, r)
                else Inr (0, r))))"

text \<open>
  The loop of \<^verbatim>\<open>sparse_file_read_normal\<close>: a block all of whose words are equal becomes a fill chunk, any
  other a chunk that refers to the file.  The results of the two add functions are not looked at.
  With a block size of 0 the loop does not end.
\<close>

definition same_words :: "u32 \<Rightarrow> byte list \<Rightarrow> bool" where
  "same_words bs buf = list_all (\<lambda>i. u32_of_le (drop (4 * i) buf) = u32_of_le buf) [1..<unat bs div 4]"

function read_normal_loop :: "int \<Rightarrow> reader \<Rightarrow> u32 \<Rightarrow> int \<Rightarrow> int \<Rightarrow> (int \<times> reader) res" where
  "read_normal_loop fd r block remain offset =
    (if remain \<le> 0 then Inr (0, r)
     else if sf_block_size (rd_s r) = 0 then Inl Diverges
     else
       let bs = sf_block_size (rd_s r); to_read = (if remain < uint bs then word_of_int remain else bs) in
       (case read_all (rd_f r) (unat to_read) of
          (Inl e, f) \<Rightarrow> Inr (e, r\<lparr>rd_f := f\<rparr>)
        | (Inr buf, f) \<Rightarrow>
            (case add_to_file (r\<lparr>rd_f := f\<rparr>)
                (if to_read = bs \<and> same_words bs buf
                 then (\<lambda>h s. sparse_file_add_fill h s (u32_of_le buf) to_read block)
                 else (\<lambda>h s. sparse_file_add_fd h s fd offset to_read block)) of
               Inl e \<Rightarrow> Inl e
             | Inr (_, r') \<Rightarrow>
                 read_normal_loop fd r' (block + 1) (remain - uint to_read) (offset + uint to_read))))"
  by pat_completeness auto
termination
proof (relation "measure (\<lambda>(fd, r, block, remain, offset). nat remain)", goal_cases)
  case (2 fd r block remain offset bs to_read)
  have "0 < uint bs" using 2 uint_pos by blast
  then have "0 < uint to_read"
    using 2 uint_lt2p [of bs] by (auto simp: uint_word_of_int split: if_splits)
  then show ?case using 2 by auto
qed simp

declare read_normal_loop.simps [simp del]

definition sparse_file_read_normal :: "int \<Rightarrow> heap \<Rightarrow> sparse_file \<Rightarrow> ofile \<Rightarrow> (int \<times> reader) res" where
  "sparse_file_read_normal fd h s f =
    (case alloc_ok h of (ok, h) \<Rightarrow>
     let r = \<lparr>rd_heap = h, rd_s = s, rd_f = f, rd_crc = None\<rparr> in
     if \<not> ok then Inr (- ENOMEM, r) else read_normal_loop fd r 0 (sf_len s) 0)"

definition sparse_file_read :: "bool \<Rightarrow> int \<Rightarrow> heap \<Rightarrow> sparse_file \<Rightarrow> ofile \<Rightarrow> bool \<Rightarrow> bool \<Rightarrow> (int \<times> reader) res" where
  "sparse_file_read cb fd h s f sparse crc =
    (if crc \<and> \<not> sparse then Inr (- EINVAL, \<lparr>rd_heap = h, rd_s = s, rd_f = f, rd_crc = None\<rparr>)
     else if sparse then sparse_file_read_sparse cb fd h s f crc
     else sparse_file_read_normal fd h s f)"

section \<open>Import\<close>

definition sparse_file_import ::
  "bool \<Rightarrow> int \<Rightarrow> heap \<Rightarrow> ofile \<Rightarrow> bool \<Rightarrow> bool \<Rightarrow> (sparse_file option \<times> heap \<times> ofile) res" where
  "sparse_file_import cb fd h f verbose crc =
    (case read_all f SPARSE_HEADER_LEN of
       (Inl e, f) \<Rightarrow> Inr (None, h, f)
     | (Inr d, f) \<Rightarrow>
         let hdr = sparse_header_of d in
         if sh_magic hdr \<noteq> SPARSE_HEADER_MAGIC then Inr (None, h, f)
         else if sh_major_version hdr \<noteq> 1 then Inr (None, h, f)
         else if unat (sh_file_hdr_sz hdr) < SPARSE_HEADER_LEN then Inr (None, h, f)
         else if unat (sh_chunk_hdr_sz hdr) < CHUNK_HEADER_LEN then Inr (None, h, f)
         else
           bindR (sparse_file_new h (sh_blk_sz hdr) (uint (sh_total_blks hdr) * uint (sh_blk_sz hdr))) (\<lambda>(s, h).
           case s of None \<Rightarrow> Inr (None, h, f)
           | Some s \<Rightarrow>
             (case lseek_set f 0 of (ret, f) \<Rightarrow>
               if ret < 0 then bindR (sparse_file_destroy h s) (\<lambda>h. Inr (None, h, f))
               else
                 bindR (sparse_file_read cb fd h (s\<lparr>sf_verbose := verbose\<rparr>) f True crc) (\<lambda>(ret, r).
                 if ret < 0 then bindR (sparse_file_destroy (rd_heap r) (rd_s r)) (\<lambda>h. Inr (None, h, rd_f r))
                 else Inr (Some (rd_s r), rd_heap r, rd_f r)))))"

definition sparse_file_import_auto ::
  "bool \<Rightarrow> int \<Rightarrow> heap \<Rightarrow> ofile \<Rightarrow> bool \<Rightarrow> (sparse_file option \<times> heap \<times> ofile) res" where
  "sparse_file_import_auto cb fd h f crc =
     bindR (sparse_file_import cb fd h f True crc) (\<lambda>(s, h, f).
     case s of Some s \<Rightarrow> Inr (Some s, h, f)
     | None \<Rightarrow>
         (case lseek_end f 0 of (sz, f) \<Rightarrow>
           if sz < 0 then Inr (None, h, f)
           else
             let f = snd (lseek_set f 0) in
             bindR (sparse_file_new h 4096 sz) (\<lambda>(s, h).
             case s of None \<Rightarrow> Inr (None, h, f)
             | Some s \<Rightarrow>
               bindR (sparse_file_read_normal fd h s f) (\<lambda>(ret, r).
               if ret < 0 then bindR (sparse_file_destroy (rd_heap r) (rd_s r)) (\<lambda>h. Inr (None, h, rd_f r))
               else Inr (Some (rd_s r), rd_heap r, rd_f r)))))"

section \<open>The reader's view of the file\<close>

text \<open>
  \<open>reading B p f\<close>: the file holds the bytes \<open>B\<close>, stands at \<open>p\<close>, and its coming reads may be short but
  do not fail.
\<close>

definition reading :: "byte list \<Rightarrow> nat \<Rightarrow> ofile \<Rightarrow> bool" where
  "reading B p f \<longleftrightarrow> fl_bytes f = B \<and> fl_pos f = p \<and> (\<forall>i\<in>set (fl_io f). \<nexists>e. i = IoFail e)"

lemma read_all_at:
  assumes "reading B p f" and "p + n \<le> length B"
  shows "\<exists>f'. read_all f n = (Inr (take n (drop p B)), f') \<and> reading B (p + n) f'"
proof -
  have "\<forall>i\<in>set (fl_io f). \<nexists>e. i = IoFail e" "fl_pos f + n \<le> length (fl_bytes f)"
    using assms by (auto simp: reading_def)
  from read_all_complete [OF this] obtain io where
    "read_all f n = (Inr (take n (drop (fl_pos f) (fl_bytes f))), f\<lparr>fl_pos := fl_pos f + n, fl_io := io\<rparr>)"
    "set io \<subseteq> set (fl_io f)" by blast
  then show ?thesis using assms(1) by (auto simp: reading_def)
qed

lemma read_next:
  assumes "reading B p f" and "B = pre @ e @ post" and "length pre = p" and "n = length e"
  shows "\<exists>f'. read_all f n = (Inr e, f') \<and> reading B (p + n) f'"
  using read_all_at [OF assms(1), of n] assms(2-4) by simp

lemma lseek_cur_at:
  assumes "reading B p f"
  shows "\<exists>f'. lseek_cur f (int k) = (int (p + k), f') \<and> reading B (p + k) f'"
  using assms by (auto simp: lseek_cur_def lseek_set_def reading_def nat_add_distrib)

lemma raw_crc_loop_at:
  assumes "reading B p f" and "p + n \<le> length B"
  shows "\<exists>f'. raw_crc_loop f crc n = (Inr (sparse_crc32 crc (take n (drop p B))), f') \<and> reading B (p + n) f'"
  using assms
proof (induction n arbitrary: p f crc rule: less_induct)
  case (less n)
  show ?case
  proof (cases "n = 0")
    case True
    then show ?thesis using less.prems by (simp add: raw_crc_loop.simps)
  next
    case False
    define k where "k = min n COPY_BUF_SIZE"
    have k: "k \<le> n" "0 < k" using False by (auto simp: k_def)
    obtain f1 where f1: "read_all f k = (Inr (take k (drop p B)), f1)" "reading B (p + k) f1"
      using read_all_at [OF less.prems(1), of k] less.prems(2) k by auto
    obtain f2 where "raw_crc_loop f1 (sparse_crc32 crc (take k (drop p B))) (n - k) =
        (Inr (sparse_crc32 (sparse_crc32 crc (take k (drop p B))) (take (n - k) (drop (p + k) B))), f2)"
        "reading B (p + k + (n - k)) f2"
      using less.IH [OF _ f1(2), of "n - k"] less.prems(2) k by auto
    moreover have "take n (drop p B) = take k (drop p B) @ take (n - k) (drop (p + k) B)"
      using take_add [of k "n - k" "drop p B"] k by (simp add: add.commute)
    ultimately show ?thesis
      using f1(1) False k by (subst raw_crc_loop.simps) (simp add: Let_def sparse_crc32_append flip: k_def)
  qed
qed

text \<open>A buffer of a repeated pattern: the loop computes the checksum of the pattern at full length.\<close>

lemma buf_crc_loop_fill:
  "buf_crc_loop (concat (replicate 262144 (u32_le v))) crc n = sparse_crc32 crc (fill_bytes v n)"
proof (induction n arbitrary: crc rule: less_induct)
  case (less n)
  show ?case
  proof (cases "n = 0")
    case False
    let ?k = "min n COPY_BUF_SIZE"
    have "fill_bytes v n = fill_bytes v ?k @ fill_bytes v (n - ?k)"
    proof (cases "n \<le> COPY_BUF_SIZE")
      case False
      then show ?thesis using fill_bytes_add [of COPY_BUF_SIZE v "n - COPY_BUF_SIZE"] by simp
    qed (simp add: fill_bytes_def)
    then show ?thesis
      using False less.IH [of "n - ?k"]
      by (subst buf_crc_loop.simps) (simp add: Let_def concat_fill_bytes take_fill_bytes sparse_crc32_append)
  qed (simp add: buf_crc_loop.simps fill_bytes_def)
qed

lemma buf_crc_loop_zero: "buf_crc_loop (replicate COPY_BUF_SIZE 0) crc n = sparse_crc32 crc (replicate n 0)"
proof (induction n arbitrary: crc rule: less_induct)
  case (less n)
  show ?case
  proof (cases "n = 0")
    case False
    let ?k = "min n COPY_BUF_SIZE"
    have "replicate n (0 :: byte) = replicate ?k 0 @ replicate (n - ?k) 0" by (simp flip: replicate_add)
    then show ?thesis
      using False less.IH [of "n - ?k"]
      by (subst buf_crc_loop.simps) (simp add: Let_def sparse_crc32_append)
  qed (simp add: buf_crc_loop.simps)
qed

section \<open>The list under construction\<close>

definition building :: "u32 \<Rightarrow> chunk list \<Rightarrow> heap \<Rightarrow> sparse_file \<Rightarrow> bool" where
  "building bs cs h s \<longleftrightarrow> sf_block_size s = bs \<and> bbl_block_size (sf_list s) = bs \<and> hp_oom h = []
     \<and> (\<exists>as. list_inv h (data_blocks (sf_list s)) as \<and> last_used_ok (sf_list s) as \<and> chunks h as = cs)"

definition rd_ok :: "byte list \<Rightarrow> nat \<Rightarrow> u32 \<Rightarrow> chunk list \<Rightarrow> u32 option \<Rightarrow> int \<Rightarrow> reader \<Rightarrow> bool" where
  "rd_ok B p bs cs crc n r \<longleftrightarrow> reading B p (rd_f r) \<and> building bs cs (rd_heap r) (rd_s r) \<and> rd_crc r = crc
     \<and> sf_len (rd_s r) = n"

text \<open>Appending behind the last chunk, when the two do not merge.\<close>

definition appendable :: "u32 \<Rightarrow> chunk \<Rightarrow> chunk list \<Rightarrow> bool" where
  "appendable bs n cs \<longleftrightarrow> (\<forall>c\<in>set cs. blk c < blk n) \<and> (cs \<noteq> [] \<longrightarrow> \<not> can_merge bs (last cs) n)"

lemma queue_chunk_append:
  assumes "appendable bs n cs"
  shows "queue_chunk bs n cs = cs @ [n]" and "\<not> absorbed bs n cs"
proof -
  show "queue_chunk bs n cs = cs @ [n]"
    using assms queue_chunk_split [of "butlast cs" "last cs" n "[]" bs]
    by (cases cs rule: rev_cases) (auto simp: appendable_def)
  show "\<not> absorbed bs n cs"
    using assms absorbed_split [of "butlast cs" "last cs" n "[]" bs]
    by (cases cs rule: rev_cases) (auto simp: appendable_def absorbed_def)
qed

lemma building_add:
  assumes b: "building bs cs h s" and bs: "bs \<noteq> 0" and ap: "appendable bs (block, sz, bk) cs"
    and nofile: "fname (block, sz, bk) = []"
  shows "\<exists>h' l'. add_bb h (sf_list s) block sz bk = Inr (0, h', l')
    \<and> building bs (cs @ [(block, sz, bk)]) h' (s\<lparr>sf_list := l'\<rparr>)"
proof -
  obtain as where as: "list_inv h (data_blocks (sf_list s)) as" "last_used_ok (sf_list s) as" "chunks h as = cs"
    and e: "bbl_block_size (sf_list s) = bs" "hp_oom h = []"
    using b by (auto simp: building_def)
  have "block \<notin> fst ` set (chunks h as)" using ap as(3) by (auto simp: appendable_def)
  from add_bb_refines [OF as(1) _ as(2) _ this nofile] e bs as(3) queue_chunk_append [OF ap]
  obtain h' l' as' where "add_bb h (sf_list s) block sz bk = Inr (0, h', l')" "list_inv h' (data_blocks l') as'"
     "chunks h' as' = cs @ [(block, sz, bk)]" "bbl_block_size l' = bs" "last_used_ok l' as'" "hp_oom h' = []"
    by (auto simp: e(1))
  then show ?thesis using b by (auto simp: building_def)
qed

lemma rd_add:
  assumes r: "rd_ok B p bs cs crc n r" and bs: "bs \<noteq> 0" and ap: "appendable bs (block, sz, bk) cs"
  shows "bk = BACKED_BLOCK_FD fd off \<Longrightarrow> \<exists>r'. add_to_file r (\<lambda>h s. sparse_file_add_fd h s fd off sz block) = Inr (0, r')
      \<and> rd_ok B p bs (cs @ [(block, sz, bk)]) crc n r'"
    and "bk = BACKED_BLOCK_FILL v \<Longrightarrow> \<exists>r'. add_to_file r (\<lambda>h s. sparse_file_add_fill h s v sz block) = Inr (0, r')
      \<and> rd_ok B p bs (cs @ [(block, sz, bk)]) crc n r'"
proof -
  have b: "building bs cs (rd_heap r) (rd_s r)" using r by (simp add: rd_ok_def)
  show "\<exists>r'. add_to_file r (\<lambda>h s. sparse_file_add_fd h s fd off sz block) = Inr (0, r')
      \<and> rd_ok B p bs (cs @ [(block, sz, bk)]) crc n r'" if "bk = BACKED_BLOCK_FD fd off"
    using building_add [OF b bs ap] r that
    by (auto simp: add_to_file_def sparse_file_add_fd_def lift_add_def backed_block_add_fd_def fname_def rd_ok_def)
  show "\<exists>r'. add_to_file r (\<lambda>h s. sparse_file_add_fill h s v sz block) = Inr (0, r')
      \<and> rd_ok B p bs (cs @ [(block, sz, bk)]) crc n r'" if "bk = BACKED_BLOCK_FILL v"
    using building_add [OF b bs ap] r that
    by (auto simp: add_to_file_def sparse_file_add_fill_def lift_add_def backed_block_add_fill_def fname_def rd_ok_def)
qed

section \<open>One chunk\<close>

lemma u32_of_nat: "n < 4294967296 \<Longrightarrow> unat (word_of_nat n :: u32) = n"
  by (simp add: unat_of_nat)

lemma u32_times:
  fixes bs :: u32
  assumes "bs \<noteq> 0" and "unat bs * n < 4294967296"
  shows "word_of_nat n * bs = word_of_nat (unat bs * n)" and "(word_of_nat (unat bs * n) :: u32) mod bs = 0"
    and "(word_of_nat (unat bs * n) :: u32) div bs = word_of_nat n"
proof -
  have b: "0 < unat bs" using assms(1) by (simp add: unat_gt_0)
  have n: "unat (word_of_nat (unat bs * n) :: u32) = unat bs * n" using assms(2) by (rule u32_of_nat)
  show "word_of_nat n * bs = word_of_nat (unat bs * n)" by (simp add: mult.commute)
  show "(word_of_nat (unat bs * n) :: u32) mod bs = 0"
    by (simp add: word_arith_nat_mod n del: of_nat_mult)
  show "(word_of_nat (unat bs * n) :: u32) div bs = word_of_nat n"
    using b by (simp add: word_arith_nat_div n del: of_nat_mult)
qed

lemma process_raw_chunk_ok:
  assumes r: "rd_ok B p bs cs crc sl r" and bs: "bs \<noteq> 0" and fit: "unat bs * n < 4294967296"
    and B: "B = pre @ d @ post" "length pre = p" "length d = unat bs * n"
    and ap: "appendable bs (block, word_of_nat (unat bs * n), BACKED_BLOCK_FD fd (int p)) cs"
  shows "\<exists>r'. process_raw_chunk fd r (word_of_nat (unat bs * n)) (int p) (word_of_nat n) block = Inr (0, r')
    \<and> rd_ok B (p + unat bs * n) bs (cs @ [(block, word_of_nat (unat bs * n), BACKED_BLOCK_FD fd (int p))])
        (map_option (\<lambda>c. sparse_crc32 c d) crc) sl r'"
proof -
  note t = u32_times [OF bs fit]
  have sz: "sf_block_size (rd_s r) = bs" using r by (simp add: rd_ok_def building_def)
  obtain r1 where r1: "add_to_file r (\<lambda>h s. sparse_file_add_fd h s fd (int p) (word_of_nat (unat bs * n)) block) = Inr (0, r1)"
      "rd_ok B p bs (cs @ [(block, word_of_nat (unat bs * n), BACKED_BLOCK_FD fd (int p))]) crc sl r1"
    using rd_add(1) [OF r bs ap refl] by blast
  have rd: "reading B p (rd_f r1)" and c: "rd_crc r1 = crc" using r1(2) by (auto simp: rd_ok_def)
  have u: "unat (word_of_nat (unat bs * n) :: u32) = unat bs * n" using fit by (rule u32_of_nat)
  then have i: "uint (word_of_nat (unat bs * n) :: u32) = int (unat bs * n)" by (metis uint_nat)
  have d: "take (unat bs * n) (drop p B) = d" "p + unat bs * n \<le> length B" using B by auto
  show ?thesis
  proof (cases crc)
    case None
    then show ?thesis
      using lseek_cur_at [OF rd, of "unat bs * n"] r1 c bs
      by (auto simp: process_raw_chunk_def sz t i Let_def rd_ok_def simp del: of_nat_mult)
  next
    case (Some k)
    then show ?thesis
      using raw_crc_loop_at [OF rd d(2), of k] r1 c bs
      by (auto simp: process_raw_chunk_def sz t u Let_def rd_ok_def d(1) simp del: of_nat_mult)
  qed
qed

lemma process_fill_chunk_ok:
  assumes r: "rd_ok B p bs cs crc sl r" and bs: "bs \<noteq> 0" and fit: "unat bs * n < 4294967296"
    and B: "B = pre @ u32_le v @ post" "length pre = p"
    and ap: "appendable bs (block, word_of_nat (unat bs * n), BACKED_BLOCK_FILL v) cs"
  shows "\<exists>r'. process_fill_chunk r 4 (word_of_nat n) block = Inr (0, r')
    \<and> rd_ok B (p + 4) bs (cs @ [(block, word_of_nat (unat bs * n), BACKED_BLOCK_FILL v)])
        (map_option (\<lambda>c. sparse_crc32 c (fill_bytes v (unat bs * n))) crc) sl r'"
proof -
  have b: "0 < unat bs" using bs by (simp add: unat_gt_0)
  have sz: "sf_block_size (rd_s r) = bs" using r by (simp add: rd_ok_def building_def)
  obtain f where f: "read_all (rd_f r) 4 = (Inr (u32_le v), f)" "reading B (p + 4) f"
    using read_next [of B p "rd_f r" pre "u32_le v" post 4] r B by (auto simp: rd_ok_def)
  have r0: "rd_ok B (p + 4) bs cs crc sl (r\<lparr>rd_f := f\<rparr>)" using r f(2) by (simp add: rd_ok_def)
  have "n \<le> unat bs * n" using b by simp
  then have "n < 4294967296" using fit by linarith
  then have "unat (word_of_nat n :: u32) = n" by (rule u32_of_nat)
  then have "uint (word_of_nat n :: u32) = int n" by (metis uint_nat)
  then have i: "uint (word_of_nat n :: u32) * uint bs = int (unat bs * n)" by simp
  obtain r1 where "add_to_file (r\<lparr>rd_f := f\<rparr>) (\<lambda>h s. sparse_file_add_fill h s v (word_of_nat (unat bs * n)) block) = Inr (0, r1)"
      "rd_ok B (p + 4) bs (cs @ [(block, word_of_nat (unat bs * n), BACKED_BLOCK_FILL v)]) crc sl r1"
    using rd_add(2) [OF r0 bs ap refl] by blast
  then show ?thesis
    using f(1) by (auto simp: process_fill_chunk_def sz i Let_def rd_ok_def buf_crc_loop_fill simp del: of_nat_mult)
qed

lemma process_skip_chunk_ok:
  assumes "rd_ok B p bs cs crc sl r"
  shows "\<exists>r'. process_skip_chunk r 0 g = (0, r')
    \<and> rd_ok B p bs cs (map_option (\<lambda>c. sparse_crc32 c (replicate (unat g * unat bs) 0)) crc) sl r'"
proof -
  have "nat (uint g * uint bs) = unat g * unat bs" by (simp add: nat_mult_distrib)
  then show ?thesis using assms by (auto simp: process_skip_chunk_def Let_def rd_ok_def building_def buf_crc_loop_zero)
qed

section \<open>The chunk loop\<close>

lemma small_count:
  fixes bs :: u32
  assumes "bs \<noteq> 0" and "unat bs * m < 2147483648"
  shows "to_int (word_of_nat m :: u32) = int m"
proof -
  have "0 < unat bs" using assms(1) by (simp add: unat_gt_0)
  then have "m \<le> unat bs * m" by simp
  then have "m < 2147483648" using assms(2) by linarith
  then show ?thesis using sint_small_u32 [of "word_of_nat m"] u32_of_nat [of m] by simp
qed

text \<open>Reading the header of a chunk, with the header sizes the writer uses.\<close>

lemma read_chunk_header:
  assumes r: "rd_ok B p bs cs crc sl r" and B: "B = pre @ chunk_hdr ty sz tot @ post" "length pre = p"
  shows "\<exists>r'. rd_ok B (p + 12) bs cs crc sl r' \<and> read_chunks_loop (Suc n) fd r 12 k =
    bindR (process_chunk fd r' (int (p + 12)) 12
        \<lparr>ch_chunk_type = ty, ch_reserved1 = 0, ch_chunk_sz = sz, ch_total_sz = tot\<rparr> k)
      (\<lambda>(ret, r). if ret < 0 then Inr (ret, k, r) else read_chunks_loop n fd r 12 (k + word_of_int ret))"
proof -
  have "reading B p (rd_f r)" using r by (simp add: rd_ok_def)
  from read_next [OF this B, of 12] obtain f where f: "read_all (rd_f r) 12 = (Inr (chunk_hdr ty sz tot), f)"
      "reading B (p + 12) f" by auto
  obtain f' where f': "lseek_cur f 0 = (int (p + 12), f')" "reading B (p + 12) f'"
    using lseek_cur_at [OF f(2), of 0] by auto
  show ?thesis
    using f(1) f' r by (intro exI [of _ "r\<lparr>rd_f := f'\<rparr>"]) (simp add: rd_ok_def Let_def chunk_hdr_def)
qed

lemma read_skip:
  assumes r: "rd_ok B p bs cs crc sl r" and B: "B = pre @ enc_skip g @ post" "length pre = p"
    and small: "unat g < 2147483648"
  shows "\<exists>r'. rd_ok B (p + 12) bs cs (map_option (\<lambda>c. sparse_crc32 c (replicate (unat g * unat bs) 0)) crc) sl r'
    \<and> read_chunks_loop (Suc n) fd r 12 k = read_chunks_loop n fd r' 12 (k + g)"
proof -
  obtain r1 where r1: "rd_ok B (p + 12) bs cs crc sl r1" "read_chunks_loop (Suc n) fd r 12 k =
    bindR (process_chunk fd r1 (int (p + 12)) 12
        \<lparr>ch_chunk_type = CHUNK_TYPE_DONT_CARE, ch_reserved1 = 0, ch_chunk_sz = g, ch_total_sz = 12\<rparr> k)
      (\<lambda>(ret, r). if ret < 0 then Inr (ret, k, r) else read_chunks_loop n fd r 12 (k + word_of_int ret))"
    using read_chunk_header [OF r B(1) [unfolded enc_skip_def] B(2)] by blast
  obtain r2 where r2: "process_skip_chunk r1 0 g = (0, r2)"
      "rd_ok B (p + 12) bs cs (map_option (\<lambda>c. sparse_crc32 c (replicate (unat g * unat bs) 0)) crc) sl r2"
    using process_skip_chunk_ok [OF r1(1)] by blast
  have "to_int g = int (unat g)" using small by (rule sint_small_u32)
  then show ?thesis using r1(2) r2 by (auto simp: process_chunk_def)
qed

lemma read_fill:
  assumes r: "rd_ok B p bs cs crc sl r" and bs: "bs \<noteq> 0" and fit: "unat bs * m < 2147483648"
    and B: "B = pre @ enc_fill (word_of_nat m) v @ post" "length pre = p"
    and ap: "appendable bs (k, word_of_nat (unat bs * m), BACKED_BLOCK_FILL v) cs"
  shows "\<exists>r'. rd_ok B (p + 16) bs (cs @ [(k, word_of_nat (unat bs * m), BACKED_BLOCK_FILL v)])
        (map_option (\<lambda>c. sparse_crc32 c (fill_bytes v (unat bs * m))) crc) sl r'
    \<and> read_chunks_loop (Suc n) fd r 12 k = read_chunks_loop n fd r' 12 (k + word_of_nat m)"
proof -
  have B1: "B = pre @ chunk_hdr CHUNK_TYPE_FILL (word_of_nat m) 16 @ (u32_le v @ post)"
    and B2: "B = (pre @ chunk_hdr CHUNK_TYPE_FILL (word_of_nat m) 16) @ u32_le v @ post"
      "length (pre @ chunk_hdr CHUNK_TYPE_FILL (word_of_nat m) 16) = p + 12"
    using B by (simp_all add: enc_fill_def)
  obtain r1 where r1: "rd_ok B (p + 12) bs cs crc sl r1" "read_chunks_loop (Suc n) fd r 12 k =
    bindR (process_chunk fd r1 (int (p + 12)) 12
        \<lparr>ch_chunk_type = CHUNK_TYPE_FILL, ch_reserved1 = 0, ch_chunk_sz = word_of_nat m, ch_total_sz = 16\<rparr> k)
      (\<lambda>(ret, r). if ret < 0 then Inr (ret, k, r) else read_chunks_loop n fd r 12 (k + word_of_int ret))"
    using read_chunk_header [OF r B1 B(2)] by blast
  obtain r2 where r2: "process_fill_chunk r1 4 (word_of_nat m) k = Inr (0, r2)"
      "rd_ok B (p + 12 + 4) bs (cs @ [(k, word_of_nat (unat bs * m), BACKED_BLOCK_FILL v)])
        (map_option (\<lambda>c. sparse_crc32 c (fill_bytes v (unat bs * m))) crc) sl r2"
    using process_fill_chunk_ok [OF r1(1) bs _ B2 ap] fit by auto
  have "to_int (word_of_nat m :: u32) = int m" using bs fit by (rule small_count)
  then show ?thesis using r1(2) r2 by (auto simp: process_chunk_def add.assoc)
qed

lemma read_raw:
  assumes r: "rd_ok B p bs cs crc sl r" and bs: "bs \<noteq> 0" and fit: "unat bs * cdiv (length d) (unat bs) < 2147483648"
    and B: "B = pre @ enc_raw bs d @ post" "length pre = p" and m: "m = cdiv (length d) (unat bs)"
    and ap: "appendable bs (k, word_of_nat (unat bs * m), BACKED_BLOCK_FD fd (int (p + 12))) cs"
  shows "\<exists>r'. rd_ok B (p + 12 + unat bs * m) bs (cs @ [(k, word_of_nat (unat bs * m), BACKED_BLOCK_FD fd (int (p + 12)))])
        (map_option (raw_crc bs d) crc) sl r'
    \<and> read_chunks_loop (Suc n) fd r 12 k = read_chunks_loop n fd r' 12 (k + word_of_nat m)"
proof -
  let ?d = "d @ replicate (unat bs * m - length d) 0" and ?H = "chunk_hdr CHUNK_TYPE_RAW (word_of_nat m) (word_of_nat (12 + unat bs * m))"
  have B1: "B = pre @ ?H @ (?d @ post)" and B2: "B = (pre @ ?H) @ ?d @ post" "length (pre @ ?H) = p + 12"
    using B m by (simp_all add: enc_raw_def Let_def)
  have ld: "length ?d = unat bs * m" using cdiv_bounds(1) [of "unat bs" "length d"] bs m by (simp add: unat_gt_0)
  obtain r1 where r1: "rd_ok B (p + 12) bs cs crc sl r1" "read_chunks_loop (Suc n) fd r 12 k =
    bindR (process_chunk fd r1 (int (p + 12)) 12
        \<lparr>ch_chunk_type = CHUNK_TYPE_RAW, ch_reserved1 = 0, ch_chunk_sz = word_of_nat m,
          ch_total_sz = word_of_nat (12 + unat bs * m)\<rparr> k)
      (\<lambda>(ret, r). if ret < 0 then Inr (ret, k, r) else read_chunks_loop n fd r 12 (k + word_of_int ret))"
    using read_chunk_header [OF r B1 B(2)] by blast
  obtain r2 where r2: "process_raw_chunk fd r1 (word_of_nat (unat bs * m)) (int (p + 12)) (word_of_nat m) k = Inr (0, r2)"
      "rd_ok B (p + 12 + unat bs * m) bs (cs @ [(k, word_of_nat (unat bs * m), BACKED_BLOCK_FD fd (int (p + 12)))])
        (map_option (\<lambda>c. sparse_crc32 c ?d) crc) sl r2"
    using process_raw_chunk_ok [OF r1(1) bs _ B2 ld ap] fit m by auto
  have "to_int (word_of_nat m :: u32) = int m" using bs fit m by (intro small_count) auto
  moreover have "(\<lambda>c. sparse_crc32 c ?d) = raw_crc bs d" using m by (simp add: raw_crc_def fun_eq_iff)
  moreover have "(word_of_nat (12 + unat bs * m) :: u32) - 12 = word_of_nat (unat bs * m)" by simp
  ultimately show ?thesis using r1(2) r2 by (auto simp: process_chunk_def simp del: of_nat_mult of_nat_add)
qed

section \<open>Reading back what was written\<close>

text \<open>The chunk that a written chunk becomes when it is read at offset \<open>off\<close> of descriptor \<open>fd\<close>.\<close>

definition back_chunk :: "int \<Rightarrow> u32 \<Rightarrow> nat \<Rightarrow> chunk \<Rightarrow> chunk" where
  "back_chunk fd bs off c = (blk c, word_of_nat (unat bs * blocks bs c),
     (case bck c of BACKED_BLOCK_FILL v \<Rightarrow> BACKED_BLOCK_FILL v | _ \<Rightarrow> BACKED_BLOCK_FD fd (int (off + 12))))"

definition gap_len :: "u32 \<Rightarrow> chunk \<Rightarrow> nat" where
  "gap_len k c = (if k < blk c then 12 else 0)"

definition enc_len :: "u32 \<Rightarrow> chunk \<Rightarrow> nat" where
  "enc_len bs c = (if is_fill c then 16 else 12 + unat bs * blocks bs c)"

fun read_back :: "int \<Rightarrow> u32 \<Rightarrow> nat \<Rightarrow> u32 \<Rightarrow> chunk list \<Rightarrow> chunk list" where
  "read_back fd bs off k [] = []"
| "read_back fd bs off k (c # cs) =
     back_chunk fd bs (off + gap_len k c) c
     # read_back fd bs (off + gap_len k c + enc_len bs c) (next_block bs c) cs"

text \<open>
  The bytes of the image in full: gaps and the padding of data are zeros.  A fill chunk is stored as a pattern
  with a number of blocks, so its last block is full of the pattern; \<^verbatim>\<open>sparse.h\<close> announces zeros there, too.
\<close>

definition exp_chunk :: "media \<Rightarrow> u32 \<Rightarrow> chunk \<Rightarrow> byte list" where
  "exp_chunk m bs c = (case bck c of
      BACKED_BLOCK_FILL v \<Rightarrow> fill_bytes v (unat bs * blocks bs c)
    | _ \<Rightarrow> chunk_bytes m c @ replicate (unat bs * blocks bs c - unat (len c)) 0)"

fun expand :: "media \<Rightarrow> u32 \<Rightarrow> u32 \<Rightarrow> chunk list \<Rightarrow> byte list" where
  "expand m bs k [] = []"
| "expand m bs k (c # cs) =
     (if k < blk c then replicate (unat (blk c - k) * unat bs) 0 else []) @ exp_chunk m bs c
     @ expand m bs (next_block bs c) cs"

fun append_ok :: "u32 \<Rightarrow> chunk list \<Rightarrow> chunk list \<Rightarrow> bool" where
  "append_ok bs ds [] = True"
| "append_ok bs ds (n # ns) = (appendable bs n ds \<and> append_ok bs (ds @ [n]) ns)"

text \<open>The chunks can be counted in an \<^verbatim>\<open>int\<close>: no chunk and no gap reaches \<open>2\<^sup>3\<^sup>1\<close> bytes or blocks.\<close>

fun in_range :: "u32 \<Rightarrow> u32 \<Rightarrow> chunk list \<Rightarrow> bool" where
  "in_range bs k [] = True"
| "in_range bs k (c # cs) =
     (k \<le> blk c \<and> unat (blk c) < 2147483648 \<and> unat bs * blocks bs c < 2147483648 \<and> in_range bs (next_block bs c) cs)"

lemma enc_chunk_len: "bs \<noteq> 0 \<Longrightarrow> length (enc_chunk m bs c) = enc_len bs c"
  by (auto simp: enc_chunk_def enc_len_def is_fill_def length_enc_raw blocks_cdiv split: backing.splits)

lemma read_one:
  assumes r: "rd_ok B p bs ds crc sl r" and bs: "bs \<noteq> 0" and fit: "unat bs * blocks bs c < 2147483648"
    and B: "B = pre @ enc_chunk m bs c @ post" "length pre = p" and ap: "appendable bs (back_chunk fd bs p c) ds"
  shows "\<exists>r'. rd_ok B (p + enc_len bs c) bs (ds @ [back_chunk fd bs p c])
        (map_option (\<lambda>x. sparse_crc32 x (exp_chunk m bs c)) crc) sl r'
    \<and> read_chunks_loop (Suc n) fd r 12 (blk c) = read_chunks_loop n fd r' 12 (next_block bs c)"
proof (cases "is_fill c")
  case True
  then obtain v where v: "bck c = BACKED_BLOCK_FILL v" by (auto simp: is_fill_def split: backing.splits)
  have "B = pre @ enc_fill (word_of_nat (blocks bs c)) v @ post" using B v by (simp add: enc_chunk_def)
  from read_fill [OF r bs fit this B(2), of "blk c" n fd] ap v True show ?thesis
    by (simp add: back_chunk_def exp_chunk_def enc_len_def next_block_def)
next
  case False
  then have e: "enc_chunk m bs c = enc_raw bs (chunk_bytes m c)"
      "back_chunk fd bs p c = (blk c, word_of_nat (unat bs * blocks bs c), BACKED_BLOCK_FD fd (int (p + 12)))"
      "(\<lambda>x. sparse_crc32 x (exp_chunk m bs c)) = raw_crc bs (chunk_bytes m c)"
    by (auto simp: is_fill_def enc_chunk_def back_chunk_def exp_chunk_def raw_crc_def blocks_cdiv split: backing.splits)
  have "B = pre @ enc_raw bs (chunk_bytes m c) @ post" using B e by simp
  moreover have "blocks bs c = cdiv (length (chunk_bytes m c)) (unat bs)" by (simp add: blocks_cdiv)
  ultimately show ?thesis
    using read_raw [OF r bs, of "chunk_bytes m c" pre post "blocks bs c" "blk c" fd n] B(2) ap fit False
    by (simp add: e enc_len_def next_block_def add.assoc del: of_nat_add of_nat_mult)
qed

lemma read_list:
  assumes "rd_ok B p bs ds crc sl r" and "bs \<noteq> 0" and "B = pre @ enc_list m bs k cs @ post" and "length pre = p"
    and "in_range bs k cs" and "append_ok bs ds (read_back fd bs p k cs)"
  shows "\<exists>r'. rd_ok B (p + length (enc_list m bs k cs)) bs (ds @ read_back fd bs p k cs)
        (map_option (\<lambda>x. sparse_crc32 x (expand m bs k cs)) crc) sl r'
    \<and> read_chunks_loop (count_list bs k cs + n) fd r 12 k = read_chunks_loop n fd r' 12 (end_block bs k cs)"
  using assms
proof (induction cs arbitrary: p ds crc r pre k)
  case Nil
  then show ?case by (cases crc) (auto intro!: exI [of _ r])
next
  case (Cons c cs)
  let ?g = "if k < blk c then enc_skip (blk c - k) else []" and ?q = "p + gap_len k c"
  let ?z = "if k < blk c then replicate (unat (blk c - k) * unat bs) (0 :: byte) else []"
  have B: "B = pre @ ?g @ (enc_chunk m bs c @ enc_list m bs (next_block bs c) cs @ post)"
    using Cons.prems(3) by simp
  obtain r1 where r1: "rd_ok B ?q bs ds (map_option (\<lambda>x. sparse_crc32 x ?z) crc) sl r1"
      "read_chunks_loop (count_list bs k (c # cs) + n) fd r 12 k
       = read_chunks_loop (Suc (count_list bs (next_block bs c) cs + n)) fd r1 12 (blk c)"
  proof (cases "k < blk c")
    case True
    have "unat (blk c - k) < 2147483648" using True Cons.prems(5) by (simp add: unat_sub less_imp_diff_less)
    from read_skip [OF Cons.prems(1) _ Cons.prems(4) this, of _ "Suc (count_list bs (next_block bs c) cs + n)" fd k]
      B True that show ?thesis by (auto simp: gap_len_def)
  next
    case False
    then have "k = blk c" using Cons.prems(5) by simp
    then show ?thesis using False Cons.prems(1) that by (cases crc) (auto simp: gap_len_def)
  qed
  have B1: "B = (pre @ ?g) @ enc_chunk m bs c @ (enc_list m bs (next_block bs c) cs @ post)"
    and l1: "length (pre @ ?g) = ?q" using B Cons.prems(4) by (auto simp: gap_len_def)
  have fit: "unat bs * blocks bs c < 2147483648" and ap: "appendable bs (back_chunk fd bs ?q c) ds"
    using Cons.prems(5,6) by auto
  obtain r2 where r2: "rd_ok B (?q + enc_len bs c) bs (ds @ [back_chunk fd bs ?q c])
        (map_option (\<lambda>x. sparse_crc32 x (exp_chunk m bs c)) (map_option (\<lambda>x. sparse_crc32 x ?z) crc)) sl r2"
      "read_chunks_loop (Suc (count_list bs (next_block bs c) cs + n)) fd r1 12 (blk c)
       = read_chunks_loop (count_list bs (next_block bs c) cs + n) fd r2 12 (next_block bs c)"
    using read_one [OF r1(1) Cons.prems(2) fit B1 l1 ap] by blast
  have B2: "B = (pre @ ?g @ enc_chunk m bs c) @ enc_list m bs (next_block bs c) cs @ post"
    and l2: "length (pre @ ?g @ enc_chunk m bs c) = ?q + enc_len bs c"
    using B l1 enc_chunk_len [OF Cons.prems(2)] by auto
  have rest: "in_range bs (next_block bs c) cs"
    "append_ok bs (ds @ [back_chunk fd bs ?q c]) (read_back fd bs (?q + enc_len bs c) (next_block bs c) cs)"
    using Cons.prems(5,6) by auto
  from Cons.IH [OF r2(1) Cons.prems(2) B2 l2 rest] r1(2) r2(2) enc_chunk_len [OF Cons.prems(2)] show ?case
    by (auto simp: option.map_comp comp_def sparse_crc32_append gap_len_def add.assoc)
qed

section \<open>Whole images\<close>

lemma end_block_snoc: "end_block bs k (cs @ [c]) = next_block bs c"
  by (induction cs arbitrary: k) auto

definition full_bytes :: "media \<Rightarrow> u32 \<Rightarrow> nat \<Rightarrow> chunk list \<Rightarrow> byte list" where
  "full_bytes m bs n cs = expand m bs 0 cs @ replicate ((n - unat (end_block bs 0 cs)) * unat bs) 0"

lemma read_body:
  assumes r: "rd_ok B p bs [] crc sl r" and bs: "bs \<noteq> 0"
    and B: "B = pre @ enc_list m bs 0 cs @ tail_skip bs n cs @ post" "length pre = p"
    and rng: "in_range bs 0 cs" "append_ok bs [] (read_back fd bs p 0 cs)"
    and n: "unat (end_block bs 0 cs) \<le> n" "n < 2147483648"
  shows "\<exists>r'. rd_ok B (p + length (enc_list m bs 0 cs @ tail_skip bs n cs)) bs (read_back fd bs p 0 cs)
        (map_option (\<lambda>x. sparse_crc32 x (full_bytes m bs n cs)) crc) sl r'
    \<and> read_chunks_loop (total_chunks bs n cs + j) fd r 12 0 = read_chunks_loop j fd r' 12 (word_of_nat n)"
proof -
  let ?e = "end_block bs 0 cs" and ?t = "if unat (end_block bs 0 cs) < n then 1 else 0"
  obtain r1 where r1: "rd_ok B (p + length (enc_list m bs 0 cs)) bs (read_back fd bs p 0 cs)
        (map_option (\<lambda>x. sparse_crc32 x (expand m bs 0 cs)) crc) sl r1"
      "read_chunks_loop (count_list bs 0 cs + (?t + j)) fd r 12 0 = read_chunks_loop (?t + j) fd r1 12 ?e"
    using read_list [OF r bs B rng, of "?t + j"] by auto
  have tot: "total_chunks bs n cs + j = count_list bs 0 cs + (?t + j)" by (simp add: total_chunks_def)
  show ?thesis
  proof (cases "unat ?e < n")
    case True
    let ?g = "word_of_nat (n - unat ?e) :: u32"
    have g: "unat ?g = n - unat ?e" using n(2) by (intro u32_of_nat) simp
    have "?e + ?g = word_of_nat n" using n(1) by (simp add: of_nat_diff)
    moreover have "B = (pre @ enc_list m bs 0 cs) @ enc_skip ?g @ post"
      using B(1) True by (simp add: tail_skip_def Let_def)
    moreover have "length (pre @ enc_list m bs 0 cs) = p + length (enc_list m bs 0 cs)" using B(2) by simp
    moreover have "unat ?g < 2147483648" using g n(2) by simp
    ultimately show ?thesis
      using read_skip [OF r1(1), of "pre @ enc_list m bs 0 cs" ?g post j fd ?e] r1(2) True g tot
      by (auto simp: tail_skip_def Let_def full_bytes_def option.map_comp comp_def sparse_crc32_append add.assoc
          simp del: of_nat_diff)
  next
    case False
    then have "?e = word_of_nat n" using n(1) by (intro word_of_nat_eqI) simp
    then show ?thesis using False r1 tot by (auto simp: tail_skip_def Let_def full_bytes_def)
  qed
qed

lemma read_crc:
  assumes r: "rd_ok B p bs cs (Some c) sl r" and B: "B = pre @ enc_crc x @ post" "length pre = p"
  shows "\<exists>r'. rd_ok B (p + 16) bs cs (Some c) sl r'
    \<and> read_chunks_loop (Suc n) fd r 12 k = (if x = c then read_chunks_loop n fd r' 12 k else Inr (- EINVAL, k, r'))"
proof -
  let ?H = "chunk_hdr CHUNK_TYPE_CRC32 0 16"
  have B1: "B = pre @ ?H @ (u32_le x @ post)" and B2: "B = (pre @ ?H) @ u32_le x @ post" "length (pre @ ?H) = p + 12"
    using B by (simp_all add: enc_crc_def)
  obtain r1 where r1: "rd_ok B (p + 12) bs cs (Some c) sl r1" "read_chunks_loop (Suc n) fd r 12 k =
    bindR (process_chunk fd r1 (int (p + 12)) 12
        \<lparr>ch_chunk_type = CHUNK_TYPE_CRC32, ch_reserved1 = 0, ch_chunk_sz = 0, ch_total_sz = 16\<rparr> k)
      (\<lambda>(ret, r). if ret < 0 then Inr (ret, k, r) else read_chunks_loop n fd r 12 (k + word_of_int ret))"
    using read_chunk_header [OF r B1 B(2)] by blast
  obtain f where f: "read_all (rd_f r1) 4 = (Inr (u32_le x), f)" "reading B (p + 12 + 4) f"
    using read_next [OF _ B2, of "rd_f r1" 4] r1(1) by (auto simp: rd_ok_def)
  then show ?thesis
    using r1 by (intro exI [of _ "r1\<lparr>rd_f := f\<rparr>"])
      (auto simp: process_chunk_def process_crc32_chunk_def rd_ok_def add.assoc simp del: read_chunks_loop.simps)
qed

lemma read_crc_null:
  assumes r: "rd_ok B p bs cs None sl r" and B: "B = pre @ enc_crc x @ post" "length pre = p"
  shows "read_chunks_loop (Suc n) fd r 12 k = Inl NullDeref"
proof -
  have "B = pre @ chunk_hdr CHUNK_TYPE_CRC32 0 16 @ (u32_le x @ post)" using B by (simp add: enc_crc_def)
  from read_chunk_header [OF r this B(2), of n fd k] show ?thesis
    by (auto simp: process_chunk_def rd_ok_def)
qed

section \<open>Import\<close>

lemma building_new:
  assumes "heap_ok h" and "hp_oom h = []"
  shows "\<exists>s. sparse_file_new h bs n = Inr (Some s, h) \<and> building bs [] h (s\<lparr>sf_verbose := v\<rparr>) \<and> sf_len s = n"
  using assms by (auto simp: sparse_file_new_def backed_block_list_new_def alloc_ok_def building_def list_inv_def
      names_ok_def last_used_ok_def)

text \<open>Up to the chunks: the header is accepted, and the chunk loop runs on a fresh file.\<close>

lemma import_header:
  assumes f: "reading B 0 f" and B: "B = sparse_hdr bs (int n * uint bs) cnt @ post" and bs: "bs \<noteq> 0"
    and n: "n < 4294967296" and h: "heap_ok h" "hp_oom h = []"
  shows "\<exists>r. rd_ok B 28 bs [] (if crc then Some 0 else None) (int n * uint bs) r \<and>
    sparse_file_import cb fd h f verbose crc =
      bindR (read_chunks_loop (unat cnt) fd r 12 0) (\<lambda>(ret, cur_block, r).
        if ret < 0 \<or> word_of_nat n \<noteq> cur_block
        then bindR (sparse_file_destroy (rd_heap r) (rd_s r)) (\<lambda>h. Inr (None, h, rd_f r))
        else Inr (Some (rd_s r), rd_heap r, rd_f r))"
proof -
  define hdr where "hdr = \<lparr>sh_magic = SPARSE_HEADER_MAGIC, sh_major_version = 1, sh_minor_version = 0, sh_file_hdr_sz = 28,
       sh_chunk_hdr_sz = 12, sh_blk_sz = bs, sh_total_blks = word_of_nat n, sh_total_chunks = cnt, sh_image_checksum = 0\<rparr>"
  have "int n * uint bs sdiv uint bs = int n" using uint_pos [OF bs] by (simp add: nonneg_sdiv)
  then have hd: "sparse_hdr bs (int n * uint bs) cnt = sparse_header_bytes hdr"
    by (simp add: sparse_hdr_def hdr_def)
  obtain f1 where f1: "read_all f 28 = (Inr (sparse_header_bytes hdr), f1)" "reading B 28 f1"
    using read_next [OF f, of "[]" "sparse_header_bytes hdr" post 28] B hd by auto
  obtain f2 where f2: "lseek_set f1 0 = (0, f2)" "reading B 0 f2"
    using f1(2) by (auto simp: lseek_set_def reading_def)
  obtain f3 where f3: "read_all f2 28 = (Inr (sparse_header_bytes hdr), f3)" "reading B 28 f3"
    using read_next [OF f2(2), of "[]" "sparse_header_bytes hdr" post 28] B hd by auto
  obtain s where s: "sparse_file_new h bs (int n * uint bs) = Inr (Some s, h)"
      "building bs [] h (s\<lparr>sf_verbose := verbose\<rparr>)" "sf_len s = int n * uint bs"
    using building_new [OF h] by blast
  have t: "uint (word_of_nat n :: u32) = int n" using u32_of_nat [OF n] by (metis uint_nat)
  let ?r = "\<lparr>rd_heap = h, rd_s = s\<lparr>sf_verbose := verbose\<rparr>, rd_f = f3, rd_crc = (if crc then Some 0 else None)\<rparr>"
  have "sparse_file_read_sparse cb fd h (s\<lparr>sf_verbose := verbose\<rparr>) f2 crc =
      bindR (read_chunks_loop (unat cnt) fd ?r 12 0) (\<lambda>(ret, cur_block, r).
        if ret < 0 then Inr (ret, r) else if word_of_nat n \<noteq> cur_block then Inr (- EINVAL, r) else Inr (0, r))"
    using f3(1) h(2) by (simp add: sparse_file_read_sparse_def alloc_ok_def hdr_def Let_def cong: if_cong)
  moreover have "rd_ok B 28 bs [] (if crc then Some 0 else None) (int n * uint bs) ?r"
    using f3(2) s by (simp add: rd_ok_def)
  ultimately show ?thesis
    using f1(1) f2(1) s(1) t
    by (intro exI [of _ ?r]) (auto simp: sparse_file_import_def hdr_def Let_def sparse_file_read_def bindR_def
        split: sum.splits prod.splits)
qed

section \<open>Conditions on the chunks\<close>

text \<open>
  Two neighbouring fill chunks of the same value would be merged on reading; a well-formed list that
  was built by queueing has them only where a chunk was put in front of another.
\<close>

definition no_twins :: "u32 \<Rightarrow> chunk list \<Rightarrow> bool" where
  "no_twins bs cs \<longleftrightarrow> successively (\<lambda>c d. \<not> (is_fill c \<and> bck c = bck d \<and> next_block bs c = blk d)) cs"

definition image_fits :: "u32 \<Rightarrow> nat \<Rightarrow> chunk list \<Rightarrow> bool" where
  "image_fits bs n cs \<longleftrightarrow> n < 2147483648 \<and> list_all (\<lambda>c. len c \<noteq> 0 \<and> unat (len c) + unat bs \<le> 2147483648
     \<and> unat (blk c) + blocks bs c \<le> n) cs"

lemma append_okI:
  assumes "sorted_wrt (\<lambda>x y. blk x < blk y) (ds @ ns)" and "successively (\<lambda>x y. \<not> can_merge bs x y) (ds @ ns)"
  shows "append_ok bs ds ns"
  using assms
proof (induction ns arbitrary: ds)
  case (Cons n ns)
  have "append_ok bs (ds @ [n]) ns" using Cons.prems by (intro Cons.IH) auto
  moreover have "appendable bs n ds"
    using Cons.prems by (auto simp: appendable_def sorted_wrt_append successively_append_iff)
  ultimately show ?case by simp
qed simp

lemma blocks_fit:
  assumes "bs \<noteq> 0" and "unat (len c) + unat bs \<le> 2147483648"
  shows "unat bs * blocks bs c < 2147483648"
  using assms cdiv_bounds(2) [of "unat bs" "unat (len c)"] by (simp add: blocks_cdiv unat_gt_0)

lemma blocks_pos: "bs \<noteq> 0 \<Longrightarrow> len c \<noteq> 0 \<Longrightarrow> 0 < blocks bs c"
  using cdiv_bounds(1) [of "unat bs" "unat (len c)"] by (cases "blocks bs c") (auto simp: blocks_cdiv unat_gt_0 unat_eq_0)

lemma unat_next_block:
  assumes "unat (blk c) + blocks bs c < 4294967296"
  shows "unat (next_block bs c) = unat (blk c) + blocks bs c"
  using assms by (simp add: next_block_def unat_word_ariths unat_of_nat)

lemma in_range_ok:
  assumes "chunks_ok bs cs" and "image_fits bs n cs" and "starts_at k cs" and "unat k \<le> n"
  shows "in_range bs k cs" and "unat (end_block bs k cs) \<le> n"
proof -
  have "in_range bs k cs \<and> unat (end_block bs k cs) \<le> n"
    using assms
  proof (induction cs arbitrary: k)
    case (Cons c cs)
    have f: "unat (blk c) + blocks bs c \<le> n" "n < 2147483648" "unat (len c) + unat bs \<le> 2147483648"
      using Cons.prems(2) by (auto simp: image_fits_def)
    note nx = next_block_le [OF Cons.prems(1)] and bs = Cons.prems(1)
    have "in_range bs (next_block bs c) cs \<and> unat (end_block bs (next_block bs c) cs) \<le> n"
      using Cons.prems nx f by (intro Cons.IH) (auto simp: chunks_ok_def image_fits_def)
    then show ?case
      using f Cons.prems(1,3) blocks_fit [of bs c] by (auto simp: starts_at_def chunks_ok_def)
  qed simp
  then show "in_range bs k cs" "unat (end_block bs k cs) \<le> n" by auto
qed

lemma map_fst_read_back: "map fst (read_back fd bs off k cs) = map fst cs"
  by (induction cs arbitrary: off k) (auto simp: back_chunk_def)

lemma back_chunk_merge:
  assumes "bs \<noteq> 0" and "unat bs * blocks bs c < 4294967296"
    and "can_merge bs (back_chunk fd bs off c) (back_chunk fd bs off' d)" and "off + enc_len bs c \<le> off'"
  shows "is_fill c \<and> bck c = bck d \<and> next_block bs c = blk d"
proof -
  have "next_block bs c = blk d"
    using assms(3) u32_times(3) [OF assms(1,2)] by (simp add: can_merge_def back_chunk_def next_block_def)
  moreover have u: "uint (word_of_nat (unat bs * blocks bs c) :: u32) = int (unat bs * blocks bs c)"
    using u32_of_nat [OF assms(2)] by (metis uint_nat)
  have "is_fill c \<and> bck c = bck d"
  proof (cases "is_fill c")
    case True
    then show ?thesis using assms(3)
      by (auto simp: is_fill_def can_merge_def back_chunk_def continues_def split: backing.splits)
  next
    case False
    then have "int (off + 12 + unat bs * blocks bs c) = int (off' + 12)"
      using assms(3) u
      by (auto simp: is_fill_def can_merge_def back_chunk_def continues_def simp del: of_nat_mult
          split: backing.splits)
    then have "off + 12 + unat bs * blocks bs c = off' + 12" by (simp only: of_nat_eq_iff)
    then show ?thesis using assms(4) False by (simp add: enc_len_def)
  qed
  ultimately show ?thesis by blast
qed

lemma read_back_append_ok:
  assumes ok: "chunks_ok bs cs" and "image_fits bs n cs" and "no_twins bs cs"
  shows "append_ok bs [] (read_back fd bs off k cs)"
proof (rule append_okI)
  have "sorted_wrt (<) (map fst cs)"
    using ok by (auto simp: chunks_ok_def sorted_wrt_map before_def elim!: sorted_wrt_mono_rel [rotated])
  then have "sorted_wrt (<) (map fst (read_back fd bs off k cs))" by (simp add: map_fst_read_back)
  then show "sorted_wrt (\<lambda>x y. blk x < blk y) ([] @ read_back fd bs off k cs)" by (simp add: sorted_wrt_map)
  have "successively (\<lambda>x y. \<not> can_merge bs x y) (read_back fd bs off k cs)"
    using assms
  proof (induction cs arbitrary: off k)
    case (Cons c cs)
    have IH: "successively (\<lambda>x y. \<not> can_merge bs x y) (read_back fd bs off' k' cs)" for off' k'
      using Cons.prems by (intro Cons.IH) (auto simp: chunks_ok_def image_fits_def no_twins_def successively_Cons)
    have "unat bs * blocks bs c < 4294967296"
      using Cons.prems blocks_fit [of bs c] by (auto simp: chunks_ok_def image_fits_def)
    note m = back_chunk_merge [OF _ this]
    show ?case
    proof (cases cs)
      case (Cons d ds)
      have "\<not> can_merge bs (back_chunk fd bs (off + gap_len k c) c) (back_chunk fd bs o' d)"
        if "off + gap_len k c + enc_len bs c \<le> o'" for o'
        using m [of fd "off + gap_len k c" o' d] that Cons.prems Cons
        by (auto simp: no_twins_def chunks_ok_def simp del: split_paired_All)
      then show ?thesis using IH [of "off + gap_len k c + enc_len bs c" "next_block bs c"] Cons by simp
    qed simp
  qed simp
  then show "successively (\<lambda>x y. \<not> can_merge bs x y) ([] @ read_back fd bs off k cs)" by simp
qed

section \<open>The image after reading back\<close>

text \<open>The image with every chunk extended to whole blocks, data with zeros and fill with its pattern.\<close>

fun image_padded :: "media \<Rightarrow> u32 \<Rightarrow> chunk list \<Rightarrow> nat \<Rightarrow> byte option" where
  "image_padded m bs [] pos = None"
| "image_padded m bs (c # cs) pos =
     (if c_start bs c \<le> pos \<and> pos < c_start bs c + unat bs * blocks bs c
      then Some (exp_chunk m bs c ! (pos - c_start bs c)) else image_padded m bs cs pos)"

lemma exp_chunk_nth:
  "j < unat (len c) \<Longrightarrow> j < unat bs * blocks bs c \<Longrightarrow> exp_chunk m bs c ! j = back_byte m (bck c) j"
  by (cases "bck c") (auto simp: exp_chunk_def fill_bytes_def nth_append chunk_bytes_def)

lemma image_at_padded:
  assumes "chunks_ok bs cs" and "image_at m bs cs pos = Some b"
  shows "image_padded m bs cs pos = Some b"
  using assms
proof (induction cs)
  case (Cons c cs)
  have bs: "bs \<noteq> 0" using Cons.prems by (simp add: chunks_ok_def)
  then have len: "unat (len c) \<le> unat bs * blocks bs c"
    using cdiv_bounds(1) [of "unat bs" "unat (len c)"] by (simp add: blocks_cdiv unat_gt_0)
  show ?case
  proof (cases "c_start bs c \<le> pos \<and> pos < c_end bs c")
    case True
    then show ?thesis using Cons.prems len exp_chunk_nth [of "pos - c_start bs c" c bs m] by (auto simp: c_end_def)
  next
    case False
    then have rest: "image_at m bs cs pos = Some b" using Cons.prems by auto
    have "\<exists>d\<in>set cs. c_start bs d \<le> pos"
      using rest image_outside [of cs bs pos m] by (cases "\<exists>d\<in>set cs. c_start bs d \<le> pos") auto
    then obtain d where d: "d \<in> set cs" "c_start bs d \<le> pos" by blast
    then have "before bs c d" using Cons.prems by (auto simp: chunks_ok_def)
    then have "c_start bs c + unat bs * blocks bs c \<le> c_start bs d"
      using mult_le_mono1 [of "unat (blk c) + blocks bs c" "unat (blk d)" "unat bs"]
      by (simp add: before_def c_start_def algebra_simps)
    then show ?thesis using Cons rest d by (auto simp: chunks_ok_def)
  qed
qed simp

lemma exp_chunk_length:
  "bs \<noteq> 0 \<Longrightarrow> length (exp_chunk m bs c) = unat bs * blocks bs c"
  using cdiv_bounds(1) [of "unat bs" "unat (len c)"]
  by (auto simp: exp_chunk_def blocks_cdiv unat_gt_0 split: backing.splits)

lemma read_back_image:
  assumes "bs \<noteq> 0" and "\<forall>c\<in>set cs. unat bs * blocks bs c < 4294967296"
    and "B = pre @ enc_list m bs k cs @ post" and "length pre = off"
    and "\<And>i. i < length B \<Longrightarrow> md_fd m' fd (int i) = B ! i"
  shows "image_at m' bs (read_back fd bs off k cs) pos = image_padded m bs cs pos"
  using assms
proof (induction cs arbitrary: off k pre)
  case (Cons c cs)
  let ?g = "if k < blk c then enc_skip (blk c - k) else []" and ?o = "off + gap_len k c"
  let ?b = "back_chunk fd bs ?o c"
  have lg: "length (pre @ ?g) = ?o" using Cons.prems(4) by (simp add: gap_len_def)
  have u: "unat (word_of_nat (unat bs * blocks bs c) :: u32) = unat bs * blocks bs c"
    using Cons.prems(2) by (intro u32_of_nat) simp
  then have se: "c_start bs ?b = c_start bs c" "c_end bs ?b = c_start bs c + unat bs * blocks bs c"
    by (auto simp: back_chunk_def c_start_def c_end_def)
  have byte: "back_byte m' (bck ?b) j = exp_chunk m bs c ! j" if j: "j < unat bs * blocks bs c" for j
  proof (cases "is_fill c")
    case True
    then show ?thesis using j by (auto simp: is_fill_def back_chunk_def exp_chunk_def fill_bytes_def split: backing.splits)
  next
    case False
    let ?H = "chunk_hdr CHUNK_TYPE_RAW (word_of_nat (blocks bs c)) (word_of_nat (12 + unat bs * blocks bs c))"
    have "enc_chunk m bs c = ?H @ exp_chunk m bs c"
      using False by (auto simp: is_fill_def enc_chunk_def exp_chunk_def enc_raw_def Let_def blocks_cdiv split: backing.splits)
    then obtain L where L: "B = L @ exp_chunk m bs c @ (enc_list m bs (next_block bs c) cs @ post)"
        "length L = ?o + 12"
      using Cons.prems(3) lg by (intro that [of "(pre @ ?g) @ ?H"]) auto
    then have "?o + 12 + j < length B \<and> B ! (?o + 12 + j) = exp_chunk m bs c ! j"
      using j exp_chunk_length [OF Cons.prems(1), of m c] nth_append_length_plus [of L] by (simp add: nth_append)
    then show ?thesis using Cons.prems(5) [of "?o + 12 + j"] False
      by (auto simp: is_fill_def back_chunk_def add.assoc split: backing.splits)
  qed
  have "image_at m' bs (read_back fd bs (?o + enc_len bs c) (next_block bs c) cs) pos = image_padded m bs cs pos"
    using Cons.prems lg enc_chunk_len [OF Cons.prems(1), of m c]
    by (intro Cons.IH [of "pre @ ?g @ enc_chunk m bs c"]) auto
  then show ?case using se byte by auto
qed simp

section \<open>Writing and importing\<close>

lemma count_list_le:
  assumes "chunks_ok bs cs" and "image_fits bs n cs" and "starts_at k cs" and "unat k \<le> n"
  shows "unat k + count_list bs k cs \<le> unat (end_block bs k cs)"
  using assms
proof (induction cs arbitrary: k)
  case (Cons c cs)
  have f: "unat (blk c) + blocks bs c \<le> n" "n < 2147483648" "len c \<noteq> 0"
    using Cons.prems(2) by (auto simp: image_fits_def)
  have bs: "bs \<noteq> 0" using Cons.prems(1) by (simp add: chunks_ok_def)
  note nx = next_block_le [OF Cons.prems(1)]
  have "unat (next_block bs c) + count_list bs (next_block bs c) cs \<le> unat (end_block bs (next_block bs c) cs)"
    using Cons.prems nx f by (intro Cons.IH) (auto simp: chunks_ok_def image_fits_def)
  then show ?case
    using nx(1) f blocks_pos [OF bs f(3)] Cons.prems(3)
    by (auto simp: starts_at_def word_less_nat_alt word_le_nat_alt)
qed simp

lemma total_chunks_le:
  assumes "chunks_ok bs cs" and "image_fits bs n cs"
  shows "total_chunks bs n cs \<le> n"
  using count_list_le [OF assms, of 0] in_range_ok(2) [OF assms, of 0] by (simp add: total_chunks_def)

text \<open>What the import of an image with or without a checksum chunk does, after the header.\<close>

lemma import_chunks:
  assumes f: "reading (sparse_image m bs n ck cs) 0 f" and h: "heap_ok h" "hp_oom h = []"
    and cs: "chunks_ok bs cs" "image_fits bs n cs" "no_twins bs cs"
  shows "\<exists>r p. rd_ok (sparse_image m bs n ck cs) p bs (read_back fd bs 28 0 cs)
        (if crc then Some (sparse_crc32 0 (full_bytes m bs n cs)) else None) (int n * uint bs) r
    \<and> (ck \<longrightarrow> (\<exists>pre. sparse_image m bs n ck cs = pre @ enc_crc (foldl (crc_chunk m bs) 0 cs) @ [] \<and> length pre = p))
    \<and> sparse_file_import cb fd h f verbose crc =
      bindR (read_chunks_loop (if ck then 1 else 0) fd r 12 (word_of_nat n)) (\<lambda>(ret, cur_block, r).
        if ret < 0 \<or> word_of_nat n \<noteq> cur_block
        then bindR (sparse_file_destroy (rd_heap r) (rd_s r)) (\<lambda>h. Inr (None, h, rd_f r))
        else Inr (Some (rd_s r), rd_heap r, rd_f r))"
proof -
  let ?cnt = "total_chunks bs n cs + (if ck then 1 else 0)" and ?B = "sparse_image m bs n ck cs"
  let ?H = "sparse_hdr bs (int n * uint bs) (word_of_nat ?cnt)"
  let ?C = "if ck then enc_crc (foldl (crc_chunk m bs) 0 cs) else []"
  have bs: "bs \<noteq> 0" using cs(1) by (simp add: chunks_ok_def)
  have n: "n < 2147483648" "unat (end_block bs 0 cs) \<le> n" and rng: "in_range bs 0 cs"
    using cs(2) in_range_ok [OF cs(1,2), of 0] by (simp_all add: image_fits_def)
  have cnt: "unat (word_of_nat ?cnt :: u32) = ?cnt"
    using total_chunks_le [OF cs(1,2)] n by (intro u32_of_nat) auto
  have B: "?B = ?H @ enc_list m bs 0 cs @ tail_skip bs n cs @ ?C" by (simp add: sparse_image_def)
  have lh: "length ?H = 28" by (simp add: sparse_hdr_def)
  obtain r where r: "rd_ok ?B 28 bs [] (if crc then Some 0 else None) (int n * uint bs) r"
    "sparse_file_import cb fd h f verbose crc =
      bindR (read_chunks_loop ?cnt fd r 12 0) (\<lambda>(ret, cur_block, r).
        if ret < 0 \<or> word_of_nat n \<noteq> cur_block
        then bindR (sparse_file_destroy (rd_heap r) (rd_s r)) (\<lambda>h. Inr (None, h, rd_f r))
        else Inr (Some (rd_s r), rd_heap r, rd_f r))"
    using import_header [OF f B bs _ h, of crc cb fd verbose] n(1) unfolding cnt by auto
  let ?p = "28 + length (enc_list m bs 0 cs @ tail_skip bs n cs)"
  obtain r' where r': "rd_ok ?B ?p bs (read_back fd bs 28 0 cs)
        (map_option (\<lambda>x. sparse_crc32 x (full_bytes m bs n cs)) (if crc then Some 0 else None)) (int n * uint bs) r'"
      "read_chunks_loop ?cnt fd r 12 0 = read_chunks_loop (if ck then 1 else 0) fd r' 12 (word_of_nat n)"
    using read_body [OF r(1) bs B lh rng read_back_append_ok [OF cs] n(2,1), of fd "if ck then 1 else 0"] by auto
  moreover have "ck \<longrightarrow> (\<exists>pre. ?B = pre @ enc_crc (foldl (crc_chunk m bs) 0 cs) @ [] \<and> length pre = ?p)"
    using B lh by (intro impI exI [of _ "?H @ enc_list m bs 0 cs @ tail_skip bs n cs"]) (simp del: of_nat_add)
  ultimately show ?thesis
    using r(2) by (intro exI [of _ r'] exI [of _ ?p]) (cases crc; simp)
qed

lemma import_plain_image:
  assumes "reading (sparse_image m bs n False cs) 0 f" and "heap_ok h" "hp_oom h = []"
    and "chunks_ok bs cs" "image_fits bs n cs" "no_twins bs cs"
  shows "\<exists>s h' f'. sparse_file_import cb fd h f verbose crc = Inr (Some s, h', f')
    \<and> building bs (read_back fd bs 28 0 cs) h' s \<and> sf_len s = int n * uint bs"
  using import_chunks [OF assms, of fd crc cb verbose] by (auto simp: rd_ok_def)

lemma import_crc_null:
  assumes "reading (sparse_image m bs n True cs) 0 f" and "heap_ok h" "hp_oom h = []"
    and "chunks_ok bs cs" "image_fits bs n cs" "no_twins bs cs"
  shows "sparse_file_import cb fd h f verbose False = Inl NullDeref"
proof -
  obtain r p pre where r: "rd_ok (sparse_image m bs n True cs) p bs (read_back fd bs 28 0 cs) None (int n * uint bs) r"
    "sparse_image m bs n True cs = pre @ enc_crc (foldl (crc_chunk m bs) 0 cs) @ []" "length pre = p"
    "sparse_file_import cb fd h f verbose False =
      bindR (read_chunks_loop 1 fd r 12 (word_of_nat n)) (\<lambda>(ret, cur_block, r).
        if ret < 0 \<or> word_of_nat n \<noteq> cur_block
        then bindR (sparse_file_destroy (rd_heap r) (rd_s r)) (\<lambda>h. Inr (None, h, rd_f r))
        else Inr (Some (rd_s r), rd_heap r, rd_f r))"
    using import_chunks [OF assms, of fd False cb verbose] by auto
  show ?thesis using r(4) read_crc_null [OF r(1-3), of 0 fd "word_of_nat n"] by simp
qed

lemma building_destroy:
  assumes "building bs cs h s"
  shows "\<exists>h'. sparse_file_destroy h s = Inr h'"
  using assms backed_block_list_destroy_frees by (fastforce simp: building_def sparse_file_destroy_def)

lemma import_crc_checked:
  assumes "reading (sparse_image m bs n True cs) 0 f" and "heap_ok h" "hp_oom h = []"
    and "chunks_ok bs cs" "image_fits bs n cs" "no_twins bs cs"
  shows "\<exists>s h' f'. sparse_file_import cb fd h f verbose True = Inr (s, h', f')
    \<and> (s \<noteq> None \<longleftrightarrow> foldl (crc_chunk m bs) 0 cs = sparse_crc32 0 (full_bytes m bs n cs))
    \<and> (\<forall>s'. s = Some s' \<longrightarrow> building bs (read_back fd bs 28 0 cs) h' s')"
proof -
  let ?x = "foldl (crc_chunk m bs) 0 cs" and ?c = "sparse_crc32 0 (full_bytes m bs n cs)"
  obtain r p pre where r: "rd_ok (sparse_image m bs n True cs) p bs (read_back fd bs 28 0 cs) (Some ?c) (int n * uint bs) r"
    "sparse_image m bs n True cs = pre @ enc_crc ?x @ []" "length pre = p"
    "sparse_file_import cb fd h f verbose True =
      bindR (read_chunks_loop 1 fd r 12 (word_of_nat n)) (\<lambda>(ret, cur_block, r).
        if ret < 0 \<or> word_of_nat n \<noteq> cur_block
        then bindR (sparse_file_destroy (rd_heap r) (rd_s r)) (\<lambda>h. Inr (None, h, rd_f r))
        else Inr (Some (rd_s r), rd_heap r, rd_f r))"
    using import_chunks [OF assms, of fd True cb verbose] by auto
  obtain r' where r': "rd_ok (sparse_image m bs n True cs) (p + 16) bs (read_back fd bs 28 0 cs) (Some ?c) (int n * uint bs) r'"
    "read_chunks_loop 1 fd r 12 (word_of_nat n) =
       (if ?x = ?c then Inr (0, word_of_nat n, r') else Inr (- EINVAL, word_of_nat n, r'))"
    using read_crc [OF r(1-3), of 0 fd "word_of_nat n"] by auto
  have b: "building bs (read_back fd bs 28 0 cs) (rd_heap r') (rd_s r')" using r'(1) by (simp add: rd_ok_def)
  from building_destroy [OF b] b show ?thesis
    using r(4) r'(2) by (cases "?x = ?c") auto
qed

section \<open>Images that break the list\<close>

text \<open>
  The state after a chunk has been absorbed by its predecessor: the list is well formed, but its
  search pointer refers to a freed node.
\<close>

definition dangling :: "u32 \<Rightarrow> u32 \<Rightarrow> heap \<Rightarrow> sparse_file \<Rightarrow> bool" where
  "dangling bs first h s \<longleftrightarrow> sf_block_size s = bs \<and> hp_oom h = []
     \<and> (\<exists>a as u. list_inv h (data_blocks (sf_list s)) (a # as) \<and> blk (hd (chunks h (a # as))) = first
          \<and> last_used (sf_list s) = Some u \<and> hp_cells h u = None \<and> u < hp_brk h)"

lemma building_absorb:
  assumes b: "building bs cs h s" and bs: "bs \<noteq> 0" and ab: "absorbed bs (block, sz, BACKED_BLOCK_FILL v) cs"
    and fresh: "block \<notin> fst ` set cs"
  shows "\<exists>h' l'. add_bb h (sf_list s) block sz (BACKED_BLOCK_FILL v) = Inr (0, h', l')
    \<and> dangling bs (blk (hd cs)) h' (s\<lparr>sf_list := l'\<rparr>)"
proof -
  obtain as where as: "list_inv h (data_blocks (sf_list s)) as" "last_used_ok (sf_list s) as" "chunks h as = cs"
    and e: "bbl_block_size (sf_list s) = bs" "hp_oom h = []" "sf_block_size s = bs"
    using b by (auto simp: building_def)
  have nf: "fname (block, sz, BACKED_BLOCK_FILL v) = []" by (simp add: fname_def)
  obtain c ds where cs: "cs = c # ds" "blk c < block"
    using absorbed_hd [OF ab] as by (auto simp: list_inv_def)
  from add_bb_refines [OF as(1) _ as(2) _ _ nf] fresh e bs as(3) ab
  obtain h' l' as' where r: "add_bb h (sf_list s) block sz (BACKED_BLOCK_FILL v) = Inr (0, h', l')"
     "list_inv h' (data_blocks l') as'" "chunks h' as' = queue_chunk bs (block, sz, BACKED_BLOCK_FILL v) cs"
     "last_used l' = Some (hp_brk h)" "hp_cells h' (hp_brk h) = None" "hp_oom h' = []" "hp_brk h' = Suc (hp_brk h)"
    by (auto simp: e(1))
  have "as' \<noteq> []" using r(3) queue_chunk_not_Nil chunks_simps(5) [of h' as'] by metis
  moreover have "blk (hd (chunks h' as')) = blk c"
    unfolding r(3) cs(1) using cs(2) insert_after_hd [of bs "(block, sz, BACKED_BLOCK_FILL v)" c ds] by auto
  ultimately show ?thesis using r e cs by (cases as') (auto simp: dangling_def)
qed

lemma dangling_add:
  assumes "dangling bs first (rd_heap r) (rd_s r)" and "first \<le> block"
  shows "add_to_file r (\<lambda>h s. sparse_file_add_fill h s v sz block) = Inl UseAfterFree"
  using assms add_bb_dangling
  by (auto simp: dangling_def add_to_file_def sparse_file_add_fill_def lift_add_def backed_block_add_fill_def)

text \<open>A fill chunk, with whatever becomes of adding it.\<close>

lemma read_fill_add:
  assumes r: "reading B p (rd_f r)" "sf_block_size (rd_s r) = bs" and bs: "bs \<noteq> 0" and fit: "unat bs * m < 2147483648"
    and B: "B = pre @ enc_fill (word_of_nat m) v @ post" "length pre = p"
  shows "\<exists>f. reading B (p + 16) f \<and> (\<exists>g. read_chunks_loop (Suc n) fd r 12 k =
    bindR (add_to_file (r\<lparr>rd_f := f\<rparr>) (\<lambda>h s. sparse_file_add_fill h s v (word_of_nat (unat bs * m)) k)) (\<lambda>(ret, r).
      if ret < 0 then Inr (ret, k, r)
      else read_chunks_loop n fd (r\<lparr>rd_crc := g (rd_crc r)\<rparr>) 12 (k + word_of_nat m)))"
proof -
  let ?H = "chunk_hdr CHUNK_TYPE_FILL (word_of_nat m) 16"
  obtain f1 where f1: "read_all (rd_f r) 12 = (Inr ?H, f1)" "reading B (p + 12) f1"
    using read_next [OF r(1), of pre ?H "u32_le v @ post" 12] B by (auto simp: enc_fill_def)
  obtain f2 where f2: "lseek_cur f1 0 = (int (p + 12), f2)" "reading B (p + 12) f2"
    using lseek_cur_at [OF f1(2), of 0] by auto
  obtain f3 where f3: "read_all f2 4 = (Inr (u32_le v), f3)" "reading B (p + 16) f3"
    using read_next [OF f2(2), of "pre @ ?H" "u32_le v" post 4] B by (auto simp: enc_fill_def add.assoc)
  have b: "0 < unat bs" using bs by (simp add: unat_gt_0)
  have "m \<le> unat bs * m" using b by simp
  then have "m < 4294967296" using fit by linarith
  then have "uint (word_of_nat m :: u32) = int m" using u32_of_nat [of m] by (metis uint_nat)
  then have i: "uint (word_of_nat m :: u32) * uint bs = int (unat bs * m)" by simp
  have c: "to_int (word_of_nat m :: u32) = int m" using bs fit by (rule small_count)
  let ?g = "map_option (\<lambda>x. buf_crc_loop (concat (replicate (COPY_BUF_SIZE div 4) (u32_le v))) x (nat (int (unat bs * m))))"
  let ?add = "add_to_file (r\<lparr>rd_f := f3\<rparr>) (\<lambda>h s. sparse_file_add_fill h s v (word_of_nat (unat bs * m)) k)"
  have "process_fill_chunk (r\<lparr>rd_f := f2\<rparr>) 4 (word_of_nat m) k =
      bindR ?add (\<lambda>(ret, r). if ret < 0 then Inr (ret, r) else Inr (0, r\<lparr>rd_crc := ?g (rd_crc r)\<rparr>))"
    using f3(1) r(2) i by (simp add: process_fill_chunk_def Let_def del: of_nat_mult)
  then have "read_chunks_loop (Suc n) fd r 12 k =
    bindR ?add (\<lambda>(ret, r). if ret < 0 then Inr (ret, k, r)
      else read_chunks_loop n fd (r\<lparr>rd_crc := ?g (rd_crc r)\<rparr>) 12 (k + word_of_nat m))"
    using f1(1) f2(1) c
    by (cases ?add) (auto simp: chunk_hdr_def Let_def process_chunk_def simp del: of_nat_mult)
  then show ?thesis using f3(2) by blast
qed

declare read_chunks_loop.simps [simp del]

lemma import_twin_fills:
  assumes f: "reading B 0 f" and bs: "bs \<noteq> 0" "unat bs < 2147483648" and n: "n < 4294967296"
    and h: "heap_ok h" "hp_oom h = []" and cnt: "3 \<le> unat cnt"
    and B: "B = sparse_hdr bs (int n * uint bs) cnt @ enc_fill 1 v @ enc_fill 1 v @ enc_fill 1 u @ post"
  shows "sparse_file_import cb fd h f verbose crc = Inl UseAfterFree"
proof -
  let ?H = "sparse_hdr bs (int n * uint bs) cnt"
  let ?w = "word_of_nat (unat bs * 1) :: u32"
  have lh: "length ?H = 28" by (simp add: sparse_hdr_def)
  have fit: "unat bs * 1 < 2147483648" using bs(2) by simp
  have one: "word_of_nat 1 = (1 :: u32)" by simp
  obtain r where r: "rd_ok B 28 bs [] (if crc then Some 0 else None) (int n * uint bs) r"
    "sparse_file_import cb fd h f verbose crc =
      bindR (read_chunks_loop (unat cnt) fd r 12 0) (\<lambda>(ret, cur_block, r).
        if ret < 0 \<or> word_of_nat n \<noteq> cur_block
        then bindR (sparse_file_destroy (rd_heap r) (rd_s r)) (\<lambda>h. Inr (None, h, rd_f r))
        else Inr (Some (rd_s r), rd_heap r, rd_f r))"
    using import_header [OF f B bs(1) n h] by blast
  obtain j where j: "unat cnt = Suc (Suc (Suc j))"
    using cnt that [of "unat cnt - 3"] by simp
  have ap: "appendable bs (0, ?w, BACKED_BLOCK_FILL v) []" by (simp add: appendable_def)
  have B1: "B = ?H @ enc_fill (word_of_nat 1) v @ (enc_fill 1 v @ enc_fill 1 u @ post)" using B by simp
  obtain r1 crc1 where r1: "rd_ok B (28 + 16) bs ([] @ [(0, ?w, BACKED_BLOCK_FILL v)]) crc1 (int n * uint bs) r1"
      "read_chunks_loop (Suc (Suc (Suc j))) fd r 12 0 = read_chunks_loop (Suc (Suc j)) fd r1 12 (0 + word_of_nat 1)"
    using read_fill [OF r(1) bs(1) fit B1 lh ap] by blast
  have ld: "reading B (28 + 16) (rd_f r1)" "sf_block_size (rd_s r1) = bs"
    "building bs [(0, bs, BACKED_BLOCK_FILL v)] (rd_heap r1) (rd_s r1)"
    using r1(1) by (simp_all add: rd_ok_def building_def)
  have B2: "B = (?H @ enc_fill 1 v) @ enc_fill (word_of_nat 1) v @ (enc_fill 1 u @ post)"
      "length (?H @ enc_fill 1 v) = 28 + 16" using B lh by simp_all
  obtain f2 g2 where f2: "reading B (28 + 16 + 16) f2" "read_chunks_loop (Suc (Suc j)) fd r1 12 1 =
    bindR (add_to_file (r1\<lparr>rd_f := f2\<rparr>) (\<lambda>h s. sparse_file_add_fill h s v ?w 1)) (\<lambda>(ret, r).
      if ret < 0 then Inr (ret, 1, r)
      else read_chunks_loop (Suc j) fd (r\<lparr>rd_crc := g2 (rd_crc r)\<rparr>) 12 (1 + word_of_nat 1))"
    using read_fill_add [OF ld(1,2) bs(1) fit B2] by blast
  have w: "?w = bs" by simp
  have "bs div bs = 1" using u32_times(3) [OF bs(1), of 1] bs(2) by simp
  then have ab: "absorbed bs (1, bs, BACKED_BLOCK_FILL v) [(0, bs, BACKED_BLOCK_FILL v)]"
    by (simp add: absorbed_def can_merge_def continues_def)
  obtain h' l' where hl: "add_bb (rd_heap r1) (sf_list (rd_s r1)) 1 bs (BACKED_BLOCK_FILL v) = Inr (0, h', l')"
      "dangling bs 0 h' ((rd_s r1)\<lparr>sf_list := l'\<rparr>)"
    using building_absorb [OF ld(3) bs(1) ab] by auto
  let ?r2 = "r1\<lparr>rd_f := f2, rd_heap := h', rd_s := (rd_s r1)\<lparr>sf_list := l'\<rparr>\<rparr>"
  let ?r3 = "?r2\<lparr>rd_crc := g2 (rd_crc ?r2)\<rparr>"
  have r2: "add_to_file (r1\<lparr>rd_f := f2\<rparr>) (\<lambda>h s. sparse_file_add_fill h s v bs 1) = Inr (0, ?r2)"
    using hl(1) by (simp add: add_to_file_def sparse_file_add_fill_def lift_add_def backed_block_add_fill_def)
  have l2: "reading B (28 + 16 + 16) (rd_f ?r3)" "sf_block_size (rd_s ?r3) = bs"
    using f2(1) ld(2) by simp_all
  have B3: "B = (?H @ enc_fill 1 v @ enc_fill 1 v) @ enc_fill (word_of_nat 1) u @ post"
      "length (?H @ enc_fill 1 v @ enc_fill 1 v) = 28 + 16 + 16" using B lh by simp_all
  have "add_to_file (?r3\<lparr>rd_f := f3\<rparr>) (\<lambda>h s. sparse_file_add_fill h s u ?w 2) = Inl UseAfterFree" for f3
    using hl(2) by (intro dangling_add [of bs 0]) simp_all
  then have "read_chunks_loop (Suc j) fd ?r3 12 2 = Inl UseAfterFree"
    using read_fill_add [OF l2 bs(1) fit B3, of j fd 2] by auto
  then have "read_chunks_loop (Suc (Suc j)) fd r1 12 1 = Inl UseAfterFree"
    using f2(2) r2 unfolding w one by simp
  then show ?thesis using r(2) j r1(2) by simp
qed

section \<open>Properties\<close>

lemma demo_image:
  "chunks_ok 4 [(1, 6, BACKED_BLOCK_DATA 0 0), (4, 4, BACKED_BLOCK_FILL 7)]"
  "image_fits 4 6 [(1, 6, BACKED_BLOCK_DATA 0 0), (4, 4, BACKED_BLOCK_FILL 7)]"
  "no_twins 4 [(1, 6, BACKED_BLOCK_DATA 0 0), (4, 4, BACKED_BLOCK_FILL 7)]"
  by (simp_all add: chunks_ok_def before_def blocks_def image_fits_def no_twins_def is_fill_def)

text \<open>
  The checksum chunk is fatal to a reader that does not check sums: importing an image written with
  a checksum while \<^verbatim>\<open>crc\<close> is off dereferences the \<^verbatim>\<open>NULL\<close> pointer \<^verbatim>\<open>crc_ptr\<close>.
\<close>

theorem checksum_unchecked_null:
  assumes "reading (sparse_image m bs n True cs) 0 f" and "heap_ok h" and "hp_oom h = []"
    and "chunks_ok bs cs" and "image_fits bs n cs" and "no_twins bs cs"
  shows "sparse_file_import cb fd h f verbose False = Inl NullDeref"
  by (rule import_crc_null [OF assms])

theorem checksum_unchecked_null_witness:
  "sparse_file_import False 3 empty_heap
     \<lparr>fl_bytes = sparse_image (media_of demo_world demo_heap) 4 6 True [(1, 6, BACKED_BLOCK_DATA 0 0), (4, 4, BACKED_BLOCK_FILL 7)],
       fl_pos = 0, fl_io = [IoPart 5]\<rparr> False False = Inl NullDeref"
  by (rule checksum_unchecked_null [OF _ _ _ demo_image])
     (simp_all add: reading_def heap_ok_def empty_heap_def)



text \<open>
  Two neighbouring fill chunks of one value make the import of a sparse image unsafe: the second is
  merged into the first and freed, and the chunk after it makes \<^verbatim>\<open>queue_bb\<close> read the freed node.  The
  image needs nothing but a valid header and these three chunks.
\<close>

theorem twin_fills_use_after_free:
  assumes "reading B 0 f" and "bs \<noteq> 0" and "unat bs < 2147483648" and "n < 4294967296"
    and "heap_ok h" and "hp_oom h = []" and "3 \<le> unat cnt"
    and "B = sparse_hdr bs (int n * uint bs) cnt @ enc_fill 1 v @ enc_fill 1 v @ enc_fill 1 u @ post"
  shows "sparse_file_import cb fd h f verbose crc = Inl UseAfterFree"
  by (rule import_twin_fills [OF assms])

theorem twin_fills_use_after_free_witness:
  "sparse_file_import False 3 empty_heap
     \<lparr>fl_bytes = sparse_hdr 4096 (int 3 * uint (4096 :: u32)) 3 @ enc_fill 1 0 @ enc_fill 1 0 @ enc_fill 1 9 @ [],
       fl_pos = 0, fl_io = []\<rparr> True True = Inl UseAfterFree"
  by (rule twin_fills_use_after_free [where n = 3 and bs = 4096 and cnt = 3 and v = 0 and u = 9 and post = "[]"])
     (simp_all add: reading_def heap_ok_def empty_heap_def)

end
