(* ===== verification/Sha.thy ===== *)
theory Sha
  imports Knife_Prelude
begin

text \<open>
  The hash functions of \<^verbatim>\<open>libmincrypt\<close>: \<^verbatim>\<open>sha.c\<close> and \<^verbatim>\<open>sha256.c\<close> on the context of \<^verbatim>\<open>hash-internal.h\<close>.  A context
  holds a byte count, a buffer of 64 bytes and the chaining state; \<open>update\<close> fills the buffer byte by
  byte and compresses it whenever it is full, \<open>final\<close> pads through \<open>update\<close> and writes the digest over
  the buffer.  The compression functions take the state and the buffer and are composed of the same
  two loops as in the source, one for the message schedule and one for the rounds.
\<close>

section \<open>Contexts\<close>

datatype hash_vtab = SHA_VTAB | SHA256_VTAB

record hash_ctx =
  ctx_f :: hash_vtab
  ctx_count :: u64
  ctx_buf :: "byte list"
  ctx_state :: "u32 list"

definition be_words :: "byte list \<Rightarrow> u32 list" where
  "be_words buf = map (\<lambda>t. u32_of_be (drop (4 * t) buf)) [0..<16]"

section \<open>SHA-1\<close>

definition rol :: "nat \<Rightarrow> u32 \<Rightarrow> u32" where
  "rol bits v = push_bit bits v OR drop_bit (32 - bits) v"

definition sha1_schedule :: "byte list \<Rightarrow> u32 list" where
  "sha1_schedule buf = foldl (\<lambda>W t. W @ [rol 1 (W ! (t - 3) XOR W ! (t - 8) XOR W ! (t - 14) XOR W ! (t - 16))])
     (be_words buf) [16..<80]"

definition sha1_round :: "u32 list \<Rightarrow> u32 \<times> u32 \<times> u32 \<times> u32 \<times> u32 \<Rightarrow> nat \<Rightarrow> u32 \<times> u32 \<times> u32 \<times> u32 \<times> u32" where
  "sha1_round W = (\<lambda>(A, B, C, D, E) t.
    (let tmp = rol 5 A + E + W ! t;
         tmp = (if t < 20 then tmp + ((D XOR (B AND (C XOR D))) + 0x5A827999)
                else if t < 40 then tmp + ((B XOR C XOR D) + 0x6ED9EBA1)
                else if t < 60 then tmp + (((B AND C) OR (D AND (B OR C))) + 0x8F1BBCDC)
                else tmp + ((B XOR C XOR D) + 0xCA62C1D6))
     in (tmp, A, rol 30 B, C, D)))"

definition SHA1_Transform :: "hash_ctx \<Rightarrow> hash_ctx" where
  "SHA1_Transform ctx =
    (let W = sha1_schedule (ctx_buf ctx); s = ctx_state ctx in
     case foldl (sha1_round W) (s ! 0, s ! 1, s ! 2, s ! 3, s ! 4) [0..<80] of (A, B, C, D, E) \<Rightarrow>
       ctx\<lparr>ctx_state := s[0 := s ! 0 + A, 1 := s ! 1 + B, 2 := s ! 2 + C, 3 := s ! 3 + D, 4 := s ! 4 + E]\<rparr>)"

definition SHA_init :: "hash_ctx \<Rightarrow> hash_ctx" where
  "SHA_init ctx = ctx\<lparr>ctx_f := SHA_VTAB, ctx_state := (ctx_state ctx)[0 := 0x67452301, 1 := 0xEFCDAB89,
     2 := 0x98BADCFE, 3 := 0x10325476, 4 := 0xC3D2E1F0], ctx_count := 0\<rparr>"

text \<open>The loop of the two update functions; \<open>i\<close> is the position in the buffer.\<close>

fun update_loop :: "(hash_ctx \<Rightarrow> hash_ctx) \<Rightarrow> hash_ctx \<Rightarrow> nat \<Rightarrow> byte list \<Rightarrow> hash_ctx" where
  "update_loop tr ctx i [] = ctx"
| "update_loop tr ctx i (p # ps) =
    (let ctx = ctx\<lparr>ctx_buf := (ctx_buf ctx)[i := p]\<rparr> in
     if Suc i = 64 then update_loop tr (tr ctx) 0 ps else update_loop tr ctx (Suc i) ps)"

definition SHA_update :: "hash_ctx \<Rightarrow> byte list \<Rightarrow> hash_ctx" where
  "SHA_update ctx data =
     update_loop SHA1_Transform (ctx\<lparr>ctx_count := ctx_count ctx + word_of_nat (length data)\<rparr>)
       (unat (ctx_count ctx AND 63)) data"

lemma update_loop_count:
  "(\<And>c. ctx_count (tr c) = ctx_count c) \<Longrightarrow> ctx_count (update_loop tr ctx i data) = ctx_count ctx"
  by (induction data arbitrary: ctx i) (auto simp: Let_def)

lemma SHA1_Transform_count [simp]: "ctx_count (SHA1_Transform ctx) = ctx_count ctx"
  by (simp add: SHA1_Transform_def Let_def split: prod.splits)

lemma SHA_update_count: "ctx_count (SHA_update ctx data) = ctx_count ctx + word_of_nat (length data)"
  by (simp add: SHA_update_def update_loop_count)

text \<open>The padding distance to 56 modulo 64 shrinks with every zero byte.\<close>

lemma and_63: "unat ((x :: u64) AND 63) = unat x mod 64"
proof -
  have "x AND 63 = take_bit 6 x" by (simp add: take_bit_eq_mask mask_eq_exp_minus_1)
  then show ?thesis by (simp add: take_bit_eq_mod unat_mod)
qed

lemma unat_add_mod_64: "unat ((x :: u64) + word_of_nat n) mod 64 = (unat x + n) mod 64"
proof -
  have "unat (x + word_of_nat n) = (unat x + n) mod 2 ^ 64"
    by (simp add: unat_word_ariths unat_of_nat mod_simps)
  moreover have "(64 :: nat) dvd 2 ^ 64" by simp
  ultimately show ?thesis by (simp add: mod_mod_cancel)
qed

lemma pad_gap: "q < 64 \<Longrightarrow> (120 - q) mod 64 = (if q \<le> 56 then 56 - q else 120 - q :: nat)"
  using le_mod_geq [of 64 "120 - q"] by simp

lemma pad_gap_Suc:
  assumes "q < 64" "q \<noteq> 56"
  shows "(120 - q) mod 64 = Suc ((120 - Suc q mod 64) mod 64)"
proof -
  consider "q = 63" | "q < 56" | "56 < q" "q < 63" using assms by linarith
  then show ?thesis using pad_gap [OF assms(1)] pad_gap [of "Suc q mod 64"] by cases auto
qed

lemma pad_distance:
  fixes c :: u64
  assumes "c AND 63 \<noteq> 56"
  shows "(120 - unat ((c + 1) AND 63)) mod 64 < (120 - unat (c AND 63)) mod 64"
proof -
  have "unat c mod 64 \<noteq> 56"
  proof
    assume "unat c mod 64 = 56"
    then have "unat (c AND 63) = 56" by (simp add: and_63)
    from word_of_nat_eqI [OF this] assms show False by simp
  qed
  moreover have "unat (c + 1) mod 64 = Suc (unat c mod 64) mod 64"
    using unat_add_mod_64 [of c 1] by (simp add: mod_simps)
  ultimately show ?thesis using pad_gap_Suc [of "unat c mod 64"] by (simp add: and_63)
qed

function SHA_pad :: "hash_ctx \<Rightarrow> hash_ctx" where
  "SHA_pad ctx = (if ctx_count ctx AND 63 \<noteq> 56 then SHA_pad (SHA_update ctx [0]) else ctx)"
  by pat_completeness auto
termination
  by (relation "measure (\<lambda>ctx. (120 - unat (ctx_count ctx AND 63)) mod 64)") (auto simp: SHA_update_count pad_distance)

declare SHA_pad.simps [simp del]

definition SHA_final :: "hash_ctx \<Rightarrow> byte list \<times> hash_ctx" where
  "SHA_final ctx =
    (let cnt = ctx_count ctx * 8;
         ctx = SHA_update ctx [0x80];
         ctx = SHA_pad ctx;
         ctx = foldl (\<lambda>ctx i. SHA_update ctx [ucast (drop_bit ((7 - i) * 8) cnt)]) ctx [0..<8];
         digest = concat (map (\<lambda>i. u32_be (ctx_state ctx ! i)) [0..<5]);
         ctx = ctx\<lparr>ctx_buf := digest @ drop 20 (ctx_buf ctx)\<rparr>
     in (ctx_buf ctx, ctx))"

definition SHA_hash :: "hash_ctx \<Rightarrow> byte list \<Rightarrow> byte list" where
  "SHA_hash ctx data = take 20 (fst (SHA_final (SHA_update (SHA_init ctx) data)))"


section \<open>SHA-256\<close>

definition ror :: "u32 \<Rightarrow> nat \<Rightarrow> u32" where
  "ror v bits = drop_bit bits v OR push_bit (32 - bits) v"

definition K :: "u32 list" where
  "K = concat
    [[0x428a2f98, 0x71374491, 0xb5c0fbcf, 0xe9b5dba5],
     [0x3956c25b, 0x59f111f1, 0x923f82a4, 0xab1c5ed5],
     [0xd807aa98, 0x12835b01, 0x243185be, 0x550c7dc3],
     [0x72be5d74, 0x80deb1fe, 0x9bdc06a7, 0xc19bf174],
     [0xe49b69c1, 0xefbe4786, 0x0fc19dc6, 0x240ca1cc],
     [0x2de92c6f, 0x4a7484aa, 0x5cb0a9dc, 0x76f988da],
     [0x983e5152, 0xa831c66d, 0xb00327c8, 0xbf597fc7],
     [0xc6e00bf3, 0xd5a79147, 0x06ca6351, 0x14292967],
     [0x27b70a85, 0x2e1b2138, 0x4d2c6dfc, 0x53380d13],
     [0x650a7354, 0x766a0abb, 0x81c2c92e, 0x92722c85],
     [0xa2bfe8a1, 0xa81a664b, 0xc24b8b70, 0xc76c51a3],
     [0xd192e819, 0xd6990624, 0xf40e3585, 0x106aa070],
     [0x19a4c116, 0x1e376c08, 0x2748774c, 0x34b0bcb5],
     [0x391c0cb3, 0x4ed8aa4a, 0x5b9cca4f, 0x682e6ff3],
     [0x748f82ee, 0x78a5636f, 0x84c87814, 0x8cc70208],
     [0x90befffa, 0xa4506ceb, 0xbef9a3f7, 0xc67178f2]]"

definition sha256_schedule :: "byte list \<Rightarrow> u32 list" where
  "sha256_schedule buf = foldl (\<lambda>W t.
      (let s0 = ror (W ! (t - 15)) 7 XOR ror (W ! (t - 15)) 18 XOR drop_bit 3 (W ! (t - 15));
           s1 = ror (W ! (t - 2)) 17 XOR ror (W ! (t - 2)) 19 XOR drop_bit 10 (W ! (t - 2))
       in W @ [W ! (t - 16) + s0 + W ! (t - 7) + s1]))
     (be_words buf) [16..<64]"

definition sha256_round :: "u32 list \<Rightarrow> u32 \<times> u32 \<times> u32 \<times> u32 \<times> u32 \<times> u32 \<times> u32 \<times> u32 \<Rightarrow> nat \<Rightarrow>
    u32 \<times> u32 \<times> u32 \<times> u32 \<times> u32 \<times> u32 \<times> u32 \<times> u32" where
  "sha256_round W = (\<lambda>(A, B, C, D, E, F, G, H) t.
    (let s0 = ror A 2 XOR ror A 13 XOR ror A 22;
         maj = (A AND B) XOR (A AND C) XOR (B AND C);
         t2 = s0 + maj;
         s1 = ror E 6 XOR ror E 11 XOR ror E 25;
         ch = (E AND F) XOR ((NOT E) AND G);
         t1 = H + s1 + ch + K ! t + W ! t
     in (t1 + t2, A, B, C, D + t1, E, F, G)))"

definition SHA256_Transform :: "hash_ctx \<Rightarrow> hash_ctx" where
  "SHA256_Transform ctx =
    (let W = sha256_schedule (ctx_buf ctx); s = ctx_state ctx in
     case foldl (sha256_round W) (s ! 0, s ! 1, s ! 2, s ! 3, s ! 4, s ! 5, s ! 6, s ! 7) [0..<64] of
       (A, B, C, D, E, F, G, H) \<Rightarrow>
       ctx\<lparr>ctx_state := s[0 := s ! 0 + A, 1 := s ! 1 + B, 2 := s ! 2 + C, 3 := s ! 3 + D,
         4 := s ! 4 + E, 5 := s ! 5 + F, 6 := s ! 6 + G, 7 := s ! 7 + H]\<rparr>)"

definition SHA256_init :: "hash_ctx \<Rightarrow> hash_ctx" where
  "SHA256_init ctx = ctx\<lparr>ctx_f := SHA256_VTAB, ctx_state := (ctx_state ctx)[0 := 0x6a09e667,
     1 := 0xbb67ae85, 2 := 0x3c6ef372, 3 := 0xa54ff53a, 4 := 0x510e527f, 5 := 0x9b05688c,
     6 := 0x1f83d9ab, 7 := 0x5be0cd19], ctx_count := 0\<rparr>"

definition SHA256_update :: "hash_ctx \<Rightarrow> byte list \<Rightarrow> hash_ctx" where
  "SHA256_update ctx data =
     update_loop SHA256_Transform (ctx\<lparr>ctx_count := ctx_count ctx + word_of_nat (length data)\<rparr>)
       (unat (ctx_count ctx AND 63)) data"

lemma SHA256_Transform_count [simp]: "ctx_count (SHA256_Transform ctx) = ctx_count ctx"
  by (simp add: SHA256_Transform_def Let_def split: prod.splits)

lemma SHA256_update_count:
  "ctx_count (SHA256_update ctx data) = ctx_count ctx + word_of_nat (length data)"
  by (simp add: SHA256_update_def update_loop_count)

function SHA256_pad :: "hash_ctx \<Rightarrow> hash_ctx" where
  "SHA256_pad ctx = (if ctx_count ctx AND 63 \<noteq> 56 then SHA256_pad (SHA256_update ctx [0]) else ctx)"
  by pat_completeness auto
termination
  by (relation "measure (\<lambda>ctx. (120 - unat (ctx_count ctx AND 63)) mod 64)")
    (auto simp: SHA256_update_count pad_distance)

declare SHA256_pad.simps [simp del]

definition SHA256_final :: "hash_ctx \<Rightarrow> byte list \<times> hash_ctx" where
  "SHA256_final ctx =
    (let cnt = ctx_count ctx * 8;
         ctx = SHA256_update ctx [0x80];
         ctx = SHA256_pad ctx;
         ctx = foldl (\<lambda>ctx i. SHA256_update ctx [ucast (drop_bit ((7 - i) * 8) cnt)]) ctx [0..<8];
         digest = concat (map (\<lambda>i. u32_be (ctx_state ctx ! i)) [0..<8]);
         ctx = ctx\<lparr>ctx_buf := digest @ drop 32 (ctx_buf ctx)\<rparr>
     in (ctx_buf ctx, ctx))"

definition SHA256_hash :: "hash_ctx \<Rightarrow> byte list \<Rightarrow> byte list" where
  "SHA256_hash ctx data = take 32 (fst (SHA256_final (SHA256_update (SHA256_init ctx) data)))"

section \<open>Calls through the table of a context\<close>

definition HASH_init :: "hash_ctx \<Rightarrow> hash_ctx" where
  "HASH_init ctx = (case ctx_f ctx of SHA_VTAB \<Rightarrow> SHA_init ctx | SHA256_VTAB \<Rightarrow> SHA256_init ctx)"

definition HASH_update :: "hash_ctx \<Rightarrow> byte list \<Rightarrow> hash_ctx" where
  "HASH_update ctx data =
     (case ctx_f ctx of SHA_VTAB \<Rightarrow> SHA_update ctx data | SHA256_VTAB \<Rightarrow> SHA256_update ctx data)"

definition HASH_final :: "hash_ctx \<Rightarrow> byte list \<times> hash_ctx" where
  "HASH_final ctx = (case ctx_f ctx of SHA_VTAB \<Rightarrow> SHA_final ctx | SHA256_VTAB \<Rightarrow> SHA256_final ctx)"

definition HASH_size :: "hash_ctx \<Rightarrow> nat" where
  "HASH_size ctx = (case ctx_f ctx of SHA_VTAB \<Rightarrow> 20 | SHA256_VTAB \<Rightarrow> 32)"


section \<open>The hash of a message by blocks\<close>

text \<open>
  The message a context has absorbed, by the Merkle-Damgard construction of FIPS 180-4: the complete
  blocks of 64 bytes have been compressed in order and the rest is at the front of the buffer.
\<close>

definition blocks64 :: "byte list \<Rightarrow> byte list list" where
  "blocks64 m = map (\<lambda>i. take 64 (drop (64 * i) m)) [0..<length m div 64]"

definition fips_pad :: "byte list \<Rightarrow> byte list" where
  "fips_pad m = m @ [0x80] @ replicate ((119 - length m mod 64) mod 64) 0
     @ map (\<lambda>i. ucast (drop_bit ((7 - i) * 8) (word_of_nat (8 * length m) :: u64))) [0..<8]"

lemma blocks64_Nil [simp]: "blocks64 [] = []"
  by (simp add: blocks64_def)

lemma blocks64_snoc_full:
  assumes "length m mod 64 = 63"
  shows "blocks64 (m @ [b]) = blocks64 m @ [drop (64 * (length m div 64)) m @ [b]]"
proof -
  define k where "k = length m div 64"
  have len: "length m = 64 * k + 63" using assms div_mult_mod_eq [of "length m" 64] by (simp add: k_def)
  have "map (\<lambda>i. take 64 (drop (64 * i) (m @ [b]))) [0..<k] = map (\<lambda>i. take 64 (drop (64 * i) m)) [0..<k]"
    using len by (intro map_cong) auto
  then show ?thesis by (simp add: blocks64_def len)
qed

lemma blocks64_snoc_part:
  assumes "length m mod 64 \<noteq> 63"
  shows "blocks64 (m @ [b]) = blocks64 m"
proof -
  define k where "k = length m div 64"
  have d: "Suc (length m) div 64 = k" using assms by (simp add: k_def div_Suc mod_Suc)
  have "64 * k \<le> length m" by (simp add: k_def)
  then have "map (\<lambda>i. take 64 (drop (64 * i) (m @ [b]))) [0..<k] = map (\<lambda>i. take 64 (drop (64 * i) m)) [0..<k]"
    by (intro map_cong) auto
  then show ?thesis by (simp add: blocks64_def d k_def)
qed

locale md_hash =
  fixes tr :: "hash_ctx \<Rightarrow> hash_ctx"
    and cf :: "u32 list \<Rightarrow> byte list \<Rightarrow> u32 list"
    and upd :: "hash_ctx \<Rightarrow> byte list \<Rightarrow> hash_ctx"
    and pad :: "hash_ctx \<Rightarrow> hash_ctx"
  assumes tr_cf: "tr ctx = ctx\<lparr>ctx_state := cf (ctx_state ctx) (ctx_buf ctx)\<rparr>"
    and upd_loop: "upd ctx data = update_loop tr (ctx\<lparr>ctx_count := ctx_count ctx + word_of_nat (length data)\<rparr>)
                     (unat (ctx_count ctx AND 63)) data"
    and pad_loop: "pad ctx = (if ctx_count ctx AND 63 \<noteq> 56 then pad (upd ctx [0]) else ctx)"
begin

definition absorbed :: "u32 list \<Rightarrow> byte list \<Rightarrow> hash_ctx \<Rightarrow> bool" where
  "absorbed iv m ctx \<longleftrightarrow> ctx_count ctx = word_of_nat (length m) \<and> length (ctx_buf ctx) = 64
     \<and> ctx_state ctx = foldl cf iv (blocks64 m)
     \<and> take (length m mod 64) (ctx_buf ctx) = drop (64 * (length m div 64)) m"

lemma loop_append:
  "i < 64 \<Longrightarrow> update_loop tr ctx i (xs @ ys) = update_loop tr (update_loop tr ctx i xs) ((i + length xs) mod 64) ys"
proof (induction xs arbitrary: ctx i)
  case (Cons x xs)
  show ?case
  proof (cases "Suc i = 64")
    case True
    then have "(i + length (x # xs)) mod 64 = length xs mod 64" by (metis add_Suc_shift length_Cons mod_add_self1)
    then show ?thesis using True Cons.IH [of 0] by (simp add: Let_def)
  next
    case False
    then show ?thesis using Cons.IH [of "Suc i"] Cons.prems by (simp add: Let_def)
  qed
qed simp

lemma loop_count_update:
  "update_loop tr (ctx\<lparr>ctx_count := c\<rparr>) i xs = (update_loop tr ctx i xs)\<lparr>ctx_count := c\<rparr>"
proof (induction xs arbitrary: ctx i)
  case (Cons x xs)
  have sw: "ctx\<lparr>ctx_count := c\<rparr>\<lparr>ctx_buf := b\<rparr> = ctx\<lparr>ctx_buf := b\<rparr>\<lparr>ctx_count := c\<rparr>" for b by simp
  have sel: "ctx_buf (ctx\<lparr>ctx_count := c\<rparr>) = ctx_buf ctx" by simp
  have t: "tr (d\<lparr>ctx_count := c\<rparr>) = (tr d)\<lparr>ctx_count := c\<rparr>" for d by (simp add: tr_cf)
  show ?case
    by (cases "Suc i = 64") (simp_all only: update_loop.simps Let_def sel sw t Cons.IH if_True if_False refl)
qed simp

theorem upd_append: "upd (upd ctx xs) ys = upd ctx (xs @ ys)"
proof -
  have i: "unat (ctx_count ctx AND 63) < 64" by (simp add: and_63)
  have "(unat (ctx_count ctx AND 63) + length xs) mod 64 = unat (ctx_count ctx + word_of_nat (length xs) AND 63)"
    by (simp add: and_63 unat_add_mod_64 mod_simps)
  then show ?thesis
    by (simp add: upd_loop loop_append [OF i] loop_count_update add.assoc)
qed

lemma absorb_byte:
  assumes "absorbed iv m ctx"
  shows "absorbed iv (m @ [b]) (upd ctx [b])"
proof -
  have i: "unat (ctx_count ctx AND 63) = length m mod 64"
    using assms by (simp add: absorbed_def and_63 unat_add_mod_64 [of 0, simplified])
  have t: "take (length m mod 64) (ctx_buf ctx) = drop (64 * (length m div 64)) m" and l: "length (ctx_buf ctx) = 64"
    using assms by (simp_all add: absorbed_def)
  have snoc: "take (Suc (length m mod 64)) ((ctx_buf ctx)[length m mod 64 := b]) = drop (64 * (length m div 64)) m @ [b]"
    using t l by (simp add: take_Suc_conv_app_nth)
  show ?thesis
  proof (cases "length m mod 64 = 63")
    case True
    then have "(ctx_buf ctx)[63 := b] = drop (64 * (length m div 64)) m @ [b]" using snoc l by simp
    moreover have "Suc (length m) mod 64 = 0" using True by (simp add: mod_Suc)
    moreover from this have "64 * (Suc (length m) div 64) = Suc (length m)" by presburger
    ultimately show ?thesis using assms True i
      by (simp add: absorbed_def upd_loop tr_cf blocks64_snoc_full minus_mult_div_eq_mod)
  next
    case False
    then show ?thesis using assms i snoc
      by (simp add: absorbed_def upd_loop tr_cf blocks64_snoc_part mod_Suc div_Suc)
  qed
qed

lemma absorb: "absorbed iv m ctx \<Longrightarrow> absorbed iv (m @ xs) (upd ctx xs)"
proof (induction xs rule: rev_induct)
  case Nil
  then show ?case by (simp add: upd_loop)
next
  case (snoc x xs)
  then have "absorbed iv ((m @ xs) @ [x]) (upd (upd ctx xs) [x])" by (intro absorb_byte) simp
  then show ?case by (simp add: upd_append)
qed

lemma absorbed_at_56: "absorbed iv m ctx \<Longrightarrow> ctx_count ctx AND 63 = 56 \<longleftrightarrow> length m mod 64 = 56"
proof -
  assume "absorbed iv m ctx"
  then have u: "unat (ctx_count ctx AND 63) = length m mod 64"
    by (simp add: absorbed_def and_63 unat_add_mod_64 [of 0, simplified])
  show ?thesis
  proof
    assume "length m mod 64 = 56"
    from word_of_nat_eqI [OF u [unfolded this]] show "ctx_count ctx AND 63 = 56" by simp
  next
    assume "ctx_count ctx AND 63 = 56"
    then show "length m mod 64 = 56" using u by simp
  qed
qed

lemma absorb_pad:
  "absorbed iv m ctx \<Longrightarrow> absorbed iv (m @ replicate ((120 - length m mod 64) mod 64) 0) (pad ctx)"
proof (induction "(120 - length m mod 64) mod 64" arbitrary: m ctx)
  case 0
  then have "length m mod 64 = 56" using pad_gap [of "length m mod 64"] by (simp split: if_splits)
  then show ?case using 0 pad_loop [of ctx] by (simp add: absorbed_at_56)
next
  case (Suc k)
  then have ne: "length m mod 64 \<noteq> 56" by auto
  have "absorbed iv (m @ [0]) (upd ctx [0])" using Suc.prems by (rule absorb_byte)
  moreover have "k = (120 - length (m @ [0]) mod 64) mod 64"
    using Suc.hyps(2) pad_gap_Suc [of "length m mod 64"] ne by (simp add: mod_simps)
  ultimately have "absorbed iv ((m @ [0]) @ replicate k 0) (pad (upd ctx [0]))"
    using Suc.hyps(1) [of "m @ [0]" "upd ctx [0]"] by simp
  moreover have "pad ctx = pad (upd ctx [0])"
    using ne pad_loop [of ctx] absorbed_at_56 [OF Suc.prems] by simp
  ultimately show ?case using Suc.hyps(2) [symmetric] by simp
qed

text \<open>Feeding single bytes is feeding them together.\<close>

lemma upd_bytes: "foldl (\<lambda>ctx i. upd ctx [f i]) ctx is = upd ctx (map f is)"
  by (induction "is" arbitrary: ctx) (simp_all add: upd_append, simp add: upd_loop)

theorem absorb_final:
  assumes "absorbed iv m ctx"
  shows "absorbed iv (fips_pad m)
    (foldl (\<lambda>c i. upd c [ucast (drop_bit ((7 - i) * 8) (ctx_count ctx * 8))]) (pad (upd ctx [0x80])) [0..<8])"
proof -
  have len: "(120 - length (m @ [0x80]) mod 64) mod 64 = (119 - length m mod 64) mod 64"
    using pad_gap [of "Suc (length m) mod 64"] le_mod_geq [of 64 "119 - length m mod 64"] by (simp add: mod_Suc)
  have "absorbed iv ((m @ [0x80]) @ replicate ((120 - length (m @ [0x80]) mod 64) mod 64) 0) (pad (upd ctx [0x80]))"
    using assms by (intro absorb_pad absorb_byte)
  from absorb [OF this] have "absorbed iv (((m @ [0x80]) @ replicate ((119 - length m mod 64) mod 64) 0) @ xs)
     (upd (pad (upd ctx [0x80])) xs)" for xs unfolding len .
  moreover have "ctx_count ctx * 8 = word_of_nat (8 * length m)" using assms by (simp add: absorbed_def)
  ultimately show ?thesis by (simp only: upd_bytes fips_pad_def append_assoc)
qed

end

section \<open>The compression functions of FIPS 180-4\<close>

definition Ch :: "u32 \<Rightarrow> u32 \<Rightarrow> u32 \<Rightarrow> u32" where
  "Ch x y z = (x AND y) XOR (NOT x AND z)"

definition Parity :: "u32 \<Rightarrow> u32 \<Rightarrow> u32 \<Rightarrow> u32" where
  "Parity x y z = x XOR y XOR z"

definition Maj :: "u32 \<Rightarrow> u32 \<Rightarrow> u32 \<Rightarrow> u32" where
  "Maj x y z = (x AND y) XOR (x AND z) XOR (y AND z)"

fun fips_W1 :: "byte list \<Rightarrow> nat \<Rightarrow> u32" where
  "fips_W1 M t = (if t < 16 then u32_of_be (drop (4 * t) M)
     else word_rotl 1 (fips_W1 M (t - 3) XOR fips_W1 M (t - 8) XOR fips_W1 M (t - 14) XOR fips_W1 M (t - 16)))"

declare fips_W1.simps [simp del]

definition fips_f1 :: "nat \<Rightarrow> u32 \<Rightarrow> u32 \<Rightarrow> u32 \<Rightarrow> u32" where
  "fips_f1 t = (if t < 20 then Ch else if t < 40 then Parity else if t < 60 then Maj else Parity)"

definition fips_K1 :: "nat \<Rightarrow> u32" where
  "fips_K1 t = (if t < 20 then 0x5a827999 else if t < 40 then 0x6ed9eba1
     else if t < 60 then 0x8f1bbcdc else 0xca62c1d6)"

primrec fips_rounds1 :: "byte list \<Rightarrow> u32 list \<Rightarrow> nat \<Rightarrow> u32 list" where
  "fips_rounds1 M H 0 = H"
| "fips_rounds1 M H (Suc t) = (case fips_rounds1 M H t of [a, b, c, d, e] \<Rightarrow>
     [word_rotl 5 a + fips_f1 t b c d + e + fips_K1 t + fips_W1 M t, a, word_rotl 30 b, c, d] | _ \<Rightarrow> [])"

definition fips_sha1_block :: "u32 list \<Rightarrow> byte list \<Rightarrow> u32 list" where
  "fips_sha1_block H M = map2 (+) H (fips_rounds1 M H 80)"

definition fips_sha1 :: "byte list \<Rightarrow> byte list" where
  "fips_sha1 m = concat (map u32_be (foldl fips_sha1_block
     [0x67452301, 0xefcdab89, 0x98badcfe, 0x10325476, 0xc3d2e1f0] (blocks64 (fips_pad m))))"

fun fips_W2 :: "byte list \<Rightarrow> nat \<Rightarrow> u32" where
  "fips_W2 M t = (if t < 16 then u32_of_be (drop (4 * t) M)
     else (let w = fips_W2 M (t - 2); v = fips_W2 M (t - 15) in
       (word_rotr 17 w XOR word_rotr 19 w XOR drop_bit 10 w) + fips_W2 M (t - 7)
       + (word_rotr 7 v XOR word_rotr 18 v XOR drop_bit 3 v) + fips_W2 M (t - 16)))"

declare fips_W2.simps [simp del]

text \<open>
  The constants of SHA-256 as the standard defines them: the first 32 bits of the fractional parts of the cube
  roots of the first 64 primes.
\<close>

definition fips_primes :: "nat list" where
  "fips_primes = concat
    [[2, 3, 5, 7, 11, 13, 17, 19, 23, 29, 31, 37, 41, 43, 47, 53],
     [59, 61, 67, 71, 73, 79, 83, 89, 97, 101, 103, 107, 109, 113, 127, 131],
     [137, 139, 149, 151, 157, 163, 167, 173, 179, 181, 191, 193, 197, 199, 211, 223],
     [227, 229, 233, 239, 241, 251, 257, 263, 269, 271, 277, 281, 283, 293, 307, 311]]"

definition cube_root :: "nat \<Rightarrow> nat" where
  "cube_root n = (GREATEST r. r ^ 3 \<le> n)"

definition fips_K2 :: "nat \<Rightarrow> u32" where
  "fips_K2 t = word_of_nat (cube_root (fips_primes ! t * 2 ^ 96))"

primrec fips_rounds2 :: "byte list \<Rightarrow> u32 list \<Rightarrow> nat \<Rightarrow> u32 list" where
  "fips_rounds2 M H 0 = H"
| "fips_rounds2 M H (Suc t) = (case fips_rounds2 M H t of [a, b, c, d, e, f, g, h] \<Rightarrow>
     (let T1 = h + (word_rotr 6 e XOR word_rotr 11 e XOR word_rotr 25 e) + Ch e f g + fips_K2 t + fips_W2 M t;
          T2 = (word_rotr 2 a XOR word_rotr 13 a XOR word_rotr 22 a) + Maj a b c
      in [T1 + T2, a, b, c, d + T1, e, f, g]) | _ \<Rightarrow> [])"

definition fips_sha256_block :: "u32 list \<Rightarrow> byte list \<Rightarrow> u32 list" where
  "fips_sha256_block H M = map2 (+) H (fips_rounds2 M H 64)"

definition fips_sha256 :: "byte list \<Rightarrow> byte list" where
  "fips_sha256 m = concat (map u32_be (foldl fips_sha256_block
     [0x6a09e667, 0xbb67ae85, 0x3c6ef372, 0xa54ff53a, 0x510e527f, 0x9b05688c, 0x1f83d9ab, 0x5be0cd19]
     (blocks64 (fips_pad m))))"

lemma rol_rotl:
  assumes "0 < bits" "bits < 32"
  shows "rol bits v = word_rotl bits v"
proof (rule bit_word_eqI)
  fix n :: nat assume "n < LENGTH(32)"
  then show "bit (rol bits v) n \<longleftrightarrow> bit (word_rotl bits v) n"
    using assms le_mod_geq [of 32 "n + (32 - bits)"]
    by (cases "n < bits") (auto simp: rol_def bit_simps bit_word_rotl_iff add.commute [of n 32] dest: bit_imp_le_length)
qed

lemma ror_rotr:
  assumes "0 < bits" "bits < 32"
  shows "ror v bits = word_rotr bits v"
proof (rule bit_word_eqI)
  fix n :: nat assume "n < LENGTH(32)"
  then show "bit (ror v bits) n \<longleftrightarrow> bit (word_rotr bits v) n"
    using assms le_mod_geq [of 32 "n + bits"]
    by (cases "n + bits < 32") (auto simp: ror_def bit_simps bit_word_rotr_iff add.commute [of n bits] dest: bit_imp_le_length)
qed

lemma ch_select: "D XOR (B AND (C XOR D)) = Ch B C D"
  by (rule bit_word_eqI) (auto simp: Ch_def bit_simps)

lemma maj_select: "(B AND C) OR (D AND (B OR C)) = Maj B C D"
  by (rule bit_word_eqI) (auto simp: Maj_def bit_simps)

lemma schedule_fold:
  assumes "\<And>W t. 16 \<le> t \<Longrightarrow> length W = t \<Longrightarrow> (\<And>j. j < t \<Longrightarrow> W ! j = f j) \<Longrightarrow> g W t = f t"
    and "length W0 = 16" "\<And>j. j < 16 \<Longrightarrow> W0 ! j = f j"
  shows "16 \<le> n \<Longrightarrow> foldl (\<lambda>W t. W @ [g W t]) W0 [16..<n] = map f [0..<n]"
proof (induction n rule: nat_induct_at_least)
  case base
  show ?case using assms(2,3) by (intro nth_equalityI) auto
next
  case (Suc n)
  have "g (map f [0..<n]) n = f n" using Suc.hyps by (intro assms(1)) auto
  then show ?case using Suc by simp
qed

lemma sha1_schedule_fips: "sha1_schedule buf = map (fips_W1 buf) [0..<80]"
  unfolding sha1_schedule_def
  by (rule schedule_fold) (auto simp: be_words_def rol_rotl fips_W1.simps [of _ "_ :: nat"])

lemma sha256_schedule_fips: "sha256_schedule buf = map (fips_W2 buf) [0..<64]"
  unfolding sha256_schedule_def Let_def
  by (rule schedule_fold) (auto simp: be_words_def ror_rotr fips_W2.simps Let_def)

lemma sha1_rounds_fips:
  "n \<le> 80 \<Longrightarrow> case foldl (sha1_round (map (fips_W1 M) [0..<80])) (a, b, c, d, e) [0..<n] of
     (A, B, C, D, E) \<Rightarrow> fips_rounds1 M [a, b, c, d, e] n = [A, B, C, D, E]"
proof (induction n)
  case (Suc n)
  then show ?case
    by (auto simp: sha1_round_def Let_def rol_rotl ch_select maj_select fips_f1_def fips_K1_def Parity_def
        ac_simps split: prod.splits)
qed simp

lemma cube_root_eq:
  assumes "r ^ 3 \<le> n" "n < (r + 1) ^ 3"
  shows "cube_root n = r"
  unfolding cube_root_def
proof (rule Greatest_equality)
  show "r ^ 3 \<le> n" by (rule assms(1))
  fix q assume "q ^ 3 \<le> n"
  then have "q ^ 3 < (r + 1) ^ 3" using assms(2) by simp
  then have "q < r + 1" by (rule power_less_imp_less_base) simp
  then show "q \<le> r" by simp
qed

definition cube_root_bits :: "nat \<Rightarrow> u32 \<Rightarrow> bool" where
  "cube_root_bits p k \<longleftrightarrow>
    (let q = (if p < 8 then 1 else if p < 27 then 2 else if p < 64 then 3 else if p < 125 then 4 else if p < 216 then 5 else 6);
         r = q * 2 ^ 32 + unat k
     in r ^ 3 \<le> p * 2 ^ 96 \<and> p * 2 ^ 96 < (r + 1) ^ 3)"

lemma of_nat_eq_0_iff_dvd_u32: "(word_of_nat n :: u32) = 0 \<longleftrightarrow> 2 ^ 32 dvd n"
  by (simp add: word_unat_eq_iff unat_of_nat dvd_eq_mod_eq_0)

lemma cube_root_bits:
  assumes "cube_root_bits p k"
  shows "word_of_nat (cube_root (p * 2 ^ 96)) = k"
proof -
  obtain q where "cube_root (p * 2 ^ 96) = q * 2 ^ 32 + unat k" using assms unfolding cube_root_bits_def Let_def by (blast dest: cube_root_eq)
  moreover have "(word_of_nat (q * 2 ^ 32) :: u32) = 0" by (simp only: of_nat_eq_0_iff_dvd_u32 dvd_triv_right)
  ultimately show ?thesis by (simp only: of_nat_add of_nat_unat ucast_id add_0)
qed

lemma K_cube_roots: "list_all2 cube_root_bits fips_primes K"
  by (simp add: fips_primes_def K_def cube_root_bits_def Let_def)

lemma K_fips: "t < 64 \<Longrightarrow> K ! t = fips_K2 t"
proof -
  assume "t < 64"
  moreover have "length K = 64" by (simp add: K_def)
  ultimately have "cube_root_bits (fips_primes ! t) (K ! t)" using K_cube_roots by (simp add: list_all2_conv_all_nth)
  then show ?thesis by (simp only: fips_K2_def cube_root_bits)
qed

lemma sha256_rounds_fips:
  "n \<le> 64 \<Longrightarrow> case foldl (sha256_round (map (fips_W2 M) [0..<64])) (a, b, c, d, e, f, g, h) [0..<n] of
     (A, B, C, D, E, F, G, H) \<Rightarrow> fips_rounds2 M [a, b, c, d, e, f, g, h] n = [A, B, C, D, E, F, G, H]"
proof (induction n)
  case (Suc n)
  then show ?case
    by (auto simp: sha256_round_def Let_def ror_rotr Ch_def Maj_def K_fips split: prod.splits)
qed simp

abbreviation sha1_cf :: "u32 list \<Rightarrow> byte list \<Rightarrow> u32 list" where
  "sha1_cf s b \<equiv> ctx_state (SHA1_Transform \<lparr>ctx_f = SHA_VTAB, ctx_count = 0, ctx_buf = b, ctx_state = s\<rparr>)"

abbreviation sha256_cf :: "u32 list \<Rightarrow> byte list \<Rightarrow> u32 list" where
  "sha256_cf s b \<equiv> ctx_state (SHA256_Transform \<lparr>ctx_f = SHA256_VTAB, ctx_count = 0, ctx_buf = b, ctx_state = s\<rparr>)"

interpretation sha1: md_hash SHA1_Transform sha1_cf SHA_update SHA_pad
  by unfold_locales (auto simp: SHA1_Transform_def Let_def SHA_update_def SHA_pad.simps [of ctx for ctx] split: prod.splits)

interpretation sha256: md_hash SHA256_Transform sha256_cf SHA256_update SHA256_pad
  by unfold_locales (auto simp: SHA256_Transform_def Let_def SHA256_update_def SHA256_pad.simps [of ctx for ctx] split: prod.splits)

lemma sha1_cf_fips:
  assumes "length s = 8"
  shows "take 5 (sha1_cf s b) = fips_sha1_block (take 5 s) b" "length (sha1_cf s b) = 8"
proof -
  obtain a0 a1 a2 a3 a4 a5 a6 a7 where s: "s = [a0, a1, a2, a3, a4, a5, a6, a7]"
    using assms by (auto simp: eval_nat_numeral length_Suc_conv)
  show "take 5 (sha1_cf s b) = fips_sha1_block (take 5 s) b" "length (sha1_cf s b) = 8"
    using sha1_rounds_fips [of 80 b a0 a1 a2 a3 a4]
    by (auto simp: s SHA1_Transform_def fips_sha1_block_def sha1_schedule_fips split: prod.splits)
qed

lemma sha256_cf_fips:
  assumes "length s = 8"
  shows "sha256_cf s b = fips_sha256_block s b" "length (sha256_cf s b) = 8"
proof -
  obtain a0 a1 a2 a3 a4 a5 a6 a7 where s: "s = [a0, a1, a2, a3, a4, a5, a6, a7]"
    using assms by (auto simp: eval_nat_numeral length_Suc_conv)
  show "sha256_cf s b = fips_sha256_block s b" "length (sha256_cf s b) = 8"
    using sha256_rounds_fips [of 64 b a0 a1 a2 a3 a4 a5 a6 a7]
    by (auto simp: s SHA256_Transform_def fips_sha256_block_def sha256_schedule_fips split: prod.splits)
qed

lemma sha1_blocks_fips:
  "length s = 8 \<Longrightarrow> take 5 (foldl sha1_cf s bs) = foldl fips_sha1_block (take 5 s) bs \<and> length (foldl sha1_cf s bs) = 8"
  by (induction bs rule: rev_induct) (simp_all add: sha1_cf_fips)

lemma length_fips_sha256_block: "length s = 8 \<Longrightarrow> length (fips_sha256_block s b) = 8"
  using sha256_cf_fips [of s b] by simp

lemma sha256_blocks_fips:
  "length s = 8 \<Longrightarrow> foldl sha256_cf s bs = foldl fips_sha256_block s bs \<and> length (foldl fips_sha256_block s bs) = 8"
  by (induction bs rule: rev_induct) (simp_all add: sha256_cf_fips length_fips_sha256_block)

section \<open>Digests\<close>

definition ctx_ok :: "hash_ctx \<Rightarrow> bool" where
  "ctx_ok ctx \<longleftrightarrow> length (ctx_buf ctx) = 64 \<and> length (ctx_state ctx) = 8"

lemma length_concat_u32_be [simp]: "length (concat (map u32_be ws)) = 4 * length ws"
  by (induction ws) simp_all

lemma digest_words:
  assumes "n \<le> length s" "k = 4 * n"
  shows "take k (concat (map (\<lambda>i. u32_be (s ! i)) [0..<n]) @ r) = concat (map u32_be (take n s))"
proof -
  have "map (\<lambda>i. u32_be (s ! i)) [0..<n] = map u32_be (take n s)"
    using assms(1) by (intro nth_equalityI) auto
  then show ?thesis using assms by (simp add: min_def)
qed

lemma SHA_final_fips:
  assumes "sha1.absorbed iv m ctx" "length iv = 8"
  shows "take 20 (fst (SHA_final ctx)) = concat (map u32_be (foldl fips_sha1_block (take 5 iv) (blocks64 (fips_pad m))))"
proof -
  let ?e = "foldl (\<lambda>c i. SHA_update c [ucast (drop_bit ((7 - i) * 8) (ctx_count ctx * 8))]) (SHA_pad (SHA_update ctx [0x80])) [0..<8]"
  have st: "ctx_state ?e = foldl sha1_cf iv (blocks64 (fips_pad m))"
    using sha1.absorb_final [OF assms(1)] by (simp only: sha1.absorbed_def)
  have "length (ctx_state ?e) = 8" "take 5 (ctx_state ?e) = foldl fips_sha1_block (take 5 iv) (blocks64 (fips_pad m))"
    unfolding st using sha1_blocks_fips [OF assms(2)] by simp_all
  then show ?thesis unfolding SHA_final_def Let_def fst_conv
    by (simp del: upt_Suc upt_rec_numeral foldl_Cons take_append add: digest_words)
qed

lemma SHA256_final_fips:
  assumes "sha256.absorbed iv m ctx" "length iv = 8"
  shows "take 32 (fst (SHA256_final ctx)) = concat (map u32_be (foldl fips_sha256_block iv (blocks64 (fips_pad m))))"
proof -
  let ?e = "foldl (\<lambda>c i. SHA256_update c [ucast (drop_bit ((7 - i) * 8) (ctx_count ctx * 8))]) (SHA256_pad (SHA256_update ctx [0x80])) [0..<8]"
  have st: "ctx_state ?e = foldl sha256_cf iv (blocks64 (fips_pad m))"
    using sha256.absorb_final [OF assms(1)] by (simp only: sha256.absorbed_def)
  have "length (ctx_state ?e) = 8" "ctx_state ?e = foldl fips_sha256_block iv (blocks64 (fips_pad m))"
    unfolding st using sha256_blocks_fips [OF assms(2)] by simp_all
  then show ?thesis unfolding SHA256_final_def Let_def fst_conv
    by (simp del: upt_Suc upt_rec_numeral foldl_Cons take_append add: digest_words)
qed

lemma SHA_init_absorbed: "ctx_ok ctx \<Longrightarrow> sha1.absorbed (ctx_state (SHA_init ctx)) [] (SHA_init ctx)"
  by (simp add: ctx_ok_def sha1.absorbed_def SHA_init_def)

lemma SHA256_init_absorbed: "ctx_ok ctx \<Longrightarrow> sha256.absorbed (ctx_state (SHA256_init ctx)) [] (SHA256_init ctx)"
  by (simp add: ctx_ok_def sha256.absorbed_def SHA256_init_def)

lemma SHA_init_state:
  assumes "ctx_ok ctx"
  shows "length (ctx_state (SHA_init ctx)) = 8"
    "take 5 (ctx_state (SHA_init ctx)) = [0x67452301, 0xefcdab89, 0x98badcfe, 0x10325476, 0xc3d2e1f0]"
  using assms by (auto simp: ctx_ok_def SHA_init_def eval_nat_numeral length_Suc_conv)

lemma SHA256_init_state:
  assumes "ctx_ok ctx"
  shows "length (ctx_state (SHA256_init ctx)) = 8"
    "ctx_state (SHA256_init ctx) = [0x6a09e667, 0xbb67ae85, 0x3c6ef372, 0xa54ff53a, 0x510e527f, 0x9b05688c, 0x1f83d9ab, 0x5be0cd19]"
  using assms by (auto simp: ctx_ok_def SHA256_init_def eval_nat_numeral length_Suc_conv)

lemma update_loop_f:
  "(\<And>c. ctx_f (tr c) = ctx_f c) \<Longrightarrow> ctx_f (update_loop tr ctx i data) = ctx_f ctx"
  by (induction data arbitrary: ctx i) (auto simp: Let_def)

lemma SHA_update_f [simp]: "ctx_f (SHA_update ctx data) = ctx_f ctx"
  by (simp add: SHA_update_def update_loop_f SHA1_Transform_def Let_def split: prod.splits)

lemma SHA256_update_f [simp]: "ctx_f (SHA256_update ctx data) = ctx_f ctx"
  by (simp add: SHA256_update_def update_loop_f SHA256_Transform_def Let_def split: prod.splits)

lemma init_f [simp]: "ctx_f (SHA_init ctx) = SHA_VTAB" "ctx_f (SHA256_init ctx) = SHA256_VTAB"
  by (simp_all add: SHA_init_def SHA256_init_def)

lemma HASH_updates:
  "foldl HASH_update (HASH_init ctx) chunks = (case ctx_f ctx of
     SHA_VTAB \<Rightarrow> SHA_update (SHA_init ctx) (concat chunks)
   | SHA256_VTAB \<Rightarrow> SHA256_update (SHA256_init ctx) (concat chunks))"
proof (induction chunks rule: rev_induct)
  case Nil
  then show ?case by (simp add: HASH_init_def sha1.upd_loop sha256.upd_loop split: hash_vtab.split)
next
  case (snoc c cs)
  then show ?case
    by (cases "ctx_f ctx") (simp_all add: HASH_update_def sha1.upd_append sha256.upd_append)
qed

lemma HASH_init_absorbs:
  assumes "ctx_ok ctx"
  shows "take 20 (fst (SHA_final (SHA_update (SHA_init ctx) data))) = fips_sha1 data"
    "take 32 (fst (SHA256_final (SHA256_update (SHA256_init ctx) data))) = fips_sha256 data"
proof -
  have "sha1.absorbed (ctx_state (SHA_init ctx)) ([] @ data) (SHA_update (SHA_init ctx) data)"
    using SHA_init_absorbed [OF assms] by (rule sha1.absorb)
  from SHA_final_fips [OF this] show "take 20 (fst (SHA_final (SHA_update (SHA_init ctx) data))) = fips_sha1 data"
    using SHA_init_state [OF assms] by (simp add: fips_sha1_def)
  have "sha256.absorbed (ctx_state (SHA256_init ctx)) ([] @ data) (SHA256_update (SHA256_init ctx) data)"
    using SHA256_init_absorbed [OF assms] by (rule sha256.absorb)
  from SHA256_final_fips [OF this]
  show "take 32 (fst (SHA256_final (SHA256_update (SHA256_init ctx) data))) = fips_sha256 data"
    using SHA256_init_state [OF assms] by (simp add: fips_sha256_def)
qed

text \<open>
  C29. Hashing in pieces through the context's table: after an initialisation, any sequence of updates
  and a final call, the digest is the FIPS 180-4 value (SHA-1 or SHA-256, as the context selects) of
  the concatenation of the pieces, however the data is cut.
\<close>

theorem HASH_stream_fips:
  assumes "ctx_ok ctx"
  shows "take (HASH_size ctx) (fst (HASH_final (foldl HASH_update (HASH_init ctx) chunks))) =
    (case ctx_f ctx of SHA_VTAB \<Rightarrow> fips_sha1 (concat chunks) | SHA256_VTAB \<Rightarrow> fips_sha256 (concat chunks))"
  using HASH_init_absorbs [OF assms]
  by (cases "ctx_f ctx") (simp_all add: HASH_updates HASH_size_def HASH_final_def)

definition demo_ctx :: hash_ctx where
  "demo_ctx = \<lparr>ctx_f = SHA256_VTAB, ctx_count = 0, ctx_buf = replicate 64 0, ctx_state = replicate 8 0\<rparr>"

lemma demo_ctx_ok: "ctx_ok demo_ctx" "HASH_size demo_ctx = 32" "ctx_f demo_ctx = SHA256_VTAB"
    "concat [[0x61 :: byte], [], [0x62, 0x63]] = [0x61, 0x62, 0x63]"
  by (simp_all add: demo_ctx_def ctx_ok_def HASH_size_def)

theorem HASH_stream_fips_witness:
  "take 32 (fst (HASH_final (foldl HASH_update (HASH_init demo_ctx) [[0x61], [], [0x62, 0x63]]))) =
    fips_sha256 [0x61, 0x62, 0x63]"
  using HASH_stream_fips [OF demo_ctx_ok(1), of "[[0x61], [], [0x62, 0x63]]"]
  by (simp only: demo_ctx_ok hash_vtab.case)

text \<open>
  The digest that \<^verbatim>\<open>SHA_hash\<close> writes is the SHA-1 value of the data as FIPS 180-4 defines it, for
  data of every length, and whatever the context on the stack held before.
\<close>

theorem SHA_hash_fips:
  assumes "ctx_ok ctx"
  shows "SHA_hash ctx data = fips_sha1 data"
  unfolding SHA_hash_def by (rule HASH_init_absorbs(1) [OF assms])

theorem SHA_hash_fips_witness: "SHA_hash demo_ctx [0x61, 0x62, 0x63] = fips_sha1 [0x61, 0x62, 0x63]"
  by (rule SHA_hash_fips [OF demo_ctx_ok(1)])

text \<open>
  The digest that \<^verbatim>\<open>SHA256_hash\<close> writes is the SHA-256 value of the data as FIPS 180-4 defines it.
\<close>

theorem SHA256_hash_fips:
  assumes "ctx_ok ctx"
  shows "SHA256_hash ctx data = fips_sha256 data"
  unfolding SHA256_hash_def by (rule HASH_init_absorbs(2) [OF assms])

theorem SHA256_hash_fips_witness: "SHA256_hash demo_ctx [0x61, 0x62, 0x63] = fips_sha256 [0x61, 0x62, 0x63]"
  by (rule SHA256_hash_fips [OF demo_ctx_ok(1)])

end
