(* ===== verification/P256.thy ===== *)
theory P256
  imports Knife_Prelude "HOL-Library.Signed_Division"
begin

text \<open>
  The 256-bit integers of \<^verbatim>\<open>libmincrypt/p256.c\<close>.  A \<^verbatim>\<open>p256_int\<close> is a list of eight 32-bit digits, the least
  significant first.  A carry is a 64-bit word, as in the source; a borrow, an \<^verbatim>\<open>int64_t\<close>, is an \<^typ>\<open>int\<close>,
  and its arithmetic shift is the division that rounds down.
\<close>

section \<open>Digits\<close>

type_synonym p256_int = "u32 list"

definition P256_ZERO :: p256_int where
  "P256_ZERO = replicate 8 0"

definition P256_ONE :: p256_int where
  "P256_ONE = [1, 0, 0, 0, 0, 0, 0, 0]"

definition SECP256r1_n :: p256_int where
  "SECP256r1_n = [0xfc632551, 0xf3b9cac2, 0xa7179e84, 0xbce6faad, -1, -1, 0, -1]"

definition SECP256r1_p :: p256_int where
  "SECP256r1_p = [-1, -1, -1, 0, 0, 0, 1, -1]"

definition SECP256r1_b :: p256_int where
  "SECP256r1_b = [0x27d2604b, 0x3bce3c3e, 0xcc53b0f6, 0x651d06b0, 0x769886bc, 0xb3ebbd55, 0xaa3a93e7, 0x5ac635d8]"

definition p256_init :: "p256_int \<Rightarrow> p256_int" where
  "p256_init a = P256_ZERO"

definition p256_clear :: "p256_int \<Rightarrow> p256_int" where
  "p256_clear a = p256_init a"

definition p256_get_bit :: "p256_int \<Rightarrow> nat \<Rightarrow> u32" where
  "p256_get_bit scalar n = drop_bit (n mod 32) (scalar ! (n div 32)) AND 1"

definition p256_is_zero :: "p256_int \<Rightarrow> bool" where
  "p256_is_zero a \<longleftrightarrow> foldl (OR) 0 a = 0"

section \<open>Loops over the digits\<close>

fun mulAdd_loop :: "u64 \<Rightarrow> u32 list \<Rightarrow> u32 \<Rightarrow> u32 list \<Rightarrow> u32 list \<times> u64" where
  "mulAdd_loop carry (x # a) b (d # c) =
    (let carry = carry + ucast d;
         carry = carry + ucast x * ucast b
     in case mulAdd_loop (drop_bit 32 carry) a b c of (c', out) \<Rightarrow> (ucast carry # c', out))"
| "mulAdd_loop carry a b c = (c, carry)"

definition mulAdd :: "p256_int \<Rightarrow> u32 \<Rightarrow> u32 \<Rightarrow> u32 list \<Rightarrow> u32 \<times> u32 list" where
  "mulAdd a b tp c = (case mulAdd_loop 0 a b c of (c', carry) \<Rightarrow> (tp + ucast carry, c'))"

text \<open>\<open>sub_loop\<close> is the loop of all the subtractions, \<open>add_loop\<close> that of the additions.\<close>

fun sub_loop :: "int \<Rightarrow> u32 list \<Rightarrow> u32 list \<Rightarrow> u32 list \<times> int" where
  "sub_loop borrow (d # c) (x # a) =
    (let borrow = borrow + uint d - uint x
     in case sub_loop (borrow div 2 ^ 32) c a of (c', out) \<Rightarrow> (word_of_int borrow # c', out))"
| "sub_loop borrow c a = ([], borrow)"

fun add_loop :: "u64 \<Rightarrow> u32 list \<Rightarrow> u32 list \<Rightarrow> u32 list \<times> u64" where
  "add_loop carry (d # c) (x # a) =
    (let carry = carry + (ucast d + ucast x)
     in case add_loop (drop_bit 32 carry) c a of (c', out) \<Rightarrow> (ucast carry # c', out))"
| "add_loop carry c a = ([], carry)"

definition subTop :: "u32 \<Rightarrow> u32 list \<Rightarrow> u32 \<Rightarrow> u32 list \<Rightarrow> (u32 \<times> u32 list) res" where
  "subTop top_a a top_c c = (case sub_loop 0 c a of (c', borrow) \<Rightarrow>
     let borrow = borrow + uint top_c - uint top_a
     in bindR (assertR (borrow div 2 ^ 32 = 0) AssertFailed) (\<lambda>_. Inr (word_of_int borrow, c')))"

definition subM :: "p256_int \<Rightarrow> u32 \<Rightarrow> u32 list \<Rightarrow> u32 \<Rightarrow> u32 \<times> u32 list" where
  "subM MOD tp c msk = (case sub_loop 0 c (map (\<lambda>d. d AND msk) MOD) of (c', borrow) \<Rightarrow>
     (tp + word_of_int borrow, c'))"

definition addM :: "p256_int \<Rightarrow> u32 \<Rightarrow> u32 list \<Rightarrow> u32 \<Rightarrow> u32 \<times> u32 list" where
  "addM MOD tp c msk = (case add_loop 0 c (map (\<lambda>d. d AND msk) MOD) of (c', carry) \<Rightarrow>
     (tp + ucast carry, c'))"

section \<open>Modular multiplication\<close>

definition write_at :: "'a list \<Rightarrow> nat \<Rightarrow> 'a list \<Rightarrow> 'a list" where
  "write_at tmp i ds = take i tmp @ ds @ drop (i + length ds) tmp"

definition mul_step :: "p256_int \<Rightarrow> u32 \<Rightarrow> nat \<Rightarrow> u32 list \<times> u32 \<Rightarrow> u32 list \<times> u32" where
  "mul_step a b i = (\<lambda>(tmp, tp).
     let tmp = (if i \<noteq> 0 then tmp[i + 7 := tp] else tmp)
     in case mulAdd a b 0 (take 8 (drop i tmp)) of (tp, ds) \<Rightarrow> (write_at tmp i ds, tp))"

definition reduce_step :: "p256_int \<Rightarrow> nat \<Rightarrow> u32 list \<times> u32 \<Rightarrow> (u32 list \<times> u32) res" where
  "reduce_step MOD i = (\<lambda>(tmp, tp).
     case mulAdd MOD tp 0 (replicate 8 0) of (top_reducer, reducer) \<Rightarrow>
     bindR (subTop top_reducer reducer tp (take 8 (drop i tmp))) (\<lambda>(tp, ds).
     bindR (assertR (tp \<le> 1) AssertFailed) (\<lambda>_.
     case subM MOD tp ds (NOT (tp - 1)) of (tp, ds) \<Rightarrow>
     bindR (assertR (tp = 0) AssertFailed) (\<lambda>_.
     let tmp = write_at tmp i ds in Inr (tmp, tmp ! (i + 7))))))"

fun reduce_loop :: "p256_int \<Rightarrow> nat \<Rightarrow> u32 list \<times> u32 \<Rightarrow> (u32 list \<times> u32) res" where
  "reduce_loop MOD 0 st = reduce_step MOD 0 st"
| "reduce_loop MOD (Suc i) st = bindR (reduce_step MOD (Suc i) st) (reduce_loop MOD i)"

definition p256_mod :: "p256_int \<Rightarrow> p256_int \<Rightarrow> p256_int" where
  "p256_mod MOD inp = (case subM MOD 0 inp (-1) of (msk, ds) \<Rightarrow> snd (addM MOD 0 ds msk))"

definition p256_modmul :: "p256_int \<Rightarrow> p256_int \<Rightarrow> u32 \<Rightarrow> p256_int \<Rightarrow> p256_int res" where
  "p256_modmul MOD a top_b b =
    (let st = foldl (\<lambda>st i. mul_step a (b ! i) i st) (replicate 17 0, 0) [0..<8];
         st = mul_step a top_b 8 st
     in bindR (reduce_loop MOD 8 st) (\<lambda>(tmp, tp).
        case subM MOD 0 (take 8 tmp) (-1) of (msk, ds) \<Rightarrow> Inr (snd (addM MOD 0 ds msk))))"

section \<open>Shifts, comparison, sums\<close>

definition p256_is_odd :: "p256_int \<Rightarrow> bool" where
  "p256_is_odd a \<longleftrightarrow> a ! 0 AND 1 \<noteq> 0"

definition p256_is_even :: "p256_int \<Rightarrow> bool" where
  "p256_is_even a \<longleftrightarrow> \<not> (a ! 0 AND 1 \<noteq> 0)"

definition p256_shl :: "p256_int \<Rightarrow> int \<Rightarrow> (u32 \<times> p256_int) res" where
  "p256_shl a n =
    (let n = n smod 32; tp = a ! 7 in
     if n \<le> 0 then Inl BadShift
     else let k = nat n in
       Inr (ucast (drop_bit 32 (push_bit k (ucast tp :: u64))),
            push_bit k (a ! 0) # map (\<lambda>i. push_bit k (a ! i) OR drop_bit (32 - k) (a ! (i - 1))) [1..<8]))"

definition p256_shr :: "p256_int \<Rightarrow> int \<Rightarrow> p256_int res" where
  "p256_shr a n =
    (let n = n smod 32 in
     if n \<le> 0 then Inl BadShift
     else let k = nat n in
       Inr (map (\<lambda>i. drop_bit k (a ! i) OR push_bit (32 - k) (a ! (i + 1))) [0..<7] @ [drop_bit k (a ! 7)]))"

definition p256_shr1 :: "p256_int \<Rightarrow> u32 \<Rightarrow> p256_int" where
  "p256_shr1 a highbit =
     map (\<lambda>i. drop_bit 1 (a ! i) OR push_bit 31 (a ! (i + 1))) [0..<7] @ [drop_bit 1 (a ! 7) OR push_bit 31 highbit]"

fun cmp_loop :: "int \<Rightarrow> u32 \<Rightarrow> u32 list \<Rightarrow> u32 list \<Rightarrow> int \<times> u32" where
  "cmp_loop borrow notzero (x # a) (y # b) =
    (let borrow = borrow + (uint x - uint y);
         notzero = notzero OR (if (word_of_int borrow :: u32) \<noteq> 0 then 1 else 0)
     in cmp_loop (borrow div 2 ^ 32) notzero a b)"
| "cmp_loop borrow notzero a b = (borrow, notzero)"

definition p256_cmp :: "p256_int \<Rightarrow> p256_int \<Rightarrow> int" where
  "p256_cmp a b = (case cmp_loop 0 0 a b of (borrow, notzero) \<Rightarrow> sint (word_of_int borrow OR notzero))"

definition p256_sub :: "p256_int \<Rightarrow> p256_int \<Rightarrow> int \<times> p256_int" where
  "p256_sub a b = (case sub_loop 0 a b of (c, borrow) \<Rightarrow> (sint (word_of_int borrow :: u32), c))"

definition p256_add :: "p256_int \<Rightarrow> p256_int \<Rightarrow> u32 \<times> p256_int" where
  "p256_add a b = (case add_loop 0 a b of (c, carry) \<Rightarrow> (ucast carry, c))"

fun add_d_loop :: "u64 \<Rightarrow> u32 list \<Rightarrow> u32 list \<times> u64" where
  "add_d_loop carry (x # a) =
    (let carry = carry + ucast x
     in case add_d_loop (drop_bit 32 carry) a of (c', out) \<Rightarrow> (ucast carry # c', out))"
| "add_d_loop carry [] = ([], carry)"

definition p256_add_d :: "p256_int \<Rightarrow> u32 \<Rightarrow> u32 \<times> p256_int" where
  "p256_add_d a d = (case add_d_loop (ucast d) a of (c, carry) \<Rightarrow> (ucast carry, c))"

section \<open>Modular inverse\<close>

record euclid =
  eu_R :: p256_int
  eu_S :: p256_int
  eu_U :: p256_int
  eu_V :: p256_int

definition halve_mod :: "p256_int \<Rightarrow> p256_int \<Rightarrow> p256_int" where
  "halve_mod MOD R = (if p256_is_even R then p256_shr1 R 0
     else case p256_add R MOD of (carry, R) \<Rightarrow> p256_shr1 R carry)"

definition sub_mod :: "p256_int \<Rightarrow> p256_int \<Rightarrow> p256_int \<Rightarrow> p256_int" where
  "sub_mod MOD S R = (case p256_sub S R of (borrow, S) \<Rightarrow> if borrow \<noteq> 0 then snd (p256_add S MOD) else S)"

definition euclid_step :: "p256_int \<Rightarrow> euclid \<Rightarrow> euclid + euclid" where
  "euclid_step MOD st =
    (let R = eu_R st; S = eu_S st; U = eu_U st; V = eu_V st in
     if p256_is_even U then Inr (st\<lparr>eu_U := p256_shr1 U 0, eu_R := halve_mod MOD R\<rparr>)
     else if p256_is_even V then Inr (st\<lparr>eu_V := p256_shr1 V 0, eu_S := halve_mod MOD S\<rparr>)
     else if fst (p256_sub V U) = 0 then
       (let st = st\<lparr>eu_V := snd (p256_sub V U), eu_S := sub_mod MOD S R\<rparr> in
        if p256_is_zero (eu_V st) then Inl st else Inr st)
     else Inr (st\<lparr>eu_U := snd (p256_sub U V), eu_R := sub_mod MOD R S\<rparr>))"

fun euclid_loop :: "nat \<Rightarrow> p256_int \<Rightarrow> euclid \<Rightarrow> euclid res" where
  "euclid_loop 0 MOD st = Inl Diverges"
| "euclid_loop (Suc fuel) MOD st = (case euclid_step MOD st of Inl st \<Rightarrow> Inr st | Inr st \<Rightarrow> euclid_loop fuel MOD st)"

definition p256_modinv_vartime :: "nat \<Rightarrow> p256_int \<Rightarrow> p256_int \<Rightarrow> p256_int res" where
  "p256_modinv_vartime fuel MOD a =
     bindR (euclid_loop fuel MOD \<lparr>eu_R = P256_ZERO, eu_S = P256_ONE, eu_U = MOD, eu_V = a\<rparr>)
       (\<lambda>st. Inr (p256_mod MOD (eu_R st)))"

section \<open>Points and byte strings\<close>

definition p256_is_valid_point :: "p256_int \<Rightarrow> p256_int \<Rightarrow> bool res" where
  "p256_is_valid_point x y =
    (if p256_cmp SECP256r1_p x \<le> 0 \<or> p256_cmp SECP256r1_p y \<le> 0 \<or> p256_is_zero x \<or> p256_is_zero y
     then Inr False
     else bindR (p256_modmul SECP256r1_p y 0 y) (\<lambda>y2.
          bindR (p256_modmul SECP256r1_p x 0 x) (\<lambda>x3.
          bindR (p256_modmul SECP256r1_p x 0 x3) (\<lambda>x3.
          let x3 = sub_mod SECP256r1_p x3 x;
              x3 = sub_mod SECP256r1_p x3 x;
              x3 = sub_mod SECP256r1_p x3 x;
              x3 = (case p256_add x3 SECP256r1_b of (carry, x3) \<Rightarrow>
                      if carry \<noteq> 0 then snd (p256_sub x3 SECP256r1_p) else x3)
          in Inr (p256_cmp y2 x3 = 0)))))"

definition p256_from_bin :: "byte list \<Rightarrow> p256_int" where
  "p256_from_bin src = map (\<lambda>i. u32_of_be (drop (4 * (7 - i)) src)) [0..<8]"

section \<open>Values of digit sequences\<close>

fun val :: "u32 list \<Rightarrow> int" where
  "val [] = 0"
| "val (d # ds) = uint d + 2 ^ 32 * val ds"

lemma val_nonneg: "0 \<le> val ds"
  by (induction ds) simp_all

lemma uint_less_u32: "uint (d :: u32) < 2 ^ 32"
  using uint_lt2p [of d] by simp

lemma val_less: "val ds < 2 ^ (32 * length ds)"
proof (induction ds)
  case (Cons d ds)
  have "uint d + 2 ^ 32 * val ds < 2 ^ 32 + 2 ^ 32 * (2 ^ (32 * length ds) - 1)"
    using uint_less_u32 [of d] Cons by (intro add_less_le_mono mult_left_mono) auto
  then show ?case by (simp add: algebra_simps power_add)
qed simp

lemma val_append: "val (xs @ ys) = val xs + 2 ^ (32 * length xs) * val ys"
  by (induction xs) (simp_all add: algebra_simps power_add)

lemma val_replicate_0 [simp]: "val (replicate n 0) = 0"
  by (induction n) simp_all

lemma val_eq_iff: "length xs = length ys \<Longrightarrow> val xs = val ys \<longleftrightarrow> xs = ys"
proof (induction xs ys rule: list_induct2)
  case (Cons x xs y ys)
  have d: "uint z = val (z # zs) mod 2 ^ 32" "val zs = val (z # zs) div 2 ^ 32" for z zs
    using uint_less_u32 [of z] by simp_all
  have "uint x = uint y \<and> val xs = val ys" if "val (x # xs) = val (y # ys)"
    using d [where z = x and zs = xs] d [where z = y and zs = ys] that by metis
  then show ?case using Cons.IH by (auto dest: word_uint_eqI)
qed simp

lemma val_split: "n \<le> length ds \<Longrightarrow> val ds = val (take n ds) + 2 ^ (32 * n) * val (drop n ds)"
  using val_append [of "take n ds" "drop n ds"] by (simp add: min_def)

text \<open>A 64-bit carry is its low digit and its high digit; the same for a borrow.\<close>

lemma carry_high: "uint (drop_bit 32 (w :: u64)) = uint w div 2 ^ 32"
  by (simp add: drop_bit_eq_div uint_div)

lemma carry_split: "uint (w :: u64) = uint (ucast w :: u32) + 2 ^ 32 * uint (drop_bit 32 w)"
proof -
  have "uint (ucast w :: u32) = uint w mod 2 ^ 32" by (simp add: unsigned_ucast_eq take_bit_eq_mod)
  then show ?thesis by (simp add: carry_high)
qed

lemma borrow_split: "b = uint (word_of_int b :: u32) + 2 ^ 32 * (b div 2 ^ 32)"
  by (simp add: uint_word_of_int)

lemma uint_ucast_u64 [simp]: "uint (ucast (d :: u32) :: u64) = uint d"
  by (simp add: unsigned_ucast_eq take_bit_int_eq_self less_le_trans [OF uint_less_u32])

lemma uint_add_u64: "uint a + uint b < 2 ^ 64 \<Longrightarrow> uint (a + b :: u64) = uint a + uint b"
  by (simp add: uint_word_ariths)

lemma digit_step:
  fixes v lo hi t out :: int
  assumes "v + 2 ^ (32 * n) * out = t + hi"
  shows "lo + 2 ^ 32 * v + 2 ^ (32 * Suc n) * out = (lo + 2 ^ 32 * hi) + 2 ^ 32 * t"
proof -
  have "lo + 2 ^ 32 * v + 2 ^ (32 * Suc n) * out = lo + 2 ^ 32 * (v + 2 ^ (32 * n) * out)"
    by (simp add: power_add algebra_simps)
  then show ?thesis by (simp only: assms) (simp add: algebra_simps)
qed

lemma mulAdd_carry:
  assumes "uint carry < 2 ^ 32"
  shows "uint (carry + ucast d + ucast x * ucast b :: u64) = uint carry + uint (d :: u32) + uint (x :: u32) * uint (b :: u32)"
proof -
  have "uint x * uint b \<le> (2 ^ 32 - 1) * (2 ^ 32 - 1)"
    using uint_less_u32 [of x] uint_less_u32 [of b] by (intro mult_mono) auto
  moreover have "uint d \<le> 2 ^ 32 - 1" "uint carry \<le> 2 ^ 32 - 1" using uint_less_u32 [of d] assms by simp_all
  ultimately show ?thesis by (simp add: uint_word_ariths)
qed

lemma mulAdd_loop_val:
  assumes "length a = length c" "uint carry < 2 ^ 32"
  shows "case mulAdd_loop carry a b c of (c', out) \<Rightarrow> length c' = length c \<and> uint out < 2 ^ 32 \<and>
    val c' + 2 ^ (32 * length c) * uint out = val c + val a * uint b + uint carry"
  using assms
proof (induction a c arbitrary: carry rule: list_induct2)
  case (Cons x a d c)
  define w where "w = carry + ucast d + ucast x * (ucast b :: u64)"
  have w: "uint w = uint carry + uint d + uint x * uint b"
    unfolding w_def using Cons.prems by (rule mulAdd_carry)
  have "uint (drop_bit 32 w) < 2 ^ 32" unfolding carry_high using uint_lt2p [of w] by simp
  from Cons.IH [OF this] obtain c' out where l: "mulAdd_loop (drop_bit 32 w) a b c = (c', out)"
    and h: "length c' = length c" "uint out < 2 ^ 32"
      "val c' + 2 ^ (32 * length c) * uint out = val c + val a * uint b + uint (drop_bit 32 w)"
    by (auto split: prod.splits)
  have "mulAdd_loop carry (x # a) b (d # c) = (ucast w # c', out)" by (simp add: w_def [symmetric] l)
  moreover have "val (ucast w # c') + 2 ^ (32 * Suc (length c)) * uint out = uint w + 2 ^ 32 * (val c + val a * uint b)"
    unfolding val.simps digit_step [OF h(3)] carry_split [of w, symmetric] ..
  ultimately show ?case using h(1,2) w by (simp add: algebra_simps del: mult_Suc_right)
qed simp

lemma sub_loop_val:
  assumes "length c = length a" "-1 \<le> borrow" "borrow \<le> 0"
  shows "case sub_loop borrow c a of (c', out) \<Rightarrow> length c' = length c \<and> -1 \<le> out \<and> out \<le> 0 \<and>
    val c' + 2 ^ (32 * length c) * out = val c - val a + borrow"
  using assms
proof (induction c a arbitrary: borrow rule: list_induct2)
  case (Cons d c x a)
  define w where "w = borrow + uint d - uint x"
  have "- (2 ^ 32) \<le> w" "w < 2 ^ 32" unfolding w_def
    using Cons.prems uint_less_u32 [of d] uint_less_u32 [of x] uint_ge_0 [of d] uint_ge_0 [of x] by linarith+
  then have "-1 \<le> w div 2 ^ 32" "w div 2 ^ 32 \<le> 0" by auto
  from Cons.IH [OF this] obtain c' out where l: "sub_loop (w div 2 ^ 32) c a = (c', out)"
    and h: "length c' = length c" "-1 \<le> out" "out \<le> 0"
      "val c' + 2 ^ (32 * length c) * out = val c - val a + w div 2 ^ 32"
    by (auto split: prod.splits)
  have "sub_loop borrow (d # c) (x # a) = (word_of_int w # c', out)"
    using l by (simp add: w_def [symmetric])
  moreover have "val (word_of_int w # c') + 2 ^ (32 * Suc (length c)) * out = w + 2 ^ 32 * (val c - val a)"
    unfolding val.simps digit_step [OF h(4)] borrow_split [of w, symmetric] ..
  moreover have "w = borrow + uint d - uint x" by (rule w_def)
  ultimately show ?case using h(1-3) by (simp add: algebra_simps del: mult_Suc_right)
qed simp

lemma add_loop_val:
  assumes "length c = length a" "uint carry \<le> 1"
  shows "case add_loop carry c a of (c', out) \<Rightarrow> length c' = length c \<and> uint out \<le> 1 \<and>
    val c' + 2 ^ (32 * length c) * uint out = val c + val a + uint carry"
  using assms
proof (induction c a arbitrary: carry rule: list_induct2)
  case (Cons d c x a)
  define w where "w = carry + (ucast d + ucast x :: u64)"
  have w: "uint w = uint carry + uint d + uint x"
    using Cons.prems uint_less_u32 [of d] uint_less_u32 [of x] by (simp add: w_def uint_word_ariths)
  have "uint (drop_bit 32 w) \<le> 1" unfolding carry_high
    using w Cons.prems uint_less_u32 [of d] uint_less_u32 [of x] by simp
  from Cons.IH [OF this] obtain c' out where l: "add_loop (drop_bit 32 w) c a = (c', out)"
    and h: "length c' = length c" "uint out \<le> 1"
      "val c' + 2 ^ (32 * length c) * uint out = val c + val a + uint (drop_bit 32 w)"
    by (auto split: prod.splits)
  have "add_loop carry (d # c) (x # a) = (ucast w # c', out)" by (simp add: w_def [symmetric] l)
  moreover have "val (ucast w # c') + 2 ^ (32 * Suc (length c)) * uint out = uint w + 2 ^ 32 * (val c + val a)"
    unfolding val.simps digit_step [OF h(3)] carry_split [of w, symmetric] ..
  ultimately show ?case using h(1,2) w by (simp add: algebra_simps del: mult_Suc_right)
qed simp


section \<open>Values of the operations\<close>

lemma uint_ucast_small: "uint (w :: u64) < 2 ^ 32 \<Longrightarrow> uint (ucast w :: u32) = uint w"
  by (simp add: unsigned_ucast_eq take_bit_int_eq_self)

lemma mulAdd_val:
  assumes "length a = 8" "length c = 8"
  obtains t c' where "mulAdd a b 0 c = (t, c')" "length c' = 8"
    "val c' + 2 ^ 256 * uint t = val c + val a * uint b"
proof -
  obtain c' out where l: "mulAdd_loop 0 a b c = (c', out)" by fastforce
  then have h: "length c' = 8" "uint out < 2 ^ 32" "val c' + 2 ^ 256 * uint out = val c + val a * uint b"
    using mulAdd_loop_val [of a c 0 b] assms by simp_all
  have "mulAdd a b 0 c = (ucast out, c')" by (simp add: mulAdd_def l)
  then show ?thesis using that h(1,3) uint_ucast_small [OF h(2)] by simp
qed

lemma val_and_ones [simp]: "map (\<lambda>d :: u32. d AND -1) ds = ds"
  by (induction ds) simp_all

lemma val_map_zero [simp]: "val (map (\<lambda>d. 0) ds) = 0"
  by (induction ds) simp_all

lemma sub_val:
  assumes "length c = 8" "length a = 8"
  obtains c' out where "sub_loop 0 c a = (c', out)" "length c' = 8" "out = (if val a \<le> val c then 0 else -1)"
    "val c' = val c - val a - 2 ^ 256 * out"
proof -
  obtain c' out where l: "sub_loop 0 c a = (c', out)" by fastforce
  then have h: "length c' = 8" "-1 \<le> out" "out \<le> 0" "val c' + 2 ^ 256 * out = val c - val a"
    using sub_loop_val [of c a 0] assms by simp_all
  have b: "0 \<le> val c'" "val c' < 2 ^ 256" using val_less [of c'] h(1) by (simp_all add: val_nonneg)
  have "out = 0 \<or> out = -1" using h(2,3) by linarith
  then have "out = (if val a \<le> val c then 0 else -1)"
  proof
    assume "out = 0" with b h(4) show ?thesis by simp
  next
    assume "out = -1" with b h(4) show ?thesis by simp
  qed
  then show ?thesis using that l h by simp
qed

lemma add_val:
  assumes "length c = 8" "length a = 8"
  obtains c' out where "add_loop 0 c a = (c', out)" "length c' = 8"
    "uint out = (if val c + val a < 2 ^ 256 then 0 else 1)" "val c' = val c + val a - 2 ^ 256 * uint out"
proof -
  obtain c' out where l: "add_loop 0 c a = (c', out)" by fastforce
  then have h: "length c' = 8" "uint out \<le> 1" "val c' + 2 ^ 256 * uint out = val c + val a"
    using add_loop_val [of c a 0] assms by simp_all
  have b: "0 \<le> val c'" "val c' < 2 ^ 256" using val_less [of c'] h(1) by (simp_all add: val_nonneg)
  have "0 \<le> uint out" by simp
  then have "uint out = 0 \<or> uint out = 1" using h(2) by linarith
  then have "uint out = (if val c + val a < 2 ^ 256 then 0 else 1)"
  proof
    assume "uint out = 0" with b h(3) show ?thesis by simp
  next
    assume "uint out = 1" with b h(3) show ?thesis by simp
  qed
  then show ?thesis using that [OF l h(1)] h(3) by simp
qed

lemma p256_mod_val:
  assumes "length MOD = 8" "length a = 8"
  shows "val (p256_mod MOD a) = (if val MOD \<le> val a then val a - val MOD else val a)" "length (p256_mod MOD a) = 8"
proof -
  obtain c out where s: "sub_loop 0 a MOD = (c, out)" "length c = 8" "out = (if val MOD \<le> val a then 0 else -1)"
      "val c = val a - val MOD - 2 ^ 256 * out"
    using sub_val [OF assms(2,1)] by metis
  define m where "m = map (\<lambda>d. d AND (word_of_int out :: u32)) MOD"
  have m: "length m = 8" "val m = (if val MOD \<le> val a then 0 else val MOD)"
    using assms(1) s(3) by (simp_all add: m_def)
  obtain c' cy where t: "add_loop 0 c m = (c', cy)" "length c' = 8"
      "uint cy = (if val c + val m < 2 ^ 256 then 0 else 1)" "val c' = val c + val m - 2 ^ 256 * uint cy"
    using add_val [OF s(2) m(1)] by metis
  have r: "p256_mod MOD a = c'" by (simp add: p256_mod_def subM_def addM_def s(1) m_def [symmetric] t(1))
  have "val a < 2 ^ 256" "val c < 2 ^ 256" using val_less [of a] val_less [of c] assms s(2) by simp_all
  then show "val (p256_mod MOD a) = (if val MOD \<le> val a then val a - val MOD else val a)"
    using s(3,4) m(2) t(3,4) val_nonneg [of a] unfolding r by (cases "val MOD \<le> val a") simp_all
  show "length (p256_mod MOD a) = 8" using t(2) r by simp
qed

lemma subTop_val:
  assumes "length a = 8" "length c = 8" "val a + 2 ^ 256 * uint ta \<le> val c + 2 ^ 256 * uint tc"
  obtains t c' where "subTop ta a tc c = Inr (t, c')" "length c' = 8"
    "val c' + 2 ^ 256 * uint t = val c + 2 ^ 256 * uint tc - (val a + 2 ^ 256 * uint ta)"
proof -
  obtain c' out where s: "sub_loop 0 c a = (c', out)" "length c' = 8" "out = (if val a \<le> val c then 0 else -1)"
      "val c' = val c - val a - 2 ^ 256 * out"
    using sub_val [OF assms(2,1)] by metis
  define w where "w = out + uint tc - uint ta"
  have "val c' + 2 ^ 256 * w = val c + 2 ^ 256 * uint tc - (val a + 2 ^ 256 * uint ta)"
    using s(4) by (simp add: w_def algebra_simps)
  then have "0 \<le> val c' + 2 ^ 256 * w" "val c' < 2 ^ 256"
    using assms(3) val_less [of c'] s(2) by simp_all
  then have "0 \<le> w" by simp
  moreover have "out \<le> 0" using s(3) by simp
  then have "w < 2 ^ 32" unfolding w_def using uint_less_u32 [of tc] uint_ge_0 [of ta] by linarith
  ultimately have w: "w div 2 ^ 32 = 0" "uint (word_of_int w :: u32) = w"
    by (simp_all add: uint_word_of_int)
  have "subTop ta a tc c = Inr (word_of_int w, c')"
    unfolding subTop_def s(1) prod.case Let_def w_def [symmetric] using w(1) by simp
  moreover have "val c' + 2 ^ 256 * uint (word_of_int w :: u32) = val c + 2 ^ 256 * uint tc - (val a + 2 ^ 256 * uint ta)"
    using s(4) by (simp only: w(2)) (simp add: w_def algebra_simps)
  ultimately show ?thesis using that s(2) by blast
qed


section \<open>Modular multiplication\<close>

lemma val_take_Suc: "n < length ds \<Longrightarrow> val (take (Suc n) ds) = val (take n ds) + 2 ^ (32 * n) * uint (ds ! n)"
  by (simp add: take_Suc_conv_app_nth val_append)

lemma write_at:
  assumes "i + length ds \<le> length tmp"
  shows "length (write_at tmp i ds) = length tmp" "take i (write_at tmp i ds) = take i tmp"
    "take (i + length ds) (write_at tmp i ds) = take i tmp @ ds"
  using assms by (simp_all add: write_at_def)

lemma val_slice:
  assumes "i + 8 \<le> length tmp"
  shows "val (take (i + 8) tmp) = val (take i tmp) + 2 ^ (32 * i) * val (take 8 (drop i tmp))"
  using val_split [of i "take (i + 8) tmp"] assms by (simp add: drop_take)

lemma mul_step_val:
  assumes "length tmp = 17" "i \<le> 8" "length a = 8" "i = 0 \<Longrightarrow> tp = 0 \<and> tmp ! 7 = 0"
  obtains tmp' tp' where "mul_step a b i (tmp, tp) = (tmp', tp')" "length tmp' = 17"
    "val (take (i + 8) tmp') + 2 ^ (32 * (i + 8)) * uint tp' =
     val (take (i + 7) tmp) + 2 ^ (32 * (i + 7)) * uint tp + 2 ^ (32 * i) * (val a * uint b)"
proof -
  define t2 where "t2 = (if i \<noteq> 0 then tmp[i + 7 := tp] else tmp)"
  have t2: "length t2 = 17" "t2 ! (i + 7) = tp" "take (i + 7) t2 = take (i + 7) tmp"
    using assms by (auto simp: t2_def)
  obtain t c where m: "mulAdd a b 0 (take 8 (drop i t2)) = (t, c)" "length c = 8"
      "val c + 2 ^ 256 * uint t = val (take 8 (drop i t2)) + val a * uint b"
    using mulAdd_val [of a "take 8 (drop i t2)" b] assms(2,3) t2(1) by auto
  have s: "mul_step a b i (tmp, tp) = (write_at t2 i c, t)"
    unfolding mul_step_def prod.case Let_def t2_def [symmetric] m(1) ..
  have w: "length (write_at t2 i c) = 17" "take (i + 8) (write_at t2 i c) = take i t2 @ c"
    using write_at [of i c t2] m(2) t2(1) assms(2) by simp_all
  have "val (take (i + 8) (write_at t2 i c)) + 2 ^ (32 * (i + 8)) * uint t =
      val (take i t2) + 2 ^ (32 * i) * (val c + 2 ^ 256 * uint t)"
    using t2(1) assms(2) by (simp add: w(2) val_append power_add algebra_simps)
  also have "\<dots> = val (take (i + 8) t2) + 2 ^ (32 * i) * (val a * uint b)"
    unfolding m(3) using val_slice [of i t2] t2(1) assms(2) by (simp add: algebra_simps)
  also have "val (take (i + 8) t2) = val (take (i + 7) tmp) + 2 ^ (32 * (i + 7)) * uint tp"
    using val_take_Suc [of "i + 7" t2] t2 assms(2) by (simp add: add.commute [of 8 i])
  finally show ?thesis by (rule that [OF s w(1)])
qed

lemma mul_loop_val:
  assumes "length a = 8" "length b = 8" "n \<le> 8"
  shows "\<exists>tmp tp. foldl (\<lambda>st i. mul_step a (b ! i) i st) (replicate 17 0, 0) [0..<n] = (tmp, tp) \<and> length tmp = 17
    \<and> (n = 0 \<longrightarrow> tp = 0 \<and> tmp ! 7 = 0) \<and> val (take (n + 7) tmp) + 2 ^ (32 * (n + 7)) * uint tp = val a * val (take n b)"
  using assms(3)
proof (induction n)
  case 0
  have "take 7 (replicate 17 0) = (replicate 7 0 :: u32 list)" by simp
  then show ?case by simp
next
  case (Suc n)
  then obtain tmp tp where f: "foldl (\<lambda>st i. mul_step a (b ! i) i st) (replicate 17 0, 0) [0..<n] = (tmp, tp)"
      and l: "length tmp = 17" "n = 0 \<longrightarrow> tp = 0 \<and> tmp ! 7 = 0"
      and v: "val (take (n + 7) tmp) + 2 ^ (32 * (n + 7)) * uint tp = val a * val (take n b)" by auto
  obtain tmp' tp' where s: "mul_step a (b ! n) n (tmp, tp) = (tmp', tp')" "length tmp' = 17"
    "val (take (n + 8) tmp') + 2 ^ (32 * (n + 8)) * uint tp' =
     val (take (n + 7) tmp) + 2 ^ (32 * (n + 7)) * uint tp + 2 ^ (32 * n) * (val a * uint (b ! n))"
    using mul_step_val [of tmp n a tp "b ! n"] l Suc.prems assms(1) by auto
  have "val (take (n + 8) tmp') + 2 ^ (32 * (n + 8)) * uint tp' = val a * val (take (Suc n) b)"
    unfolding s(3) v using val_take_Suc [of n b] Suc.prems assms(2) by (simp add: algebra_simps)
  then show ?case using f s(1,2) by (simp add: eval_nat_numeral)
qed

definition full_top :: "p256_int \<Rightarrow> bool" where
  "full_top MOD \<longleftrightarrow> length MOD = 8 \<and> MOD ! 7 = -1"

lemma full_top_bounds:
  assumes "full_top MOD"
  shows "length MOD = 8" "2 ^ 256 - 2 ^ 224 \<le> val MOD" "val MOD < 2 ^ 256"
proof -
  show l: "length MOD = 8" using assms by (simp add: full_top_def)
  have "val MOD = val (take 7 MOD) + 2 ^ 224 * uint (MOD ! 7)" using val_take_Suc [of 7 MOD] l by simp
  then show "2 ^ 256 - 2 ^ 224 \<le> val MOD"
    using assms val_nonneg [of "take 7 MOD"] by (simp add: full_top_def unsigned_minus_1_eq_mask mask_eq_exp_minus_1)
  show "val MOD < 2 ^ 256" using val_less [of MOD] l by simp
qed

lemma mod_diff_mult: "((x :: int) - k * m) mod m = x mod m"
  by (metis diff_add_cancel mod_mult_self1)

lemma mod_once:
  fixes v m :: int
  assumes "0 \<le> v" "v < 2 * m"
  shows "v mod m = (if m \<le> v then v - m else v)"
  using mod_diff_mult [of v 1 m] mod_pos_pos_trivial [of "v - m" m] mod_pos_pos_trivial [of v m] assms by simp

lemma reduce_digit:
  assumes "full_top MOD" "length c = 8"
  obtains t red t1 c1 c2 where "mulAdd MOD tp 0 (replicate 8 0) = (t, red)"
    "subTop t red tp c = Inr (t1, c1)" "t1 \<le> 1" "subM MOD t1 c1 (NOT (t1 - 1)) = (0, c2)" "length c2 = 8"
    "val c2 mod val MOD = (val c + 2 ^ 256 * uint tp) mod val MOD"
proof -
  note M = full_top_bounds [OF assms(1)]
  have cb: "0 \<le> val c" "val c < 2 ^ 256" using val_less [of c] assms(2) by (simp_all add: val_nonneg)
  obtain t red where m: "mulAdd MOD tp 0 (replicate 8 0) = (t, red)" "length red = 8"
      "val red + 2 ^ 256 * uint t = val MOD * uint tp"
    using mulAdd_val [of MOD "replicate 8 0" tp] M(1) by auto
  have tb: "0 \<le> uint tp" "uint tp \<le> 2 ^ 32 - 1" using uint_less_u32 [of tp] by simp_all
  define D where "D = uint tp * (2 ^ 256 - val MOD)"
  have "D \<le> (2 ^ 32 - 1) * 2 ^ 224" unfolding D_def using tb M by (intro mult_mono) auto
  moreover have "0 \<le> D" unfolding D_def using tb M by simp
  ultimately have D: "0 \<le> D" "D \<le> 2 ^ 256 - 2 ^ 224" by simp_all
  have e: "val c + 2 ^ 256 * uint tp - val MOD * uint tp = val c + D" by (simp add: D_def algebra_simps)
  have le: "val red + 2 ^ 256 * uint t \<le> val c + 2 ^ 256 * uint tp" unfolding m(3) using e D(1) cb(1) by linarith
  obtain t1 c1 where s: "subTop t red tp c = Inr (t1, c1)" "length c1 = 8" "val c1 + 2 ^ 256 * uint t1 = val c + D"
    using subTop_val [OF m(2) assms(2) le] unfolding m(3) e by metis
  have c1b: "0 \<le> val c1" "val c1 < 2 ^ 256" using val_less [of c1] s(2) by (simp_all add: val_nonneg)
  then have "2 ^ 256 * uint t1 < 2 * 2 ^ 256" using s(3) cb(2) D(2) by simp
  then have "uint t1 < 2" by simp
  moreover have "0 \<le> uint t1" by simp
  ultimately consider "uint t1 = 0" | "uint t1 = 1" by linarith
  then have "\<exists>c2. t1 \<le> 1 \<and> subM MOD t1 c1 (NOT (t1 - 1)) = (0, c2) \<and> length c2 = 8 \<and>
      val c2 mod val MOD = (val c + D) mod val MOD"
  proof cases
    case 1
    then have t1: "t1 = 0" by (simp add: word_uint_eqI)
    obtain c2 where "sub_loop 0 c1 (map (\<lambda>d. 0) MOD) = (c2, 0)" "length c2 = 8" "val c2 = val c1"
      using sub_val [of c1 "map (\<lambda>d. 0) MOD"] s(2) M(1) c1b(1) by auto
    then show ?thesis using s(3) by (simp add: t1 subM_def)
  next
    case 2
    then have t1: "t1 = 1" by (simp add: word_uint_eqI)
    have lt: "\<not> val MOD \<le> val c1" using s(3) 2 cb(2) D(2) M(2) by simp
    obtain c2 where "sub_loop 0 c1 MOD = (c2, -1)" "length c2 = 8" "val c2 = val c1 - val MOD + 2 ^ 256"
      using sub_val [of c1 MOD] s(2) M(1) lt by auto
    moreover from this have "val c2 = val c + D - 1 * val MOD" using s(3) 2 by simp
    then have "val c2 mod val MOD = (val c + D) mod val MOD" by (simp only: mod_diff_mult)
    ultimately show ?thesis by (simp add: t1 subM_def)
  qed
  moreover have "(val c + D) mod val MOD = (val c + 2 ^ 256 * uint tp) mod val MOD"
    unfolding e [symmetric] mult.commute [of "val MOD" "uint tp"] by (rule mod_diff_mult)
  ultimately show ?thesis using that m(1) s(1) by metis
qed

lemma reduce_step_val:
  assumes "full_top MOD" "length tmp = 17" "i \<le> 8"
  obtains tmp' where "reduce_step MOD i (tmp, tp) = Inr (tmp', tmp' ! (i + 7))" "length tmp' = 17"
    "val (take (i + 8) tmp') mod val MOD = (val (take (i + 8) tmp) + 2 ^ (32 * (i + 8)) * uint tp) mod val MOD"
proof -
  let ?c = "take 8 (drop i tmp)"
  have "length ?c = 8" using assms by simp
  then obtain t red t1 c1 c2 where r: "mulAdd MOD tp 0 (replicate 8 0) = (t, red)"
    "subTop t red tp ?c = Inr (t1, c1)" "t1 \<le> 1" "subM MOD t1 c1 (NOT (t1 - 1)) = (0, c2)" "length c2 = 8"
    "val c2 mod val MOD = (val ?c + 2 ^ 256 * uint tp) mod val MOD"
    using reduce_digit [OF assms(1)] by metis
  define tmp' where "tmp' = write_at tmp i c2"
  have w: "length tmp' = 17" "take (i + 8) tmp' = take i tmp @ c2"
    using write_at [of i c2 tmp] r(5) assms by (simp_all add: tmp'_def)
  have "reduce_step MOD i (tmp, tp) = Inr (tmp', tmp' ! (i + 7))"
    by (simp add: reduce_step_def r tmp'_def Let_def)
  moreover have "val (take (i + 8) tmp') mod val MOD = (val (take i tmp) + 2 ^ (32 * i) * (val c2 mod val MOD)) mod val MOD"
    using assms mod_add_right_eq [of "val (take i tmp)" "2 ^ (32 * i) * val c2" "val MOD"]
      mod_mult_right_eq [of "2 ^ (32 * i)" "val c2" "val MOD"]
    by (simp add: w(2) val_append min_def) (metis mod_add_right_eq mod_mult_right_eq)
  then have "val (take (i + 8) tmp') mod val MOD = (val (take i tmp) + 2 ^ (32 * i) * (val ?c + 2 ^ 256 * uint tp)) mod val MOD"
    unfolding r(6) by (metis mod_add_right_eq mod_mult_right_eq)
  moreover have "val (take i tmp) + 2 ^ (32 * i) * (val ?c + 2 ^ 256 * uint tp) = val (take (i + 8) tmp) + 2 ^ (32 * (i + 8)) * uint tp"
    using val_slice [of i tmp] assms by (simp add: power_add algebra_simps)
  ultimately show ?thesis using that w(1) by simp
qed

lemma reduce_loop_val:
  assumes "full_top MOD" "length tmp = 17" "i \<le> 8"
  shows "\<exists>tmp' tp'. reduce_loop MOD i (tmp, tp) = Inr (tmp', tp') \<and> length tmp' = 17 \<and>
    val (take 8 tmp') mod val MOD = (val (take (i + 8) tmp) + 2 ^ (32 * (i + 8)) * uint tp) mod val MOD"
  using assms(2,3)
proof (induction i arbitrary: tmp tp)
  case 0
  then show ?case using reduce_step_val [OF assms(1), of tmp 0 tp]
    by (metis add_0 mult_0_right reduce_loop.simps(1) zero_le)
next
  case (Suc i)
  obtain tmp' where s: "reduce_step MOD (Suc i) (tmp, tp) = Inr (tmp', tmp' ! (Suc i + 7))" "length tmp' = 17"
    "val (take (Suc i + 8) tmp') mod val MOD = (val (take (Suc i + 8) tmp) + 2 ^ (32 * (Suc i + 8)) * uint tp) mod val MOD"
    using reduce_step_val [OF assms(1) Suc.prems] by metis
  have "val (take (Suc i + 8) tmp') = val (take (i + 8) tmp') + 2 ^ (32 * (i + 8)) * uint (tmp' ! (Suc i + 7))"
    using val_take_Suc [of "i + 8" tmp'] s(2) Suc.prems by (simp add: add.commute [of 8 i])
  then show ?case using Suc.IH [OF s(2), of "tmp' ! (Suc i + 7)"] Suc.prems s by auto
qed

lemma p256_modmul_val:
  assumes "full_top MOD" "length a = 8" "length b = 8"
  obtains c where "p256_modmul MOD a tb b = Inr c" "length c = 8"
    "val c = val a * (val b + 2 ^ 256 * uint tb) mod val MOD"
proof -
  note M = full_top_bounds [OF assms(1)]
  obtain tmp tp where f: "foldl (\<lambda>st i. mul_step a (b ! i) i st) (replicate 17 0, 0) [0..<8] = (tmp, tp)" "length tmp = 17"
      "val (take (8 + 7) tmp) + 2 ^ (32 * (8 + 7)) * uint tp = val a * val (take 8 b)"
    using mul_loop_val [OF assms(2,3), of 8] by auto
  obtain tmp' tp' where s: "mul_step a tb 8 (tmp, tp) = (tmp', tp')" "length tmp' = 17"
    "val (take (8 + 8) tmp') + 2 ^ (32 * (8 + 8)) * uint tp' = val a * val (take 8 b) + 2 ^ (32 * 8) * (val a * uint tb)"
    by (rule mul_step_val [of tmp 8 a tp tb, unfolded f(3)]) (use f(2) assms(2) in auto)
  have v: "val (take (8 + 8) tmp') + 2 ^ (32 * (8 + 8)) * uint tp' = val a * (val b + 2 ^ 256 * uint tb)"
    unfolding s(3) using assms(3) by (simp add: algebra_simps)
  obtain u up where r: "reduce_loop MOD 8 (tmp', tp') = Inr (u, up)" "length u = 17"
    "val (take 8 u) mod val MOD = val a * (val b + 2 ^ 256 * uint tb) mod val MOD"
    using reduce_loop_val [OF assms(1) s(2), of 8 tp'] unfolding v by auto
  have d: "p256_modmul MOD a tb b = Inr (p256_mod MOD (take 8 u))"
    unfolding p256_modmul_def f(1) Let_def s(1) r(1) p256_mod_def by (simp split: prod.splits)
  have l: "length (take 8 u) = 8" using r(2) by simp
  have "val (take 8 u) < 2 ^ 256" "0 \<le> val (take 8 u)" using val_less [of "take 8 u"] l by (simp_all add: val_nonneg)
  then have "val (p256_mod MOD (take 8 u)) = val (take 8 u) mod val MOD"
    using p256_mod_val(1) [OF M(1) l] M(2) mod_once [of "val (take 8 u)" "val MOD"] by simp
  then show ?thesis using that [OF d] p256_mod_val(2) [OF M(1) l] r(3) by simp
qed

end
