(* ===== verification/P256_Arith.thy ===== *)
theory P256_Arith
  imports P256
begin

text \<open>
  What the operations of \<^verbatim>\<open>p256.c\<close> compute, over the numbers their digits stand for: comparison, sums and
  shifts, the modular inverse with the invariant of the binary Euclidean algorithm and a bound on its
  iterations, the test for points of the curve, and the reading of big-endian bytes.
\<close>

lemma val_zero_iff: "val ds = 0 \<longleftrightarrow> (\<forall>d \<in> set ds. d = 0)"
proof (induction ds)
  case (Cons d ds)
  have "0 \<le> uint d" "0 \<le> val ds" by (simp_all add: val_nonneg)
  then show ?case using Cons by (auto simp: add_nonneg_eq_0_iff intro: word_uint_eqI)
qed simp

lemma foldl_or_zero: "foldl (OR) (z :: u32) ds = 0 \<longleftrightarrow> z = 0 \<and> (\<forall>d \<in> set ds. d = 0)"
  by (induction ds arbitrary: z) (auto simp: or_eq_0_iff)

lemma p256_is_zero_val: "p256_is_zero a \<longleftrightarrow> val a = 0"
  by (simp add: p256_is_zero_def foldl_or_zero val_zero_iff)

lemma cmp_loop_sub:
  assumes "length a = length b"
  shows "cmp_loop bo nz a b = (snd (sub_loop bo a b), nz OR (if \<forall>d \<in> set (fst (sub_loop bo a b)). d = 0 then 0 else 1))"
  using assms
proof (induction a b arbitrary: bo nz rule: list_induct2)
  case (Cons x a y b)
  have e: "bo + (uint x - uint y) = bo + uint x - uint y" by simp
  show ?case unfolding cmp_loop.simps sub_loop.simps Let_def e Cons.IH
    by (auto split: prod.splits simp: or.assoc)
qed simp

lemma p256_cmp_val:
  assumes "length a = 8" "length b = 8"
  shows "p256_cmp a b = (if val a < val b then -1 else if val a = val b then 0 else 1)"
proof -
  obtain c out where s: "sub_loop 0 a b = (c, out)" "length c = 8" "out = (if val b \<le> val a then 0 else -1)"
      "val c = val a - val b - 2 ^ 256 * out"
    using sub_val [OF assms] by metis
  have z: "(\<forall>d \<in> set c. d = 0) \<longleftrightarrow> val c = 0" by (simp add: val_zero_iff)
  show ?thesis unfolding p256_cmp_def cmp_loop_sub [OF assms(1) [folded assms(2)]] s(1)
    using s(3,4) by (simp add: z)
qed

lemma p256_sub_val:
  assumes "length a = 8" "length b = 8"
  shows "fst (p256_sub a b) = (if val b \<le> val a then 0 else -1)" "length (snd (p256_sub a b)) = 8"
    "val (snd (p256_sub a b)) = val a - val b + (if val b \<le> val a then 0 else 2 ^ 256)"
proof -
  obtain c out where s: "sub_loop 0 a b = (c, out)" "length c = 8" "out = (if val b \<le> val a then 0 else -1)"
      "val c = val a - val b - 2 ^ 256 * out"
    using sub_val [OF assms] by metis
  then show "fst (p256_sub a b) = (if val b \<le> val a then 0 else -1)" "length (snd (p256_sub a b)) = 8"
    "val (snd (p256_sub a b)) = val a - val b + (if val b \<le> val a then 0 else 2 ^ 256)"
    by (simp_all add: p256_sub_def)
qed

lemma p256_add_val:
  assumes "length a = 8" "length b = 8"
  shows "fst (p256_add a b) = (if val a + val b < 2 ^ 256 then 0 else 1)" "length (snd (p256_add a b)) = 8"
    "val (snd (p256_add a b)) = val a + val b - (if val a + val b < 2 ^ 256 then 0 else 2 ^ 256)"
proof -
  obtain c out where s: "add_loop 0 a b = (c, out)" "length c = 8" "uint out = (if val a + val b < 2 ^ 256 then 0 else 1)"
      "val c = val a + val b - 2 ^ 256 * uint out"
    using add_val [OF assms] by metis
  have "out = (if val a + val b < 2 ^ 256 then 0 else 1)" using s(3) by (simp add: word_uint_eqI split: if_splits)
  then show "fst (p256_add a b) = (if val a + val b < 2 ^ 256 then 0 else 1)" "length (snd (p256_add a b)) = 8"
    "val (snd (p256_add a b)) = val a + val b - (if val a + val b < 2 ^ 256 then 0 else 2 ^ 256)"
    using s by (simp_all add: p256_add_def)
qed

lemma uint_shift_pair:
  fixes x y :: u32
  assumes "0 < k" "k < 32"
  shows "uint (drop_bit k x OR push_bit (32 - k) y) = uint x div 2 ^ k + 2 ^ (32 - k) * (uint y mod 2 ^ k)"
proof -
  have "uint (drop_bit k x OR push_bit (32 - k) y) = drop_bit k (uint x) OR push_bit (32 - k) (take_bit k (uint y))"
    using assms by (intro bit_eqI) (auto simp: bit_simps bit_uint_iff dest: bit_imp_le_length)
  also have "\<dots> = drop_bit k (uint x) + push_bit (32 - k) (take_bit k (uint y))"
    using assms by (intro disjunctive_add_eq_or [symmetric] bit_eqI) (auto simp: bit_simps bit_uint_iff dest: bit_imp_le_length)
  finally show ?thesis by (simp add: drop_bit_eq_div push_bit_eq_mult take_bit_eq_mod mult.commute)
qed

lemma uint_shift_up:
  fixes x y :: u32
  assumes "0 < k" "k < 32"
  shows "uint (push_bit k x OR drop_bit (32 - k) y) = 2 ^ k * (uint x mod 2 ^ (32 - k)) + uint y div 2 ^ (32 - k)"
  using uint_shift_pair [of "32 - k" y x] assms by (simp add: or.commute)

lemma odd_uint: "odd (uint (d :: u32)) \<longleftrightarrow> d AND 1 \<noteq> 0"
  by (simp add: and_one_eq bit_simps flip: bit_0) (simp add: bit_0 odd_iff_mod_2_eq_one)

lemma p256_is_even_val:
  assumes "length a = 8"
  shows "p256_is_even a \<longleftrightarrow> even (val a)" "p256_is_odd a \<longleftrightarrow> odd (val a)"
proof -
  obtain d ds where a: "a = d # ds" using assms by (cases a) auto
  show "p256_is_even a \<longleftrightarrow> even (val a)" "p256_is_odd a \<longleftrightarrow> odd (val a)"
    using odd_uint [of d] by (auto simp: p256_is_even_def p256_is_odd_def a)
qed

fun shr_digits :: "nat \<Rightarrow> u32 list \<Rightarrow> u32 \<Rightarrow> u32 list" where
  "shr_digits k [] h = []"
| "shr_digits k (d # ds) h = (drop_bit k d OR push_bit (32 - k) (case ds of [] \<Rightarrow> h | e # _ \<Rightarrow> e)) # shr_digits k ds h"

fun shl_digits :: "nat \<Rightarrow> u32 \<Rightarrow> u32 list \<Rightarrow> u32 list" where
  "shl_digits k y [] = []"
| "shl_digits k y (d # ds) = (push_bit k d OR drop_bit (32 - k) y) # shl_digits k d ds"

lemma pow_split_32: "k < 32 \<Longrightarrow> (2 :: int) ^ 32 = 2 ^ k * 2 ^ (32 - k)"
  by (simp flip: power_add)

lemma shr_digits_val:
  assumes "0 < k" "k < 32" "uint h < 2 ^ k"
  shows "val (shr_digits k ds h) = (val ds + 2 ^ (32 * length ds) * uint h) div 2 ^ k"
proof (induction ds)
  case Nil
  then show ?case using assms by simp
next
  case (Cons d ds)
  define X where "X = val ds + 2 ^ (32 * length ds) * uint h"
  define e where "e = (case ds of [] \<Rightarrow> h | e # _ \<Rightarrow> e)"
  have p: "(2 :: int) ^ 32 = 2 ^ k * 2 ^ (32 - k)" using assms(2) by (rule pow_split_32)
  have e: "uint e mod 2 ^ k = X mod 2 ^ k"
  proof (cases ds)
    case (Cons f fs)
    then have "X = uint e + 2 ^ k * (2 ^ (32 - k) * (val fs + 2 ^ (32 * length fs) * uint h))"
      unfolding X_def e_def mult.assoc [symmetric] p [symmetric] by (simp add: power_add algebra_simps)
    then show ?thesis by simp
  qed (simp add: X_def e_def)
  have "val (d # ds) + 2 ^ (32 * length (d # ds)) * uint h = uint d + 2 ^ k * (2 ^ (32 - k) * X)"
    unfolding X_def mult.assoc [symmetric] p [symmetric] by (simp add: power_add algebra_simps)
  note E = this
  have r: "(val (d # ds) + 2 ^ (32 * length (d # ds)) * uint h) div 2 ^ k = uint d div 2 ^ k + 2 ^ (32 - k) * X"
    unfolding E by simp
  have "val (shr_digits k (d # ds) h) = uint d div 2 ^ k + 2 ^ (32 - k) * (X mod 2 ^ k) + 2 ^ 32 * (X div 2 ^ k)"
    using uint_shift_pair [OF assms(1,2), of d e] Cons.IH by (simp add: e_def [symmetric] X_def [symmetric] e)
  also have "\<dots> = uint d div 2 ^ k + 2 ^ (32 - k) * (X mod 2 ^ k + 2 ^ k * (X div 2 ^ k))"
    unfolding p by (simp only: distrib_left ac_simps)
  also have "\<dots> = uint d div 2 ^ k + 2 ^ (32 - k) * X" unfolding mod_mult_div_eq ..
  finally show ?case unfolding r .
qed

lemma shl_digits_val:
  assumes "0 < k" "k < 32"
  shows "val (shl_digits k y ds) + 2 ^ (32 * length ds) * (uint (last (y # ds)) div 2 ^ (32 - k)) =
    2 ^ k * val ds + uint y div 2 ^ (32 - k)"
proof (induction ds arbitrary: y)
  case (Cons d ds)
  have p: "(2 :: int) ^ 32 = 2 ^ k * 2 ^ (32 - k)" using assms(2) by (rule pow_split_32)
  have "val (shl_digits k y (d # ds)) + 2 ^ (32 * length (d # ds)) * (uint (last (y # d # ds)) div 2 ^ (32 - k)) =
    2 ^ k * (uint d mod 2 ^ (32 - k)) + uint y div 2 ^ (32 - k) +
    2 ^ 32 * (val (shl_digits k d ds) + 2 ^ (32 * length ds) * (uint (last (d # ds)) div 2 ^ (32 - k)))"
    using uint_shift_up [OF assms, of d y] by (simp add: power_add algebra_simps)
  also have "\<dots> = 2 ^ k * (uint d mod 2 ^ (32 - k) + 2 ^ (32 - k) * (uint d div 2 ^ (32 - k))) + 2 ^ 32 * (2 ^ k * val ds) +
    uint y div 2 ^ (32 - k)"
    unfolding Cons.IH p by (simp only: distrib_left ac_simps)
  also have "\<dots> = 2 ^ k * val (d # ds) + uint y div 2 ^ (32 - k)"
    unfolding mod_mult_div_eq by (simp add: algebra_simps)
  finally show ?case .
qed simp

lemma length_shr_digits [simp]: "length (shr_digits k ds h) = length ds"
  by (induction ds) simp_all

lemma length_shl_digits [simp]: "length (shl_digits k y ds) = length ds"
  by (induction ds arbitrary: y) simp_all

lemma length_8_cases:
  assumes "length a = 8"
  obtains a0 a1 a2 a3 a4 a5 a6 a7 where "a = [a0, a1, a2, a3, a4, a5, a6, a7]"
  using assms by (auto simp: eval_nat_numeral length_Suc_conv)

lemma p256_shr1_digits:
  assumes "length a = 8"
  shows "p256_shr1 a h = shr_digits 1 a h"
  using assms by (rule length_8_cases) (simp add: p256_shr1_def upt_rec)

lemma p256_shr1_val:
  assumes "length a = 8" "uint h < 2"
  shows "length (p256_shr1 a h) = 8" "val (p256_shr1 a h) = (val a + 2 ^ 256 * uint h) div 2"
  using shr_digits_val [of 1 h a] assms by (simp_all add: p256_shr1_digits)

lemma smod_32: "0 \<le> n \<Longrightarrow> n smod 32 = n mod (32 :: int)"
  by (cases "n = 0") (simp_all add: signed_modulo_int_def)

lemma p256_shl_digits:
  assumes "length a = 8" "0 < n mod 32" "0 \<le> n"
  shows "p256_shl a n = Inr (ucast (drop_bit 32 (push_bit (nat (n mod 32)) (ucast (a ! 7) :: u64))), shl_digits (nat (n mod 32)) 0 a)"
  using assms(1) by (rule length_8_cases) (use assms(2,3) in \<open>simp add: p256_shl_def smod_32 Let_def upt_rec\<close>)

lemma p256_shr_digits:
  assumes "length a = 8" "0 < n mod 32" "0 \<le> n"
  shows "p256_shr a n = Inr (shr_digits (nat (n mod 32)) a 0)"
  using assms(1) by (rule length_8_cases) (use assms(2,3) in \<open>simp add: p256_shr_def smod_32 Let_def upt_rec\<close>)

lemma shl_top:
  assumes "0 < k" "k < 32"
  shows "uint (ucast (drop_bit 32 (push_bit k (ucast t :: u64))) :: u32) = uint (t :: u32) div 2 ^ (32 - k)"
proof -
  have "uint (ucast (drop_bit 32 (push_bit k (ucast t :: u64))) :: u32) = drop_bit (32 - k) (uint t)"
    using assms by (intro bit_eqI) (auto simp: bit_simps bit_uint_iff dest: bit_imp_le_length)
  then show ?thesis by (simp add: drop_bit_eq_div)
qed

lemma p256_shl_exact:
  assumes "length a = 8" "0 \<le> n"
  shows "if n mod 32 = 0 then p256_shl a n = Inl BadShift
    else (\<exists>t b. p256_shl a n = Inr (t, b) \<and> length b = 8 \<and> val b + 2 ^ 256 * uint t = 2 ^ nat (n mod 32) * val a)"
proof (cases "n mod 32 = 0")
  case True
  then show ?thesis using assms(2) by (simp add: p256_shl_def smod_32)
next
  case False
  then have k: "0 < n mod 32" "0 < nat (n mod 32)" "nat (n mod 32) < 32"
    using pos_mod_bound [of 32 n] pos_mod_sign [of 32 n] by linarith+
  have "last (0 # a) = a ! 7" using assms(1) by (auto simp: last_conv_nth)
  then show ?thesis
    using shl_digits_val [OF k(2,3), of 0 a] p256_shl_digits [OF assms(1) k(1) assms(2)] shl_top [OF k(2,3), of "a ! 7"] False assms(1)
    by simp
qed

lemma p256_shr_floor:
  assumes "length a = 8" "0 \<le> n"
  shows "if n mod 32 = 0 then p256_shr a n = Inl BadShift
    else (\<exists>b. p256_shr a n = Inr b \<and> length b = 8 \<and> val b = val a div 2 ^ nat (n mod 32))"
proof (cases "n mod 32 = 0")
  case True
  then show ?thesis using assms(2) by (simp add: p256_shr_def smod_32)
next
  case False
  then have k: "0 < n mod 32" "0 < nat (n mod 32)" "nat (n mod 32) < 32"
    using pos_mod_bound [of 32 n] pos_mod_sign [of 32 n] by linarith+
  then show ?thesis
    using shr_digits_val [OF k(2,3), of 0 a] p256_shr_digits [OF assms(1) k(1) assms(2)] False assms(1) by simp
qed

text \<open>
  For \<open>n\<close> not a multiple of 32, shifting left multiplies by \<open>2\<^sup>n\<close> (\<open>n\<close> taken modulo the digit size), the returned
  digit holding what leaves the number, and shifting right divides and rounds down.  For a multiple of 32, zero
  included, both shift a digit by its full width, which C leaves undefined.
\<close>

theorem p256_shifts_exact:
  assumes "length a = 8" "0 \<le> n"
  shows "if n mod 32 = 0 then p256_shl a n = Inl BadShift \<and> p256_shr a n = Inl BadShift
    else (\<exists>t b c. p256_shl a n = Inr (t, b) \<and> length b = 8 \<and> val b + 2 ^ 256 * uint t = 2 ^ nat (n mod 32) * val a \<and>
      p256_shr a n = Inr c \<and> length c = 8 \<and> val c = val a div 2 ^ nat (n mod 32))"
  using p256_shl_exact [OF assms] p256_shr_floor [OF assms] by auto

theorem p256_shifts_exact_witness:
  "\<exists>t b c. p256_shl SECP256r1_n 29 = Inr (t, b) \<and> length b = 8 \<and> val b + 2 ^ 256 * uint t = 2 ^ 29 * val SECP256r1_n \<and>
      p256_shr SECP256r1_n 29 = Inr c \<and> length c = 8 \<and> val c = val SECP256r1_n div 2 ^ 29"
  using p256_shifts_exact [of SECP256r1_n 29] by (simp add: SECP256r1_n_def)

text \<open>
  Comparison, subtraction and addition of 256-bit numbers: the sign of the difference, the difference with
  its borrow, the sum with its carry, each exact.
\<close>

theorem p256_cmp_sub_add_exact:
  assumes "length a = 8" "length b = 8"
  shows "p256_cmp a b = sgn (val a - val b) \<and>
    val (snd (p256_sub a b)) + 2 ^ 256 * fst (p256_sub a b) = val a - val b \<and>
    val (snd (p256_add a b)) + 2 ^ 256 * uint (fst (p256_add a b)) = val a + val b"
  using p256_cmp_val [OF assms] p256_sub_val [OF assms] p256_add_val [OF assms] by auto

theorem p256_cmp_sub_add_exact_witness:
  "p256_cmp SECP256r1_n SECP256r1_p = -1 \<and>
    val (snd (p256_sub SECP256r1_n SECP256r1_p)) + 2 ^ 256 * fst (p256_sub SECP256r1_n SECP256r1_p) < 0"
  using p256_cmp_sub_add_exact [of SECP256r1_n SECP256r1_p]
  by (simp add: SECP256r1_n_def SECP256r1_p_def unsigned_minus_1_eq_mask mask_eq_exp_minus_1)

text \<open>
  C30. \<^verbatim>\<open>p256_modmul\<close>, for a modulus whose most significant digit is full: none of its assertions fails and the
  result is the product modulo the modulus, for all operands and every additional top digit.
\<close>

theorem p256_modmul_correct:
  assumes "length MOD = 8" "MOD ! 7 = -1" "length a = 8" "length b = 8"
  shows "\<exists>c. p256_modmul MOD a top_b b = Inr c \<and> length c = 8 \<and>
    val c = val a * (val b + 2 ^ 256 * uint top_b) mod val MOD"
proof -
  have "full_top MOD" using assms(1,2) by (simp add: full_top_def)
  then show ?thesis using p256_modmul_val [of MOD a b top_b] assms(3,4) by metis
qed

theorem p256_modmul_correct_witness:
  "\<exists>c. p256_modmul SECP256r1_p SECP256r1_b 7 SECP256r1_n = Inr c \<and> length c = 8 \<and>
    val c = val SECP256r1_b * (val SECP256r1_n + 2 ^ 256 * 7) mod val SECP256r1_p"
  using p256_modmul_correct [of SECP256r1_p SECP256r1_b SECP256r1_n 7]
  by (simp add: SECP256r1_p_def SECP256r1_b_def SECP256r1_n_def)

section \<open>Modular inverse\<close>

lemma halve_mod_val:
  assumes "length MOD = 8" "length R = 8" "odd (val MOD)" "val R < val MOD"
  shows "length (halve_mod MOD R) = 8" "2 * val (halve_mod MOD R) = val R + (if even (val R) then 0 else val MOD)"
    "val (halve_mod MOD R) < val MOD"
proof -
  have v: "length (halve_mod MOD R) = 8 \<and> 2 * val (halve_mod MOD R) = val R + (if even (val R) then 0 else val MOD)"
  proof (cases "even (val R)")
    case True
    then show ?thesis using p256_shr1_val [of R 0] assms by (simp add: halve_mod_def p256_is_even_val)
  next
    case False
    obtain cy R' where a: "p256_add R MOD = (cy, R')" by fastforce
    note ad = p256_add_val [OF assms(2,1), unfolded a fst_conv snd_conv]
    have "uint cy < 2" using ad(1) by simp
    then have "val (p256_shr1 R' cy) = (val R + val MOD) div 2" "length (p256_shr1 R' cy) = 8"
      using p256_shr1_val [OF ad(2), of cy] ad(1,3) by (auto split: if_splits)
    then show ?thesis using False assms(2,3) by (simp add: halve_mod_def p256_is_even_val a)
  qed
  then show "length (halve_mod MOD R) = 8" "2 * val (halve_mod MOD R) = val R + (if even (val R) then 0 else val MOD)"
    by simp_all
  then show "val (halve_mod MOD R) < val MOD" using assms(4) val_nonneg [of R] by (simp split: if_splits)
qed

lemma sub_mod_val:
  assumes "length MOD = 8" "length S = 8" "length R = 8" "val S < val MOD" "val R < val MOD"
  shows "length (sub_mod MOD S R) = 8" "val (sub_mod MOD S R) = val S - val R + (if val R \<le> val S then 0 else val MOD)"
    "val (sub_mod MOD S R) < val MOD"
proof -
  note s = p256_sub_val [OF assms(2,3)]
  note a = p256_add_val [OF s(2) assms(1)]
  have M: "val MOD < 2 ^ 256" "0 \<le> val S" "0 \<le> val R" using val_less [of MOD] assms(1) by (simp_all add: val_nonneg)
  have v: "length (sub_mod MOD S R) = 8 \<and> val (sub_mod MOD S R) = val S - val R + (if val R \<le> val S then 0 else val MOD)"
  proof (cases "val R \<le> val S")
    case True
    then show ?thesis using s by (cases "p256_sub S R") (simp add: sub_mod_def)
  next
    case False
    then have "\<not> val (snd (p256_sub S R)) + val MOD < 2 ^ 256" using s(3) M assms(5) by simp
    then show ?thesis using False s a by (cases "p256_sub S R") (simp add: sub_mod_def)
  qed
  then show "length (sub_mod MOD S R) = 8" "val (sub_mod MOD S R) = val S - val R + (if val R \<le> val S then 0 else val MOD)"
    by simp_all
  then show "val (sub_mod MOD S R) < val MOD" using assms M by simp
qed

text \<open>The invariant of the binary extended Euclidean algorithm.\<close>

definition euclid_inv :: "int \<Rightarrow> int \<Rightarrow> euclid \<Rightarrow> bool" where
  "euclid_inv M a st \<longleftrightarrow> length (eu_R st) = 8 \<and> length (eu_S st) = 8 \<and> length (eu_U st) = 8 \<and> length (eu_V st) = 8
     \<and> val (eu_R st) < M \<and> val (eu_S st) < M \<and> 0 < val (eu_U st) \<and> 0 < val (eu_V st)
     \<and> M dvd a * val (eu_R st) - val (eu_U st) \<and> M dvd a * val (eu_S st) - val (eu_V st)
     \<and> gcd (val (eu_U st)) (val (eu_V st)) = gcd M a"

lemma dvd_halve:
  fixes M :: int
  assumes "odd M" "M dvd a * r - u" "2 * r' = r + k * M" "u = 2 * u'"
  shows "M dvd a * r' - u'"
proof -
  have "2 * (a * r' - u') = (a * r - u) + (a * k) * M" using assms(3,4) by algebra
  then have "M dvd 2 * (a * r' - u')" using assms(2) by simp
  moreover have "coprime M 2" using assms(1) by simp
  ultimately show ?thesis using coprime_dvd_mult_right_iff by blast
qed

lemma gcd_halve: "odd (v :: int) \<Longrightarrow> gcd (2 * u) v = gcd u v"
  by (simp add: gcd_mult_left_left_cancel)

lemma odd_gcd: "odd (M :: int) \<Longrightarrow> gcd u v = gcd M a \<Longrightarrow> even u \<Longrightarrow> odd v"
  by (metis dvd_trans gcd_dvd1 gcd_greatest)

definition euclid_size :: "nat \<Rightarrow> nat \<Rightarrow> euclid \<Rightarrow> nat" where
  "euclid_size i j st = 2 * (i + j) + of_bool (odd (val (eu_U st)) \<and> odd (val (eu_V st)))"

definition euclid_bits :: "nat \<Rightarrow> nat \<Rightarrow> euclid \<Rightarrow> bool" where
  "euclid_bits i j st \<longleftrightarrow> val (eu_U st) < 2 ^ i \<and> val (eu_V st) < 2 ^ j"

lemma half_less_pow: "0 < u \<Longrightarrow> 2 * u' = u \<Longrightarrow> u < 2 ^ i \<Longrightarrow> 0 < (u' :: int) \<and> (\<exists>i'. i = Suc i' \<and> u' < 2 ^ i')"
  by (cases i) auto

lemma euclid_even_U:
  assumes "length MOD = 8" "M = val MOD" "odd M" "euclid_inv M a st" "euclid_bits i j st" "even (val (eu_U st))"
  defines "st' \<equiv> st\<lparr>eu_U := p256_shr1 (eu_U st) 0, eu_R := halve_mod MOD (eu_R st)\<rparr>"
  shows "euclid_inv M a st' \<and> (\<exists>i' j'. euclid_bits i' j' st' \<and> euclid_size i' j' st' < euclid_size i j st)"
proof -
  note inv = assms(4) [unfolded euclid_inv_def]
  have h: "length (halve_mod MOD (eu_R st)) = 8" "val (halve_mod MOD (eu_R st)) < M"
      "2 * val (halve_mod MOD (eu_R st)) = val (eu_R st) + (if even (val (eu_R st)) then 0 else 1) * M"
    using halve_mod_val [of MOD "eu_R st"] inv assms(1-3) by auto
  have u: "length (p256_shr1 (eu_U st) 0) = 8" "2 * val (p256_shr1 (eu_U st) 0) = val (eu_U st)"
    using p256_shr1_val [of "eu_U st" 0] inv assms(6) by auto
  have V: "odd (val (eu_V st))" using odd_gcd [of M "val (eu_U st)" "val (eu_V st)" a] inv assms(3,6) by simp
  obtain i' where i: "i = Suc i'" "val (p256_shr1 (eu_U st) 0) < 2 ^ i'" "0 < val (p256_shr1 (eu_U st) 0)"
    using half_less_pow [OF _ u(2), of i] inv assms(5) by (auto simp: euclid_bits_def)
  have "M dvd a * val (halve_mod MOD (eu_R st)) - val (p256_shr1 (eu_U st) 0)"
    using dvd_halve [OF assms(3) _ h(3) u(2) [symmetric]] inv by simp
  moreover have "gcd (val (p256_shr1 (eu_U st) 0)) (val (eu_V st)) = gcd M a"
    using gcd_halve [OF V, of "val (p256_shr1 (eu_U st) 0)"] inv unfolding u(2) by simp
  ultimately have "euclid_inv M a st'" using inv h u(1) i(3) by (simp add: euclid_inv_def st'_def)
  moreover have "euclid_bits i' j st'" using i(2) assms(5) by (simp add: euclid_bits_def st'_def)
  moreover have "euclid_size i' j st' < euclid_size i j st" using i(1) by (simp add: euclid_size_def)
  ultimately show ?thesis by blast
qed

text \<open>The step is symmetric in the two halves of the state.\<close>

definition swap :: "euclid \<Rightarrow> euclid" where
  "swap st = \<lparr>eu_R = eu_S st, eu_S = eu_R st, eu_U = eu_V st, eu_V = eu_U st\<rparr>"

lemma swap_simps [simp]:
  "swap (swap st) = st" "eu_R (swap st) = eu_S st" "eu_S (swap st) = eu_R st"
  "eu_U (swap st) = eu_V st" "eu_V (swap st) = eu_U st"
  "euclid_inv M a (swap st) = euclid_inv M a st"
  "euclid_bits i j (swap st) = euclid_bits j i st" "euclid_size i j (swap st) = euclid_size j i st"
  by (auto simp: swap_def euclid_inv_def euclid_bits_def euclid_size_def gcd.commute)

lemma euclid_even_V:
  assumes "length MOD = 8" "M = val MOD" "odd M" "euclid_inv M a st" "euclid_bits i j st" "even (val (eu_V st))"
  defines "st' \<equiv> st\<lparr>eu_V := p256_shr1 (eu_V st) 0, eu_S := halve_mod MOD (eu_S st)\<rparr>"
  shows "euclid_inv M a st' \<and> (\<exists>i' j'. euclid_bits i' j' st' \<and> euclid_size i' j' st' < euclid_size i j st)"
proof -
  have "swap st' = (swap st)\<lparr>eu_U := p256_shr1 (eu_U (swap st)) 0, eu_R := halve_mod MOD (eu_R (swap st))\<rparr>"
    by (simp add: swap_def st'_def)
  then have "euclid_inv M a (swap st') \<and> (\<exists>i' j'. euclid_bits i' j' (swap st') \<and> euclid_size i' j' (swap st') < euclid_size j i (swap st))"
    using euclid_even_U [OF assms(1-3), of a "swap st" j i] assms(4-6) by simp
  then show ?thesis by auto
qed

lemma euclid_odd:
  assumes "length MOD = 8" "M = val MOD" "euclid_inv M a st" "euclid_bits i j st"
    "odd (val (eu_U st))" "odd (val (eu_V st))" "val (eu_U st) \<le> val (eu_V st)"
  defines "st' \<equiv> st\<lparr>eu_V := snd (p256_sub (eu_V st) (eu_U st)), eu_S := sub_mod MOD (eu_S st) (eu_R st)\<rparr>"
  shows "val (eu_V st') = val (eu_V st) - val (eu_U st)"
    "val (eu_V st') \<noteq> 0 \<Longrightarrow> euclid_inv M a st' \<and> (\<exists>i' j'. euclid_bits i' j' st' \<and> euclid_size i' j' st' < euclid_size i j st)"
proof -
  note inv = assms(3) [unfolded euclid_inv_def]
  have d: "length (eu_V st') = 8" "val (eu_V st') = val (eu_V st) - val (eu_U st)"
    using p256_sub_val [of "eu_V st" "eu_U st"] inv assms(7) by (simp_all add: st'_def)
  then show "val (eu_V st') = val (eu_V st) - val (eu_U st)" by simp
  assume "val (eu_V st') \<noteq> 0"
  then have pos: "0 < val (eu_V st')" using val_nonneg [of "eu_V st'"] by simp
  obtain k where k: "length (eu_S st') = 8" "val (eu_S st') = val (eu_S st) - val (eu_R st) + k * M" "val (eu_S st') < M"
    using sub_mod_val [of MOD "eu_S st" "eu_R st"] inv assms(1,2)
    by (auto simp: st'_def intro: that [of "if val (eu_R st) \<le> val (eu_S st) then 0 else 1"])
  have "a * val (eu_S st') - val (eu_V st') = (a * val (eu_S st) - val (eu_V st)) - (a * val (eu_R st) - val (eu_U st)) + (a * k) * M"
    unfolding k(2) d(2) by (simp add: algebra_simps)
  moreover have "M dvd (a * val (eu_S st) - val (eu_V st)) - (a * val (eu_R st) - val (eu_U st)) + (a * k) * M"
    using inv by simp
  ultimately have "M dvd a * val (eu_S st') - val (eu_V st')" by simp
  moreover have "gcd (val (eu_U st)) (val (eu_V st')) = gcd M a"
    unfolding d(2) using inv by (metis gcd.commute gcd_diff1)
  ultimately have "euclid_inv M a st'" using inv k pos d(1) by (simp add: euclid_inv_def st'_def)
  moreover have "euclid_bits i j st'" using d(2) inv assms(4) by (simp add: euclid_bits_def st'_def)
  moreover have "euclid_size i j st' < euclid_size i j st"
    using d(2) assms(5,6) by (simp add: euclid_size_def)
  ultimately show "euclid_inv M a st' \<and> (\<exists>i' j'. euclid_bits i' j' st' \<and> euclid_size i' j' st' < euclid_size i j st)" by blast
qed

lemma euclid_step_inv:
  assumes "length MOD = 8" "M = val MOD" "odd M" "euclid_inv M a st" "euclid_bits i j st"
  shows "case euclid_step MOD st of
      Inl st' \<Rightarrow> length (eu_R st') = 8 \<and> val (eu_R st') < M \<and> M dvd a * val (eu_R st') - gcd M a
    | Inr st' \<Rightarrow> euclid_inv M a st' \<and> (\<exists>i' j'. euclid_bits i' j' st' \<and> euclid_size i' j' st' < euclid_size i j st)"
proof -
  note inv = assms(4) [unfolded euclid_inv_def]
  have e: "p256_is_even (eu_U st) \<longleftrightarrow> even (val (eu_U st))" "p256_is_even (eu_V st) \<longleftrightarrow> even (val (eu_V st))"
    "fst (p256_sub (eu_V st) (eu_U st)) = 0 \<longleftrightarrow> val (eu_U st) \<le> val (eu_V st)"
    using inv p256_sub_val(1) [of "eu_V st" "eu_U st"] by (simp_all add: p256_is_even_val)
  consider "even (val (eu_U st))" | "odd (val (eu_U st))" "even (val (eu_V st))"
    | "odd (val (eu_U st))" "odd (val (eu_V st))" "val (eu_U st) \<le> val (eu_V st)"
    | "odd (val (eu_U st))" "odd (val (eu_V st))" "\<not> val (eu_U st) \<le> val (eu_V st)" by blast
  then show ?thesis
  proof cases
    case 1
    then show ?thesis using euclid_even_U [OF assms] by (simp add: euclid_step_def e Let_def)
  next
    case 2
    then show ?thesis using euclid_even_V [OF assms] by (simp add: euclid_step_def e Let_def)
  next
    case 3
    define st' where "st' = st\<lparr>eu_V := snd (p256_sub (eu_V st) (eu_U st)), eu_S := sub_mod MOD (eu_S st) (eu_R st)\<rparr>"
    note od = euclid_odd [OF assms(1,2,4,5) 3, folded st'_def]
    have s: "euclid_step MOD st = (if val (eu_V st') = 0 then Inl st' else Inr st')"
      using 3 unfolding euclid_step_def Let_def e st'_def [symmetric] p256_is_zero_val by simp
    show ?thesis
    proof (cases "val (eu_V st') = 0")
      case True
      then have "gcd M a = val (eu_U st)" using od(1) inv by (metis abs_of_pos diff_eq_diff_eq gcd_idem_int diff_0_right eq_iff_diff_eq_0)
      then show ?thesis using True s inv by (simp add: st'_def)
    next
      case False
      then show ?thesis using s od(2) by simp
    qed
  next
    case 4
    define st' where "st' = st\<lparr>eu_U := snd (p256_sub (eu_U st) (eu_V st)), eu_R := sub_mod MOD (eu_R st) (eu_S st)\<rparr>"
    have sw: "swap st' = (swap st)\<lparr>eu_V := snd (p256_sub (eu_V (swap st)) (eu_U (swap st))),
        eu_S := sub_mod MOD (eu_S (swap st)) (eu_R (swap st))\<rparr>" by (simp add: swap_def st'_def)
    have s: "euclid_step MOD st = Inr st'" using 4 by (simp add: euclid_step_def Let_def e st'_def)
    have "euclid_inv M a (swap st') \<and> (\<exists>i' j'. euclid_bits i' j' (swap st') \<and> euclid_size i' j' (swap st') < euclid_size j i (swap st))"
      using euclid_odd [OF assms(1,2), of a "swap st" j i, folded sw] assms(4,5) 4 by simp
    then show ?thesis using s by auto
  qed
qed

lemma euclid_loop_terminates:
  assumes "length MOD = 8" "M = val MOD" "odd M"
  shows "euclid_inv M a st \<Longrightarrow> euclid_bits i j st \<Longrightarrow> euclid_size i j st < fuel \<Longrightarrow>
    \<exists>st'. euclid_loop fuel MOD st = Inr st' \<and> length (eu_R st') = 8 \<and> val (eu_R st') < M \<and> M dvd a * val (eu_R st') - gcd M a"
proof (induction fuel arbitrary: st i j)
  case (Suc fuel)
  show ?case
  proof (cases "euclid_step MOD st")
    case (Inl st')
    then show ?thesis using euclid_step_inv [OF assms Suc.prems(1,2)] by simp
  next
    case (Inr st')
    then obtain i' j' where "euclid_inv M a st'" "euclid_bits i' j' st'" "euclid_size i' j' st' < fuel"
      using euclid_step_inv [OF assms Suc.prems(1,2)] Suc.prems(3) by fastforce
    then show ?thesis using Suc.IH Inr by simp
  qed
qed simp

text \<open>
  C31. For an odd modulus and a number that is not zero, \<^verbatim>\<open>p256_modinv_vartime\<close> ends after at most 1025
  iterations of its loop, with a number below the modulus whose product with the argument is the greatest common
  divisor of argument and modulus, hence the inverse whenever the two are coprime.
\<close>

theorem p256_modinv_vartime_correct:
  assumes "length MOD = 8" "odd (val MOD)" "1 < val MOD" "length a = 8" "0 < val a" "1026 \<le> fuel"
  shows "\<exists>b. p256_modinv_vartime fuel MOD a = Inr b \<and> length b = 8 \<and> val b < val MOD \<and>
    val a * val b mod val MOD = gcd (val a) (val MOD) mod val MOD"
proof -
  let ?st = "\<lparr>eu_R = P256_ZERO, eu_S = P256_ONE, eu_U = MOD, eu_V = a\<rparr>"
  have z: "length P256_ZERO = 8" "val P256_ZERO = 0" "length P256_ONE = 8" "val P256_ONE = 1"
    by (simp_all add: P256_ZERO_def P256_ONE_def)
  have "euclid_inv (val MOD) (val a) ?st"
    using assms by (simp add: euclid_inv_def z)
  moreover have "euclid_bits 256 256 ?st" using val_less [of MOD] val_less [of a] assms by (simp add: euclid_bits_def)
  moreover have "euclid_size 256 256 ?st < fuel" using assms(6) by (simp add: euclid_size_def)
  ultimately obtain st' where r: "euclid_loop fuel MOD ?st = Inr st'" "length (eu_R st') = 8" "val (eu_R st') < val MOD"
      "val MOD dvd val a * val (eu_R st') - gcd (val MOD) (val a)"
    using euclid_loop_terminates [OF assms(1) refl assms(2)] by blast
  then have "p256_modinv_vartime fuel MOD a = Inr (p256_mod MOD (eu_R st'))" by (simp add: p256_modinv_vartime_def)
  moreover have "val (p256_mod MOD (eu_R st')) = val (eu_R st')" "length (p256_mod MOD (eu_R st')) = 8"
    using p256_mod_val [OF assms(1) r(2)] r(3) by simp_all
  moreover have "val a * val (eu_R st') mod val MOD = gcd (val a) (val MOD) mod val MOD"
    using r(4) by (metis gcd.commute mod_eq_dvd_iff)
  ultimately show ?thesis using r(3) by simp
qed

theorem p256_modinv_vartime_correct_witness:
  "\<exists>b. p256_modinv_vartime 1026 SECP256r1_n [2, 0, 0, 0, 0, 0, 0, 0] = Inr b \<and> 2 * val b mod val SECP256r1_n = 1"
proof -
  have n: "length SECP256r1_n = 8" "odd (val SECP256r1_n)" "2 < val SECP256r1_n"
    by (simp_all add: SECP256r1_n_def unsigned_minus_1_eq_mask mask_eq_exp_minus_1)
  moreover have "gcd 2 (val SECP256r1_n) = 1" using n(2) by simp
  ultimately show ?thesis
    using p256_modinv_vartime_correct [of SECP256r1_n "[2, 0, 0, 0, 0, 0, 0, 0]" 1026] by auto
qed

lemma P256_ZERO_digits: "P256_ZERO = [0, 0, 0, 0, 0, 0, 0, 0]"
  by (simp add: P256_ZERO_def eval_nat_numeral)

text \<open>
  The inverse of zero: the loop of \<^verbatim>\<open>p256_modinv_vartime\<close> never ends, for every odd modulus.
\<close>

theorem p256_modinv_zero_diverges:
  assumes "length MOD = 8" "odd (val MOD)"
  shows "p256_modinv_vartime fuel MOD P256_ZERO = Inl Diverges"
proof -
  have "euclid_loop fuel MOD st = Inl Diverges" if "eu_U st = MOD" "eu_V st = P256_ZERO" for st
    using that
  proof (induction fuel arbitrary: st)
    case (Suc fuel)
    have "p256_is_even P256_ZERO" "p256_shr1 P256_ZERO 0 = P256_ZERO" "\<not> p256_is_even MOD"
      using assms by (simp_all add: p256_is_even_val) (simp_all add: P256_ZERO_digits p256_shr1_def p256_is_even_def upt_rec)
    then show ?case using Suc by (simp add: euclid_step_def Let_def)
  qed simp
  then show ?thesis by (simp add: p256_modinv_vartime_def)
qed

theorem p256_modinv_zero_diverges_witness: "p256_modinv_vartime 5000 SECP256r1_n P256_ZERO = Inl Diverges"
  by (rule p256_modinv_zero_diverges) (simp_all add: SECP256r1_n_def unsigned_minus_1_eq_mask mask_eq_exp_minus_1)

section \<open>Points of the curve\<close>

definition p_int :: int where
  "p_int = 2 ^ 256 - 2 ^ 224 + 2 ^ 192 + 2 ^ 96 - 1"

definition b_int :: int where
  "b_int = 0x5ac635d8aa3a93e7b3ebbd55769886bc651d06b0cc53b0f63bce3c3e27d2604b"

definition on_curve :: "int \<Rightarrow> int \<Rightarrow> bool" where
  "on_curve x y \<longleftrightarrow> y ^ 2 mod p_int = (x ^ 3 - 3 * x + b_int) mod p_int"

lemma SECP256r1_vals:
  "length SECP256r1_p = 8" "val SECP256r1_p = p_int" "full_top SECP256r1_p"
  "length SECP256r1_b = 8" "val SECP256r1_b = b_int"
  "full_top SECP256r1_n" "length SECP256r1_n = 8"
  by (simp_all add: SECP256r1_p_def SECP256r1_b_def SECP256r1_n_def p_int_def b_int_def full_top_def unsigned_minus_1_eq_mask mask_eq_exp_minus_1)

lemma p_int_bounds: "2 ^ 256 < 2 * p_int" "p_int < 2 ^ 256" "0 < b_int" "b_int < p_int"
  by (simp_all add: p_int_def b_int_def)

lemma sub_mod_mod:
  assumes "length S = 8" "length R = 8" "val S = s mod p_int" "val R < p_int"
  shows "length (sub_mod SECP256r1_p S R) = 8" "val (sub_mod SECP256r1_p S R) = (s - val R) mod p_int"
proof -
  have "val S < p_int" using assms(3) p_int_bounds by simp
  note v = sub_mod_val [of SECP256r1_p S R, unfolded SECP256r1_vals, OF refl assms(1,2) this assms(4)]
  show "length (sub_mod SECP256r1_p S R) = 8" by (rule v)
  have "val (sub_mod SECP256r1_p S R) = val (sub_mod SECP256r1_p S R) mod p_int"
    using v(3) val_nonneg [of "sub_mod SECP256r1_p S R"] by simp
  also have "\<dots> = (s mod p_int - val R) mod p_int" unfolding v(2) assms(3) by simp
  also have "\<dots> = (s - val R) mod p_int" by (simp add: mod_simps)
  finally show "val (sub_mod SECP256r1_p S R) = (s - val R) mod p_int" .
qed

lemma is_valid_point_val:
  assumes "length x = 8" "length y = 8"
  defines "t \<equiv> (val x ^ 3 - 3 * val x) mod p_int"
  shows "p256_is_valid_point x y = Inr (0 < val x \<and> val x < p_int \<and> 0 < val y \<and> val y < p_int \<and>
    val y ^ 2 mod p_int = (if t + b_int < 2 ^ 256 then t + b_int else t + b_int - p_int))"
proof (cases "0 < val x \<and> val x < p_int \<and> 0 < val y \<and> val y < p_int")
  case False
  then have "p256_cmp SECP256r1_p x \<le> 0 \<or> p256_cmp SECP256r1_p y \<le> 0 \<or> p256_is_zero x \<or> p256_is_zero y"
    using assms(1,2) val_nonneg [of x] val_nonneg [of y] by (auto simp: p256_cmp_val SECP256r1_vals p256_is_zero_val)
  then show ?thesis using False by (auto simp: p256_is_valid_point_def)
next
  case True
  then have c: "\<not> (p256_cmp SECP256r1_p x \<le> 0 \<or> p256_cmp SECP256r1_p y \<le> 0 \<or> p256_is_zero x \<or> p256_is_zero y)"
    using assms(1,2) by (auto simp: p256_cmp_val SECP256r1_vals p256_is_zero_val)
  obtain y2 where y2: "p256_modmul SECP256r1_p y 0 y = Inr y2" "length y2 = 8" "val y2 = val y ^ 2 mod p_int"
    using p256_modmul_val [OF SECP256r1_vals(3) assms(2,2), of 0] by (auto simp: SECP256r1_vals power2_eq_square)
  obtain x2 where x2: "p256_modmul SECP256r1_p x 0 x = Inr x2" "length x2 = 8" "val x2 = val x * val x mod p_int"
    using p256_modmul_val [OF SECP256r1_vals(3) assms(1,1), of 0] by (auto simp: SECP256r1_vals)
  obtain x3 where x3: "p256_modmul SECP256r1_p x 0 x2 = Inr x3" "length x3 = 8" "val x3 = val x ^ 3 mod p_int"
    using p256_modmul_val [OF SECP256r1_vals(3) assms(1) x2(2), of 0]
    by (auto simp: SECP256r1_vals x2(3) mod_simps power3_eq_cube mult.assoc)
  define s1 where "s1 = sub_mod SECP256r1_p x3 x"
  define s2 where "s2 = sub_mod SECP256r1_p s1 x"
  define s3 where "s3 = sub_mod SECP256r1_p s2 x"
  have x: "val x < p_int" using True by simp
  note v1 = sub_mod_mod [OF x3(2) assms(1) x3(3) x, folded s1_def]
  note v2 = sub_mod_mod [OF v1(1) assms(1) v1(2) x, folded s2_def]
  note v3 = sub_mod_mod [OF v2(1) assms(1) v2(2) x, folded s3_def]
  have t: "val s3 = t" using v3(2) by (simp add: t_def algebra_simps)
  have tb: "0 \<le> t" "t < p_int" using p_int_bounds by (simp_all add: t_def)
  define r where "r = (if fst (p256_add s3 SECP256r1_b) \<noteq> 0 then snd (p256_sub (snd (p256_add s3 SECP256r1_b)) SECP256r1_p)
    else snd (p256_add s3 SECP256r1_b))"
  note a = p256_add_val [OF v3(1) SECP256r1_vals(4), unfolded t SECP256r1_vals(5)]
  note b = p256_sub_val [OF a(2) SECP256r1_vals(1), unfolded SECP256r1_vals(2)]
  have r: "length r = 8" "val r = (if t + b_int < 2 ^ 256 then t + b_int else t + b_int - p_int)"
    using a b tb p_int_bounds by (auto simp: r_def)
  have "p256_is_valid_point x y = Inr (p256_cmp y2 r = 0)"
    using c by (simp add: p256_is_valid_point_def y2(1) x2(1) x3(1) Let_def s1_def [symmetric] s2_def [symmetric] s3_def [symmetric] r_def
        split: prod.splits)
  then show ?thesis using True p256_cmp_val [OF y2(2) r(1)] by (simp add: y2(3) r(2))
qed

text \<open>
  C32. \<^verbatim>\<open>p256_is_valid_point\<close> accepts exactly the points with coordinates strictly between zero and the field size
  that satisfy the curve equation, except those for which \<open>(x\<^sup>3 - 3x) mod p + b\<close> lies between \<open>p\<close> and \<open>2\<^sup>2\<^sup>5\<^sup>6\<close>: there
  the last addition does not overflow, so the sum is not reduced and is compared unreduced.
\<close>

theorem p256_is_valid_point_exact:
  assumes "length x = 8" "length y = 8"
  shows "p256_is_valid_point x y = Inr (0 < val x \<and> val x < p_int \<and> 0 < val y \<and> val y < p_int \<and> on_curve (val x) (val y)
    \<and> \<not> (p_int \<le> (val x ^ 3 - 3 * val x) mod p_int + b_int \<and> (val x ^ 3 - 3 * val x) mod p_int + b_int < 2 ^ 256))"
proof -
  define t where "t = (val x ^ 3 - 3 * val x) mod p_int"
  have t: "0 \<le> t" "t < p_int" using p_int_bounds by (simp_all add: t_def)
  have "(val x ^ 3 - 3 * val x + b_int) mod p_int = (t + b_int) mod p_int" by (simp add: t_def mod_simps)
  also have "\<dots> = (if p_int \<le> t + b_int then t + b_int - p_int else t + b_int)"
    using t p_int_bounds by (intro mod_once) auto
  finally have c: "on_curve (val x) (val y) \<longleftrightarrow> val y ^ 2 mod p_int = (if p_int \<le> t + b_int then t + b_int - p_int else t + b_int)"
    by (simp add: on_curve_def)
  have "val y ^ 2 mod p_int < p_int" using p_int_bounds by simp
  then show ?thesis
    unfolding is_valid_point_val [OF assms] t_def [symmetric] c using p_int_bounds(2) by auto
qed

text \<open>The generator of the curve is accepted.\<close>

theorem p256_is_valid_point_exact_witness:
  "p256_is_valid_point [0xd898c296, 0xf4a13945, 0x2deb33a0, 0x77037d81, 0x63a440f2, 0xf8bce6e5, 0xe12c4247, 0x6b17d1f2]
     [0x37bf51f5, 0xcbb64068, 0x6b315ece, 0x2bce3357, 0x7c0f9e16, 0x8ee7eb4a, 0xfe1a7f9b, 0x4fe342e2] = Inr True"
proof -
  define x :: p256_int where "x = [0xd898c296, 0xf4a13945, 0x2deb33a0, 0x77037d81, 0x63a440f2, 0xf8bce6e5, 0xe12c4247, 0x6b17d1f2]"
  define y :: p256_int where "y = [0x37bf51f5, 0xcbb64068, 0x6b315ece, 0x2bce3357, 0x7c0f9e16, 0x8ee7eb4a, 0xfe1a7f9b, 0x4fe342e2]"
  have v: "length x = 8" "length y = 8" "val x = 0x6b17d1f2e12c4247f8bce6e563a440f277037d812deb33a0f4a13945d898c296"
      "val y = 0x4fe342e2fe1a7f9b8ee7eb4a7c0f9e162bce33576b315ececbb6406837bf51f5"
    by (simp_all add: x_def y_def)
  have e: "val x ^ 3 - 3 * val x = 0xfb19277ea6b9e7c6ce28d3e420fae341e46d8972d7bf04ea830ef0bdf9f18d45 + 0x12bdd1ad23dfc833dccf5f6141d6bb4a1f365dc1430b0e600b52dd851938d2d6ac1f13af10c6cf49636cc473bf6b1231aa3140cad30ce8beb57a985cd88ffd6f * p_int"
    by (simp add: v p_int_def)
  have t: "(val x ^ 3 - 3 * val x) mod p_int = 0xfb19277ea6b9e7c6ce28d3e420fae341e46d8972d7bf04ea830ef0bdf9f18d45"
    unfolding e mod_mult_self1 by (rule mod_pos_pos_trivial) (simp_all add: p_int_def)
  have "val y ^ 2 = 0x55df5d5850f47bad82149139979369fe498a9022a412b5e0bedd2cfc21c3ed91 + 0x18ee0d07e1cadf1365bd80dd843314dd534834655163ed44a7f051b975f0f918 * p_int" by (simp add: v p_int_def)
  moreover have "val x ^ 3 - 3 * val x + b_int = 0x55df5d5850f47bad82149139979369fe498a9022a412b5e0bedd2cfc21c3ed91 + 0x12bdd1ad23dfc833dccf5f6141d6bb4a1f365dc1430b0e600b52dd851938d2d6ac1f13af10c6cf49636cc473bf6b1231aa3140cad30ce8beb57a985cd88ffd70 * p_int"
    unfolding e by (simp add: p_int_def b_int_def)
  ultimately have "on_curve (val x) (val y)" by (simp only: on_curve_def mod_mult_self1)
  then have "p256_is_valid_point x y = Inr True"
    unfolding p256_is_valid_point_exact [OF v(1,2)] t by (simp add: v p_int_def b_int_def)
  then show ?thesis by (simp only: x_def y_def)
qed

text \<open>
  A point of the curve that \<^verbatim>\<open>p256_is_valid_point\<close> rejects: its second coordinate is 5.
\<close>

theorem p256_valid_point_rejected:
  "\<exists>x y. length x = 8 \<and> length y = 8 \<and> 0 < val x \<and> val x < p_int \<and> 0 < val y \<and> val y < p_int \<and>
    on_curve (val x) (val y) \<and> p256_is_valid_point x y = Inr False"
proof -
  define x :: p256_int where "x = [0xde8de1d7, 0xb176f692, 0x841022ca, 0x4cffaf35, 0xeb345f84, 0xa92738c, 0x46cd60d8, 0xd7325d76]"
  define y :: p256_int where "y = [5, 0, 0, 0, 0, 0, 0, 0]"
  have v: "length x = 8" "length y = 8" "val x = 0xd7325d7646cd60d80a92738ceb345f844cffaf35841022cab176f692de8de1d7" "val y = 5"
    by (simp_all add: x_def y_def)
  have "val x ^ 3 - 3 * val x = 0xa539ca2655c56c194c1442aa896779439ae2f95033ac4f09c431c3c1d82d9fcd + 0x981072b3fe76cb9eeac1e923227d57ecc56d41614c1796fe8072b594832aa3b7ac6cb6ca13fc314e859323aa120211acbbfa0bdfbdb8994ab52d775ddf494c8b * p_int"
    by (simp add: v p_int_def)
  note e = this
  have t: "(val x ^ 3 - 3 * val x) mod p_int = 0xa539ca2655c56c194c1442aa896779439ae2f95033ac4f09c431c3c1d82d9fcd"
    unfolding e mod_mult_self1 by (rule mod_pos_pos_trivial) (simp_all add: p_int_def)
  have "(val x ^ 3 - 3 * val x + b_int) mod p_int = (25 + 1 * p_int) mod p_int"
    unfolding mod_add_left_eq [symmetric, of "val x ^ 3 - 3 * val x"] t by (rule arg_cong [where f = "\<lambda>n. n mod p_int"]) (simp add: p_int_def b_int_def)
  also have "\<dots> = 5 ^ 2 mod p_int" unfolding mod_mult_self1 by simp
  finally have "on_curve (val x) (val y)" by (simp only: on_curve_def v(4))
  moreover have "p256_is_valid_point x y = Inr False"
    unfolding is_valid_point_val [OF v(1,2)] v(4) t by (simp add: p_int_def b_int_def)
  moreover have "0 < val x" "val x < p_int" "0 < val y" "val y < p_int" by (simp_all add: v p_int_def)
  ultimately show ?thesis using v(1,2) by blast
qed

definition be_val :: "byte list \<Rightarrow> int" where
  "be_val bs = foldl (\<lambda>n b. 256 * n + uint b) 0 bs"

lemma int_or_add:
  fixes x y :: int
  assumes "0 \<le> y" "y < 2 ^ k"
  shows "(2 ^ k * x) OR y = 2 ^ k * x + y"
proof -
  have y: "y = take_bit k y" using assms by (simp add: take_bit_int_eq_self)
  have "push_bit k x AND take_bit k y = 0" by (intro bit_eqI) (auto simp: bit_simps)
  then have "push_bit k x OR take_bit k y = push_bit k x + take_bit k y" by (rule disjunctive_add_eq_or [symmetric])
  then show ?thesis using y by (simp add: push_bit_eq_mult mult.commute)
qed

lemma uint_byte_shift: "k \<le> 24 \<Longrightarrow> uint (push_bit k (ucast (b :: byte) :: u32)) = 2 ^ k * uint b"
proof -
  assume "k \<le> 24"
  then have "uint (push_bit k (ucast b :: u32)) = push_bit k (uint b)"
    by (intro bit_eqI) (auto simp: bit_simps bit_uint_iff dest: bit_imp_le_length)
  then show ?thesis by (simp add: push_bit_eq_mult mult.commute)
qed

lemma uint_u32_of_be:
  "uint (u32_of_be (a # b # c # d # r)) = 2 ^ 24 * uint a + 2 ^ 16 * uint b + 2 ^ 8 * uint c + uint d"
proof -
  have l: "uint z < 256" for z :: byte using uint_lt2p [of z] by simp
  have "uint (u32_of_be (a # b # c # d # r)) = (2 ^ 24 * uint a) OR ((2 ^ 16 * uint b) OR ((2 ^ 8 * uint c) OR uint d))"
    using uint_byte_shift [of 24 a] uint_byte_shift [of 16 b] uint_byte_shift [of 8 c] uint_byte_shift [of 0 d]
    by (simp add: u32_of_be_def uint_or or.assoc)
  also have "(2 ^ 8 * uint c) OR uint d = 2 ^ 8 * uint c + uint d" using l [of d] by (intro int_or_add) simp_all
  also have "(2 ^ 16 * uint b) OR (2 ^ 8 * uint c + uint d) = 2 ^ 16 * uint b + (2 ^ 8 * uint c + uint d)"
    using l [of c] l [of d] by (intro int_or_add) simp_all
  also have "(2 ^ 24 * uint a) OR (2 ^ 16 * uint b + (2 ^ 8 * uint c + uint d)) = 2 ^ 24 * uint a + (2 ^ 16 * uint b + (2 ^ 8 * uint c + uint d))"
    using l [of b] l [of c] l [of d] by (intro int_or_add) simp_all
  finally show ?thesis by simp
qed

lemma be_val_fold: "foldl (\<lambda>n b. 256 * n + uint b) z bs = 256 ^ length bs * z + be_val (bs :: byte list)"
proof (induction bs arbitrary: z)
  case (Cons b bs)
  show ?case using Cons [of "256 * z + uint b"] Cons [of "uint b"] by (simp add: be_val_def algebra_simps)
qed (simp add: be_val_def)

lemma be_val_append: "be_val (xs @ ys) = 256 ^ length ys * be_val xs + be_val ys"
  using be_val_fold [of "be_val xs" ys] by (simp add: be_val_def)

lemma be_val_nonneg: "0 \<le> be_val bs"
  by (induction bs rule: rev_induct) (simp_all add: be_val_def)

lemma be_val_less: "be_val bs < 256 ^ length bs"
proof (induction bs rule: rev_induct)
  case (snoc b bs)
  have "uint b < 256" using uint_lt2p [of b] by simp
  then show ?case using snoc by (simp add: be_val_append be_val_def [of "[b]"])
qed (simp add: be_val_def)

lemma be_val_zeros [simp]: "be_val (replicate n 0) = 0"
  by (induction n) (simp_all add: be_val_def)

lemma be_words_val:
  "length src = 4 * n \<Longrightarrow> val (map (\<lambda>i. u32_of_be (drop (4 * (n - 1 - i)) src)) [0..<n]) = be_val src"
proof (induction n arbitrary: src)
  case (Suc n)
  then obtain a b c d rest where s: "src = [a, b, c, d] @ rest" "length rest = 4 * n"
    by (auto simp: numeral_eq_Suc length_Suc_conv)
  have "map (\<lambda>i. u32_of_be (drop (4 * (Suc n - 1 - i)) src)) [0..<n] = map (\<lambda>i. u32_of_be (drop (4 * (n - 1 - i)) rest)) [0..<n]"
  proof (intro map_cong refl)
    fix i assume "i \<in> set [0..<n]"
    then have "4 * (Suc n - 1 - i) = 4 + 4 * (n - 1 - i)" by simp
    then show "u32_of_be (drop (4 * (Suc n - 1 - i)) src) = u32_of_be (drop (4 * (n - 1 - i)) rest)"
      by (simp add: s(1) del: append_Cons)
  qed
  then have m: "map (\<lambda>i. u32_of_be (drop (4 * (Suc n - 1 - i)) src)) [0..<Suc n] =
      map (\<lambda>i. u32_of_be (drop (4 * (n - 1 - i)) rest)) [0..<n] @ [u32_of_be src]" by simp
  have "uint (u32_of_be src) = be_val [a, b, c, d]" by (simp add: s(1) uint_u32_of_be be_val_def)
  moreover have "(256 :: int) ^ (4 * n) = 2 ^ (32 * n)" by (simp add: power_mult)
  ultimately show ?case unfolding m
    using Suc.IH [OF s(2)] by (simp add: val_append be_val_append s del: append_Cons)
qed (simp add: be_val_def)

lemma p256_from_bin_val:
  assumes "length src = 32"
  shows "val (p256_from_bin src) = be_val src"
  using be_words_val [of src 8] assms by (simp add: p256_from_bin_def)

lemma add_d_loop_val:
  "uint carry < 2 ^ 32 \<Longrightarrow> case add_d_loop carry a of (c', out) \<Rightarrow> length c' = length a \<and> uint out < 2 ^ 32 \<and>
    val c' + 2 ^ (32 * length a) * uint out = val a + uint carry"
proof (induction a arbitrary: carry)
  case (Cons x a)
  define w where "w = carry + (ucast x :: u64)"
  have w: "uint w = uint carry + uint x"
    using Cons.prems uint_less_u32 [of x] by (simp add: w_def uint_word_ariths)
  have "uint (drop_bit 32 w) < 2 ^ 32" unfolding carry_high using uint_lt2p [of w] by simp
  from Cons.IH [OF this] obtain c' out where l: "add_d_loop (drop_bit 32 w) a = (c', out)"
    and h: "length c' = length a" "uint out < 2 ^ 32"
      "val c' + 2 ^ (32 * length a) * uint out = val a + uint (drop_bit 32 w)"
    by (auto split: prod.splits)
  have "add_d_loop carry (x # a) = (ucast w # c', out)" by (simp add: w_def [symmetric] l)
  moreover have "val (ucast w # c') + 2 ^ (32 * Suc (length a)) * uint out = uint w + 2 ^ 32 * val a"
    unfolding val.simps digit_step [OF h(3)] carry_split [of w, symmetric] ..
  ultimately show ?case using h(1,2) w by (simp add: algebra_simps del: mult_Suc_right)
qed simp

lemma p256_add_d_val:
  assumes "length a = 8"
  shows "length (snd (p256_add_d a d)) = 8" "val (snd (p256_add_d a d)) + 2 ^ 256 * uint (fst (p256_add_d a d)) = val a + uint d"
proof -
  obtain c out where l: "add_d_loop (ucast d) a = (c, out)" by fastforce
  then have "length c = 8 \<and> uint out < 2 ^ 32 \<and> val c + 2 ^ 256 * uint out = val a + uint d"
    using add_d_loop_val [of "ucast d" a] uint_less_u32 [of d] assms by simp
  then show "length (snd (p256_add_d a d)) = 8" "val (snd (p256_add_d a d)) + 2 ^ 256 * uint (fst (p256_add_d a d)) = val a + uint d"
    using uint_ucast_small [of out] by (simp_all add: p256_add_d_def l)
qed

lemma bit_val: "n < 32 * length a \<Longrightarrow> bit (val a) n \<longleftrightarrow> bit (a ! (n div 32)) (n mod 32)"
proof (induction a arbitrary: n)
  case (Cons d ds)
  have "val (d # ds) = push_bit 32 (val ds) OR uint d"
    using int_or_add [of "uint d" 32 "val ds"] uint_less_u32 [of d] by (simp add: push_bit_eq_mult mult.commute)
  then have b: "bit (val (d # ds)) n \<longleftrightarrow> (if n < 32 then bit d n else bit (val ds) (n - 32))"
    by (auto simp: bit_simps bit_uint_iff dest: bit_imp_le_length)
  show ?case
  proof (cases "n < 32")
    case False
    then have n: "n = 32 + (n - 32)" by simp
    have "bit (val ds) (n - 32) \<longleftrightarrow> bit (ds ! ((n - 32) div 32)) ((n - 32) mod 32)"
      using Cons.IH [of "n - 32"] Cons.prems False by simp
    moreover have "n div 32 = Suc ((n - 32) div 32)" "n mod 32 = (n - 32) mod 32"
      using False by (simp_all add: le_div_geq le_mod_geq)
    ultimately show ?thesis using b False by simp
  qed (simp add: b del: val.simps)
qed simp

lemma p256_get_bit_val:
  assumes "length a = 8" "n < 256"
  shows "p256_get_bit a n = (if bit (val a) n then 1 else 0)"
  using bit_val [of n a] assms by (simp add: p256_get_bit_def and_one_eq bit_iff_odd_drop_bit mod_2_eq_odd)

end
