(* ===== verification/Rsa.thy ===== *)
theory Rsa
  imports Sha P256_Arith
begin

text \<open>
  RSA signature verification, \<^verbatim>\<open>libmincrypt/rsa.c\<close>: Montgomery multiplication of 32-bit digit sequences, the
  public exponentiation for the exponents 3 and 65537, and the check of the padded digest.
\<close>

section \<open>Model\<close>

record rsa_key =
  rk_len :: int
  rk_n0inv :: u32
  rk_n :: "u32 list"
  rk_rr :: "u32 list"
  rk_exponent :: int

abbreviation key_words :: "rsa_key \<Rightarrow> nat" where
  "key_words key \<equiv> nat (rk_len key)"

definition rsa_subM :: "rsa_key \<Rightarrow> u32 list \<Rightarrow> u32 list" where
  "rsa_subM key a = fst (sub_loop 0 a (take (key_words key) (rk_n key)))"

text \<open>The digits are compared from the most significant one down; \<open>i\<close> digits are left.\<close>

fun geM_loop :: "u32 list \<Rightarrow> u32 list \<Rightarrow> nat \<Rightarrow> bool" where
  "geM_loop n a 0 = True"
| "geM_loop n a (Suc i) = (if a ! i < n ! i then False else if a ! i > n ! i then True else geM_loop n a i)"

definition geM :: "rsa_key \<Rightarrow> u32 list \<Rightarrow> bool" where
  "geM key a = geM_loop (rk_n key) a (key_words key)"

text \<open>The loop of \<^verbatim>\<open>montMulAdd\<close> over the digits after the first: \<open>c[i - 1]\<close> receives the low half of \<open>B\<close>.\<close>

fun mont_loop :: "u32 \<Rightarrow> u32 \<Rightarrow> u64 \<Rightarrow> u64 \<Rightarrow> u32 list \<Rightarrow> u32 list \<Rightarrow> u32 list \<Rightarrow> u32 list \<times> u64 \<times> u64" where
  "mont_loop a d0 A B (b # bs) (c # cs) (n # ns) =
    (let A = drop_bit 32 A + ucast a * ucast b + ucast c;
         B = drop_bit 32 B + ucast d0 * ucast n + ucast (ucast A :: u32)
     in case mont_loop a d0 A B bs cs ns of (out, A', B') \<Rightarrow> (ucast B # out, A', B'))"
| "mont_loop a d0 A B bs cs ns = ([], A, B)"

definition montMulAdd :: "rsa_key \<Rightarrow> u32 list \<Rightarrow> u32 \<Rightarrow> u32 list \<Rightarrow> u32 list" where
  "montMulAdd key c a b =
    (let n = take (key_words key) (rk_n key);
         A = ucast a * ucast (b ! 0) + ucast (c ! 0) :: u64;
         d0 = ucast A * rk_n0inv key;
         B = ucast d0 * ucast (n ! 0) + ucast (ucast A :: u32) :: u64
     in case mont_loop a d0 A B (tl b) (tl c) (tl n) of (out, A, B) \<Rightarrow>
       (let A = drop_bit 32 A + drop_bit 32 B;
            c = out @ [ucast A]
        in if drop_bit 32 A \<noteq> 0 then rsa_subM key c else c))"

definition montMul :: "rsa_key \<Rightarrow> u32 list \<Rightarrow> u32 list \<Rightarrow> u32 list" where
  "montMul key a b = foldl (\<lambda>c i. montMulAdd key c (a ! i) b) (replicate (key_words key) 0) [0..<key_words key]"

definition modpow :: "rsa_key \<Rightarrow> byte list \<Rightarrow> byte list res" where
  "modpow key inout =
    (let len = key_words key;
         rr = take len (rk_rr key);
         a = map (\<lambda>i. u32_of_be (drop ((len - 1 - i) * 4) inout)) [0..<len];
         aaa = (if rk_exponent key = 65537 then
                  (let aR = montMul key a rr;
                       aR = foldl (\<lambda>aR i. let aaR = montMul key aR aR in montMul key aaR aaR) aR [0..<8]
                   in Some (montMul key aR a))
                else if rk_exponent key = 3 then
                  (let aR = montMul key a rr; aaR = montMul key aR aR in Some (montMul key aaR a))
                else None)
     in case aaa of None \<Rightarrow> Inl NullDeref
        | Some aaa \<Rightarrow> (let aaa = (if geM key aaa then rsa_subM key aaa else aaa)
                     in Inr (concat (map (\<lambda>i. u32_be (aaa ! (len - 1 - i))) [0..<len]))))"

definition kExpectedPadShaRsa2048 :: "byte list" where
  "kExpectedPadShaRsa2048 = [0xdc, 0xbd, 0xbe, 0x42, 0xd5, 0xf5, 0xa7, 0x2e,
    0x6e, 0xfc, 0xf5, 0x5d, 0xaf, 0x9d, 0xea, 0x68, 0x7c, 0xfb, 0xf1, 0x67]"

definition kExpectedPadSha256Rsa2048 :: "byte list" where
  "kExpectedPadSha256Rsa2048 = [0xab, 0x28, 0x8d, 0x8a, 0xd7, 0xd9, 0x59, 0x92,
    0xba, 0xcc, 0xf8, 0x67, 0x20, 0xe1, 0x15, 0x2e, 0x39, 0x8d, 0x80, 0x36, 0xd6, 0x6f, 0xf0, 0xfd,
    0x90, 0xe8, 0x7d, 0x8b, 0xe1, 0x7c, 0x87, 0x59]"

text \<open>\<open>ctx\<close> is the context that the hash function finds on the stack.\<close>

definition RSA_verify :: "hash_ctx \<Rightarrow> rsa_key \<Rightarrow> byte list \<Rightarrow> int \<Rightarrow> byte list \<Rightarrow> int \<Rightarrow> int res" where
  "RSA_verify ctx key signature len hash hash_len =
    (if rk_len key \<noteq> 64 then Inr 0
     else if len \<noteq> 256 then Inr 0
     else if hash_len \<noteq> 20 \<and> hash_len \<noteq> 32 then Inr 0
     else if rk_exponent key \<noteq> 3 \<and> rk_exponent key \<noteq> 65537 then Inr 0
     else bindR (modpow key (take (nat len) signature)) (\<lambda>buf.
       let buf = take (nat (len - hash_len)) buf @ map2 (XOR) (drop (nat (len - hash_len)) buf) (take (nat hash_len) hash);
           (padding_hash, digest) = (if hash_len = 20 then (kExpectedPadShaRsa2048, SHA_hash ctx buf)
                                     else (kExpectedPadSha256Rsa2048, SHA256_hash ctx buf));
           buf = digest @ drop (length digest) buf
       in if \<exists>i < nat hash_len. buf ! i \<noteq> padding_hash ! i then Inr 0 else Inr 1))"

section \<open>Montgomery multiplication\<close>

definition mont_key :: "rsa_key \<Rightarrow> bool" where
  "mont_key key \<longleftrightarrow> 0 < rk_len key \<and> length (rk_n key) = key_words key \<and> odd (val (rk_n key)) \<and>
     rk_n0inv key * rk_n key ! 0 = -1"

lemma mont_carry:
  assumes "uint h < 2 ^ 32"
  shows "uint (h + ucast a * ucast b + ucast c :: u64) = uint h + uint (a :: u32) * uint (b :: u32) + uint (c :: u32)"
proof -
  have e: "h + ucast a * ucast b + ucast c = h + ucast c + ucast a * (ucast b :: u64)" by (simp add: ac_simps)
  show ?thesis unfolding e mulAdd_carry [OF assms, of c a b] by simp
qed

lemma high_small: "uint (drop_bit 32 (w :: u64)) < 2 ^ 32"
  unfolding carry_high using uint_lt2p [of w] by simp

lemma mont_loop_val:
  assumes "length bs = length cs" "length cs = length ns"
  shows "case mont_loop a d0 A B bs cs ns of (out, A', B') \<Rightarrow> length out = length cs \<and>
    val out + 2 ^ (32 * length cs) * (uint (drop_bit 32 A') + uint (drop_bit 32 B')) =
    val cs + uint a * val bs + uint d0 * val ns + (uint (drop_bit 32 A) + uint (drop_bit 32 B))"
  using assms
proof (induction bs cs ns arbitrary: A B rule: list_induct3)
  case (Cons b bs c cs n ns)
  define A1 where "A1 = drop_bit 32 A + ucast a * ucast b + ucast c"
  define B1 where "B1 = drop_bit 32 B + ucast d0 * ucast n + ucast (ucast A1 :: u32)"
  have A1: "uint A1 = uint (drop_bit 32 A) + uint a * uint b + uint c"
    unfolding A1_def by (rule mont_carry [OF high_small])
  have B1: "uint B1 = uint (drop_bit 32 B) + uint d0 * uint n + uint (ucast A1 :: u32)"
    unfolding B1_def by (rule mont_carry [OF high_small])
  obtain out A' B' where l: "mont_loop a d0 A1 B1 bs cs ns = (out, A', B')" by (metis prod_cases3)
  then have h: "length out = length cs" "val out + 2 ^ (32 * length cs) * (uint (drop_bit 32 A') + uint (drop_bit 32 B')) =
      (val cs + uint a * val bs + uint d0 * val ns) + (uint (drop_bit 32 A1) + uint (drop_bit 32 B1))"
    using Cons.IH [of A1 B1] by simp_all
  have m: "mont_loop a d0 A B (b # bs) (c # cs) (n # ns) = (ucast B1 # out, A', B')"
    unfolding mont_loop.simps Let_def A1_def [symmetric] B1_def [symmetric] l by simp
  have "val (ucast B1 # out) + 2 ^ (32 * Suc (length cs)) * (uint (drop_bit 32 A') + uint (drop_bit 32 B')) =
      (uint (ucast B1 :: u32) + 2 ^ 32 * (uint (drop_bit 32 A1) + uint (drop_bit 32 B1))) +
      2 ^ 32 * (val cs + uint a * val bs + uint d0 * val ns)"
    unfolding val.simps by (rule digit_step [OF h(2)])
  moreover have "uint (ucast B1 :: u32) + 2 ^ 32 * (uint (drop_bit 32 A1) + uint (drop_bit 32 B1)) =
      uint (drop_bit 32 B) + uint d0 * uint n + (uint (drop_bit 32 A) + uint a * uint b + uint c)"
    using carry_split [of A1] carry_split [of B1] A1 B1 by simp
  ultimately show ?case unfolding m using h(1) by (simp add: algebra_simps del: mult_Suc_right)
qed simp

lemma mont_key_digits:
  assumes "mont_key key"
  obtains n0 ns where "rk_n key = n0 # ns" "rk_n0inv key * n0 = -1" "length ns = key_words key - 1" "0 < key_words key"
  using assms by (cases "rk_n key") (auto simp: mont_key_def)

lemma ucast_eq_word_sum:
  assumes "uint (B :: u64) = uint (d :: u32) * uint n + uint x"
  shows "(ucast B :: u32) = d * n + x"
proof (rule word_uint_eqI)
  have "uint (ucast B :: u32) = uint B mod 2 ^ 32" by (simp add: unsigned_ucast_eq take_bit_eq_mod)
  then show "uint (ucast B :: u32) = uint (d * n + x)" by (simp add: assms uint_word_ariths mod_simps)
qed

text \<open>The exact quotient that one round computes before the final reduction.\<close>

lemma mont_round:
  assumes "mont_key key" "length b = key_words key" "length c = key_words key"
  obtains out d0 and A :: u64 where
    "montMulAdd key c a b = (let c' = out @ [ucast A] in if drop_bit 32 A \<noteq> 0 then rsa_subM key c' else c')"
    "length out = key_words key - 1"
    "2 ^ 32 * (val out + 2 ^ (32 * (key_words key - 1)) * uint A) = val c + uint a * val b + uint (d0 :: u32) * val (rk_n key)"
proof -
  obtain n0 ns where n: "rk_n key = n0 # ns" "rk_n0inv key * n0 = -1" "length ns = key_words key - 1" "0 < key_words key"
    using mont_key_digits [OF assms(1)] by blast
  obtain b0 bs where b: "b = b0 # bs" "length bs = length ns" using assms(2) n(3,4) by (cases b) auto
  obtain c0 cs where c: "c = c0 # cs" "length cs = length ns" using assms(3) n(3,4) by (cases c) auto
  define A0 where "A0 = ucast a * ucast b0 + (ucast c0 :: u64)"
  define d0 where "d0 = ucast A0 * rk_n0inv key"
  define B0 where "B0 = ucast d0 * ucast n0 + (ucast (ucast A0 :: u32) :: u64)"
  have A0: "uint A0 = uint a * uint b0 + uint c0" using mont_carry [of 0 a b0 c0] by (simp add: A0_def)
  have B0: "uint B0 = uint d0 * uint n0 + uint (ucast A0 :: u32)" using mont_carry [of 0 d0 n0 "ucast A0"] by (simp add: B0_def)
  have low: "(ucast B0 :: u32) = 0" unfolding ucast_eq_word_sum [OF B0]
    using n(2) by (simp add: d0_def mult.assoc)
  obtain out A' B' where l: "mont_loop a d0 A0 B0 bs cs ns = (out, A', B')" by (metis prod_cases3)
  then have h: "length out = length ns" "val out + 2 ^ (32 * length ns) * (uint (drop_bit 32 A') + uint (drop_bit 32 B')) =
      val cs + uint a * val bs + uint d0 * val ns + (uint (drop_bit 32 A0) + uint (drop_bit 32 B0))"
    using mont_loop_val [of bs cs ns a d0 A0 B0] b(2) c(2) by simp_all
  define A where "A = drop_bit 32 A' + drop_bit 32 B'"
  have A: "uint A = uint (drop_bit 32 A') + uint (drop_bit 32 B')" unfolding A_def
    using high_small [of A'] high_small [of B'] by (intro uint_add_u64) simp
  have m1: "montMulAdd key c a b = (let c' = out @ [ucast A] in if drop_bit 32 A \<noteq> 0 then rsa_subM key c' else c')"
    unfolding montMulAdd_def Let_def n(1) b(1) c(1) using n(3,4)
    by (simp add: take_Cons' A0_def [symmetric] d0_def [symmetric] B0_def [symmetric] l A_def)
  have m2: "2 ^ 32 * (val out + 2 ^ (32 * (key_words key - 1)) * uint A) = val c + uint a * val b + uint d0 * val (rk_n key)"
    unfolding A n(3) [symmetric] h(2) using carry_split [of A0] carry_split [of B0] low A0 B0
    by (simp add: n(1) b(1) c(1) algebra_simps)
  show ?thesis by (rule that [OF m1 _ m2]) (simp add: h(1) n(3))
qed

lemma sub_loop_wraps:
  assumes "length c = length a" "val c < val a" "val a \<le> 2 ^ (32 * length c) + val c"
  shows "val (fst (sub_loop 0 c a)) = val c - val a + 2 ^ (32 * length c)" "length (fst (sub_loop 0 c a)) = length c"
proof -
  obtain c' out where l: "sub_loop 0 c a = (c', out)" by fastforce
  then have h: "length c' = length c" "-1 \<le> out" "out \<le> 0" "val c' + 2 ^ (32 * length c) * out = val c - val a"
    using sub_loop_val [OF assms(1), of 0] by simp_all
  have "out \<noteq> 0" using h(4) assms(2) val_nonneg [of c'] by auto
  then have "out = -1" using h(2,3) by linarith
  then show "val (fst (sub_loop 0 c a)) = val c - val a + 2 ^ (32 * length c)" "length (fst (sub_loop 0 c a)) = length c"
    using h by (simp_all add: l)
qed

lemma montMulAdd_val:
  assumes "mont_key key" "length b = key_words key" "length c = key_words key"
  shows "length (montMulAdd key c a b) = key_words key"
    "2 ^ 32 * val (montMulAdd key c a b) mod val (rk_n key) = (val c + uint a * val b) mod val (rk_n key)"
proof -
  let ?L = "key_words key" and ?N = "val (rk_n key)"
  define R :: int where "R = 2 ^ (32 * ?L)"
  obtain out and A :: u64 and d0 :: u32 where r: "montMulAdd key c a b = (let c' = out @ [ucast A] in if drop_bit 32 A \<noteq> 0 then rsa_subM key c' else c')"
    "length out = ?L - 1" "2 ^ 32 * (val out + 2 ^ (32 * (?L - 1)) * uint A) = val c + uint a * val b + uint d0 * ?N"
    using mont_round [OF assms] by metis
  have L: "0 < ?L" "length (rk_n key) = ?L" using assms(1) by (auto simp: mont_key_def)
  define X where "X = val out + 2 ^ (32 * (?L - 1)) * uint A"
  have bounds: "val c < R" "val b < R" "0 \<le> val b" "?N < R" "0 \<le> ?N"
    using val_less [of c] val_less [of b] val_less [of "rk_n key"] assms(2,3) L(2) by (simp_all add: R_def val_nonneg)
  have "uint a * val b \<le> (2 ^ 32 - 1) * val b" "uint d0 * ?N \<le> (2 ^ 32 - 1) * ?N"
    using uint_less_u32 [of a] uint_less_u32 [of d0] bounds by (intro mult_right_mono; simp)+
  then have "2 ^ 32 * X < 2 ^ 32 * (R + ?N)" unfolding X_def r(3) using bounds by simp
  then have X: "X < R + ?N" by simp
  have p: "R = 2 ^ 32 * 2 ^ (32 * (?L - 1))" using L(1) unfolding R_def power_add [symmetric] by (cases ?L) simp_all
  define c' where "c' = out @ [ucast A]"
  have c': "length c' = ?L" "val c' = X - R * uint (drop_bit 32 A)"
    using r(2) L(1) carry_split [of A] by (simp_all add: c'_def val_append X_def p algebra_simps)
  have "length (montMulAdd key c a b) = ?L \<and> (\<exists>k. val (montMulAdd key c a b) = X - k * ?N)"
  proof (cases "drop_bit 32 A = 0")
    case True
    then show ?thesis using c' r(1) by (auto simp: c'_def [symmetric] Let_def intro: exI [of _ 0])
  next
    case False
    then have "uint (drop_bit 32 A) \<noteq> 0" by (metis uint_0_iff)
    then have "1 \<le> uint (drop_bit 32 A)" using uint_ge_0 [of "drop_bit 32 A"] by linarith
    moreover have "R * uint (drop_bit 32 A) < R * 2"
      using c'(2) X bounds(4) val_nonneg [of c'] by linarith
    ultimately have one: "uint (drop_bit 32 A) = 1" using bounds by (simp add: mult_less_cancel_left)
    have s: "montMulAdd key c a b = fst (sub_loop 0 c' (rk_n key))"
      using False r(1) L(2) by (simp add: c'_def [symmetric] Let_def rsa_subM_def)
    have "val (montMulAdd key c a b) = val c' - ?N + R" "length (montMulAdd key c a b) = ?L"
      unfolding s using sub_loop_wraps [of c' "rk_n key"] c' one X bounds L(2) val_nonneg [of c'] by (simp_all add: R_def)
    then show ?thesis using c'(2) one by (auto intro: exI [of _ 1])
  qed
  then obtain k where k: "length (montMulAdd key c a b) = ?L" "val (montMulAdd key c a b) = X - k * ?N" by blast
  then show "length (montMulAdd key c a b) = ?L" by simp
  have "2 ^ 32 * val (montMulAdd key c a b) = val c + uint a * val b - (2 ^ 32 * k - uint d0) * ?N"
    using r(3) unfolding k(2) X_def by (simp add: algebra_simps)
  then show "2 ^ 32 * val (montMulAdd key c a b) mod ?N = (val c + uint a * val b) mod ?N"
    by (simp only: mod_diff_mult)
qed

abbreviation radix :: "rsa_key \<Rightarrow> int" where
  "radix key \<equiv> 2 ^ (32 * key_words key)"

lemma montMul_val:
  assumes "mont_key key" "length a = key_words key" "length b = key_words key"
  shows "length (montMul key a b) = key_words key"
    "radix key * val (montMul key a b) mod val (rk_n key) = val a * val b mod val (rk_n key)"
proof -
  let ?N = "val (rk_n key)" and ?z = "replicate (key_words key) 0 :: u32 list"
  have "length (foldl (\<lambda>c i. montMulAdd key c (a ! i) b) ?z [0..<k]) = key_words key \<and>
      2 ^ (32 * k) * val (foldl (\<lambda>c i. montMulAdd key c (a ! i) b) ?z [0..<k]) mod ?N = val (take k a) * val b mod ?N"
    if "k \<le> key_words key" for k
    using that
  proof (induction k)
    case (Suc k)
    define c where "c = foldl (\<lambda>c i. montMulAdd key c (a ! i) b) ?z [0..<k]"
    have c: "length c = key_words key" "2 ^ (32 * k) * val c mod ?N = val (take k a) * val b mod ?N"
      using Suc by (simp_all add: c_def)
    define c' where "c' = montMulAdd key c (a ! k) b"
    have c': "length c' = key_words key" "2 ^ 32 * val c' mod ?N = (val c + uint (a ! k) * val b) mod ?N"
      using montMulAdd_val [OF assms(1,3) c(1)] by (simp_all add: c'_def)
    have "2 ^ (32 * Suc k) * val c' mod ?N = 2 ^ (32 * k) * (2 ^ 32 * val c' mod ?N) mod ?N"
      by (simp add: mod_mult_right_eq power_add algebra_simps)
    also have "\<dots> = (2 ^ (32 * k) * val c mod ?N + 2 ^ (32 * k) * (uint (a ! k) * val b)) mod ?N"
      unfolding c'(2) by (simp add: mod_mult_right_eq mod_add_left_eq distrib_left)
    also have "\<dots> = (val (take k a) * val b + 2 ^ (32 * k) * (uint (a ! k) * val b)) mod ?N"
      unfolding c(2) by (simp add: mod_add_left_eq)
    also have "val (take k a) * val b + 2 ^ (32 * k) * (uint (a ! k) * val b) = val (take (Suc k) a) * val b"
      using val_take_Suc [of k a] Suc.prems assms(2) by (simp add: algebra_simps)
    finally show ?case using c'(1) by (simp add: c_def c'_def)
  qed simp
  from this [of "key_words key"] show "length (montMul key a b) = key_words key"
    "radix key * val (montMul key a b) mod ?N = val a * val b mod ?N"
    using assms(2) by (simp_all add: montMul_def)
qed

lemma radix_cancel:
  assumes "odd (n :: int)" "2 ^ k * x mod n = 2 ^ k * y mod n"
  shows "x mod n = y mod n"
proof -
  have "n dvd 2 ^ k * (x - y)" using assms(2) by (simp add: mod_eq_dvd_iff right_diff_distrib)
  moreover have "coprime n (2 ^ k)" using assms(1) by simp
  ultimately have "n dvd x - y" using coprime_dvd_mult_right_iff by blast
  then show ?thesis by (simp add: mod_eq_dvd_iff)
qed

text \<open>The Montgomery form of a number, its products, and the way back.\<close>

definition mont_form :: "rsa_key \<Rightarrow> int \<Rightarrow> u32 list \<Rightarrow> bool" where
  "mont_form key p u \<longleftrightarrow> length u = key_words key \<and> val u mod val (rk_n key) = radix key * p mod val (rk_n key)"

lemma mont_form_enter:
  assumes "mont_key key" "length a = key_words key" "length rr = key_words key"
    "val rr mod val (rk_n key) = radix key ^ 2 mod val (rk_n key)"
  shows "mont_form key (val a) (montMul key a rr)"
proof -
  let ?N = "val (rk_n key)" and ?R = "radix key"
  have "?R * val (montMul key a rr) mod ?N = val a * (val rr mod ?N) mod ?N"
    using montMul_val [OF assms(1-3)] by (simp add: mod_mult_right_eq)
  also have "\<dots> = ?R * (?R * val a) mod ?N"
    unfolding assms(4) by (simp add: mod_mult_right_eq power2_eq_square algebra_simps)
  finally have "val (montMul key a rr) mod ?N = ?R * val a mod ?N"
    by (rule radix_cancel [rotated]) (use assms(1) in \<open>simp add: mont_key_def\<close>)
  then show ?thesis using montMul_val(1) [OF assms(1-3)] by (simp add: mont_form_def)
qed

lemma mont_form_leave:
  assumes "mont_key key" "mont_form key p u" "length a = key_words key"
  shows "length (montMul key u a) = key_words key" "val (montMul key u a) mod val (rk_n key) = p * val a mod val (rk_n key)"
proof -
  let ?N = "val (rk_n key)" and ?R = "radix key"
  have u: "length u = key_words key" "val u mod ?N = ?R * p mod ?N" using assms(2) by (simp_all add: mont_form_def)
  have "?R * val (montMul key u a) mod ?N = (val u mod ?N) * val a mod ?N"
    using montMul_val(2) [OF assms(1) u(1) assms(3)] by (simp add: mod_mult_left_eq)
  also have "\<dots> = ?R * (p * val a) mod ?N" unfolding u(2) by (simp add: mod_mult_left_eq mult.assoc)
  finally show "val (montMul key u a) mod ?N = p * val a mod ?N"
    by (rule radix_cancel [rotated]) (use assms(1) in \<open>simp add: mont_key_def\<close>)
  show "length (montMul key u a) = key_words key" by (rule montMul_val(1) [OF assms(1) u(1) assms(3)])
qed

lemma mont_form_mult:
  assumes "mont_key key" "mont_form key p u" "mont_form key q v"
  shows "mont_form key (p * q) (montMul key u v)"
proof -
  let ?N = "val (rk_n key)" and ?R = "radix key"
  have v: "length v = key_words key" "val v mod ?N = ?R * q mod ?N" using assms(3) by (simp_all add: mont_form_def)
  note l = mont_form_leave [OF assms(1,2) v(1)]
  have "val (montMul key u v) mod ?N = p * (val v mod ?N) mod ?N" using l(2) by (simp add: mod_mult_right_eq)
  also have "\<dots> = ?R * (p * q) mod ?N" unfolding v(2) by (simp add: mod_mult_right_eq algebra_simps)
  finally show ?thesis using l(1) by (simp add: mont_form_def)
qed

lemma mont_form_fourth:
  assumes "mont_key key" "mont_form key p u"
  shows "mont_form key (p ^ 4 ^ k) (foldl (\<lambda>aR i. let aaR = montMul key aR aR in montMul key aaR aaR) u [0..<k])"
proof (induction k)
  case (Suc k)
  let ?w = "foldl (\<lambda>aR i. let aaR = montMul key aR aR in montMul key aaR aaR) u [0..<k]"
  have "mont_form key ((p ^ 4 ^ k * p ^ 4 ^ k) * (p ^ 4 ^ k * p ^ 4 ^ k)) (montMul key (montMul key ?w ?w) (montMul key ?w ?w))"
    by (intro mont_form_mult assms(1) Suc)
  moreover have "(p ^ 4 ^ k * p ^ 4 ^ k) * (p ^ 4 ^ k * p ^ 4 ^ k) = p ^ 4 ^ Suc k"
    unfolding power_add [symmetric] by (rule arg_cong [where f = "\<lambda>e. p ^ e"]) simp
  ultimately show ?case by (simp add: Let_def)
qed (use assms(2) in simp)

lemma geM_loop_val:
  assumes "length a = length n" "i \<le> length n"
  shows "geM_loop n a i \<longleftrightarrow> val (take i n) \<le> val (take i a)"
  using assms(2)
proof (induction i)
  case (Suc i)
  let ?P = "2 ^ (32 * i) :: int"
  have s: "val (take (Suc i) n) = val (take i n) + ?P * uint (n ! i)" "val (take (Suc i) a) = val (take i a) + ?P * uint (a ! i)"
    using val_take_Suc Suc.prems assms(1) by simp_all
  have b: "0 \<le> val (take i n)" "val (take i n) < ?P" "0 \<le> val (take i a)" "val (take i a) < ?P"
    using val_less [of "take i n"] val_less [of "take i a"] Suc.prems assms(1) by (simp_all add: val_nonneg)
  consider "uint (a ! i) < uint (n ! i)" | "uint (a ! i) > uint (n ! i)" | "uint (a ! i) = uint (n ! i)" by linarith
  then show ?case
  proof cases
    case 1
    then have "?P * (uint (a ! i) + 1) \<le> ?P * uint (n ! i)" by (intro mult_left_mono) auto
    then show ?thesis using 1 b by (simp add: s word_less_def distrib_left)
  next
    case 2
    then have "?P * (uint (n ! i) + 1) \<le> ?P * uint (a ! i)" by (intro mult_left_mono) auto
    then show ?thesis using 2 b by (simp add: s word_less_def distrib_left)
  next
    case 3
    then have "a ! i = n ! i" by (rule word_uint_eqI)
    then show ?thesis using Suc s by simp
  qed
qed simp

section \<open>Exponentiation and verification\<close>

definition rsa_key_ok :: "rsa_key \<Rightarrow> bool" where
  "rsa_key_ok key \<longleftrightarrow> rk_len key = 64 \<and> length (rk_n key) = 64 \<and> length (rk_rr key) = 64 \<and>
     odd (val (rk_n key)) \<and> 2 ^ 2047 \<le> val (rk_n key) \<and> rk_n0inv key * rk_n key ! 0 = -1 \<and>
     val (rk_rr key) mod val (rk_n key) = 2 ^ 4096 mod val (rk_n key)"

lemma rsa_key_ok_mont:
  assumes "rsa_key_ok key"
  shows "mont_key key" "key_words key = 64" "length (rk_rr key) = 64" "length (rk_n key) = 64"
    "val (rk_rr key) mod val (rk_n key) = radix key ^ 2 mod val (rk_n key)"
    "2 ^ 2047 \<le> val (rk_n key)"
  using assms by (simp_all add: rsa_key_ok_def mont_key_def)

lemma drop_words:
  assumes "\<And>i. length (f i) = 4" "j \<le> n"
  shows "drop (4 * j) (concat (map f [0..<n])) = concat (map f [j..<n])"
proof -
  have "[0..<n] = [0..<j] @ [j..<n]" using assms(2) upt_add_eq_append [of 0 j "n - j"] by simp
  moreover have "length (concat (map f [0..<j])) = 4 * j" using assms(1) by (induction j) simp_all
  ultimately show ?thesis by simp
qed

lemma be_val_words:
  assumes "length ws = n"
  shows "be_val (concat (map (\<lambda>i. u32_be (ws ! (n - 1 - i))) [0..<n])) = val ws"
    "length (concat (map (\<lambda>i. u32_be (ws ! (n - 1 - i))) [0..<n])) = 4 * n"
proof -
  let ?f = "\<lambda>i. u32_be (ws ! (n - 1 - i))"
  let ?src = "concat (map ?f [0..<n])"
  show l: "length ?src = 4 * n" by (simp add: length_concat o_def sum_list_triv)
  have "map (\<lambda>i. u32_of_be (drop (4 * (n - 1 - i)) ?src)) [0..<n] = ws"
  proof (intro nth_equalityI)
    fix i assume "i < length (map (\<lambda>i. u32_of_be (drop (4 * (n - 1 - i)) ?src)) [0..<n])"
    then have i: "i < n" by simp
    then have "drop (4 * (n - 1 - i)) ?src = ?f (n - 1 - i) @ concat (map ?f [Suc (n - 1 - i)..<n])"
      using drop_words [of ?f "n - 1 - i" n] by (simp add: upt_conv_Cons)
    then show "map (\<lambda>i. u32_of_be (drop (4 * (n - 1 - i)) ?src)) [0..<n] ! i = ws ! i" using i by simp
  qed (simp add: assms)
  then show "be_val ?src = val ws" using be_words_val [OF l] by simp
qed

lemma modpow_aaa:
  assumes "rsa_key_ok key" "length a = 64"
  defines "aR \<equiv> montMul key a (rk_rr key)"
  defines "a16 \<equiv> foldl (\<lambda>aR i. let aaR = montMul key aR aR in montMul key aaR aaR) aR [0..<8]"
  shows "length (montMul key a16 a) = 64" "val (montMul key a16 a) mod val (rk_n key) = val a ^ 65537 mod val (rk_n key)"
    "length (montMul key (montMul key aR aR) a) = 64"
    "val (montMul key (montMul key aR aR) a) mod val (rk_n key) = val a ^ 3 mod val (rk_n key)"
proof -
  note k = rsa_key_ok_mont [OF assms(1)]
  have f: "mont_form key (val a) aR" unfolding aR_def using mont_form_enter [OF k(1), of a "rk_rr key"] k assms(2) by simp
  have la: "length a = key_words key" using k(2) assms(2) by simp
  have "mont_form key (val a ^ 4 ^ 8) a16" unfolding a16_def by (rule mont_form_fourth [OF k(1) f])
  note g = mont_form_leave [OF k(1) this la]
  have "val a ^ 4 ^ 8 * val a = val a ^ 65537" by (simp flip: power_Suc2)
  then show "length (montMul key a16 a) = 64" "val (montMul key a16 a) mod val (rk_n key) = val a ^ 65537 mod val (rk_n key)"
    using g k(2) by simp_all
  note h = mont_form_leave [OF k(1) mont_form_mult [OF k(1) f f] la]
  show "length (montMul key (montMul key aR aR) a) = 64"
    "val (montMul key (montMul key aR aR) a) mod val (rk_n key) = val a ^ 3 mod val (rk_n key)"
    using h k(2) by (simp_all add: power3_eq_cube)
qed

lemma final_subtract:
  assumes "rsa_key_ok key" "length w = 64"
  shows "length (if geM key w then rsa_subM key w else w) = 64"
    "val (if geM key w then rsa_subM key w else w) = val w mod val (rk_n key)"
proof -
  note k = rsa_key_ok_mont [OF assms(1)]
  let ?N = "val (rk_n key)"
  have w: "0 \<le> val w" "val w < 2 * ?N" using val_less [of w] assms(2) k(6) by (simp_all add: val_nonneg)
  have g: "geM key w \<longleftrightarrow> ?N \<le> val w"
    using geM_loop_val [of w "rk_n key" 64] assms(2) k(2,4) by (simp add: geM_def)
  obtain c out where l: "sub_loop 0 w (rk_n key) = (c, out)" by fastforce
  then have h: "length c = 64" "-1 \<le> out" "out \<le> 0" "val c + 2 ^ 2048 * out = val w - ?N"
    using sub_loop_val [of w "rk_n key" 0] assms(2) k(4) by simp_all
  have s: "rsa_subM key w = c" using l k(2,4) by (simp add: rsa_subM_def)
  have "val c < 2 ^ 2048" using val_less [of c] h(1) by simp
  then have "out = 0" if "?N \<le> val w" using h(2-4) that by (cases "out = -1") simp_all
  then have "val c = val w - ?N" if "?N \<le> val w" using h(4) that by simp
  then show "length (if geM key w then rsa_subM key w else w) = 64"
    "val (if geM key w then rsa_subM key w else w) = val w mod ?N"
    using g s h(1) assms(2) mod_once [OF w] by auto
qed

lemma modpow_val:
  assumes "rsa_key_ok key" "rk_exponent key = 3 \<or> rk_exponent key = 65537" "length inout = 256"
  obtains out where "modpow key inout = Inr out" "length out = 256"
    "be_val out = be_val inout ^ nat (rk_exponent key) mod val (rk_n key)"
proof -
  note k = rsa_key_ok_mont [OF assms(1)]
  define a where "a = map (\<lambda>i. u32_of_be (drop ((64 - 1 - i) * 4) inout)) [0..<64]"
  have a: "length a = 64" "val a = be_val inout"
    using be_words_val [of inout 64] assms(3) by (simp_all add: a_def mult.commute)
  define aaa where "aaa = (if rk_exponent key = 65537
    then montMul key (foldl (\<lambda>aR i. let aaR = montMul key aR aR in montMul key aaR aaR) (montMul key a (rk_rr key)) [0..<8]) a
    else montMul key (montMul key (montMul key a (rk_rr key)) (montMul key a (rk_rr key))) a)"
  have aaa: "length aaa = 64" "val aaa mod val (rk_n key) = val a ^ nat (rk_exponent key) mod val (rk_n key)"
    using modpow_aaa [OF assms(1) a(1)] assms(2) by (auto simp: aaa_def)
  define z where "z = (if geM key aaa then rsa_subM key aaa else aaa)"
  have z: "length z = 64" "val z = val aaa mod val (rk_n key)" unfolding z_def by (rule final_subtract [OF assms(1) aaa(1)])+
  have "modpow key inout = Inr (concat (map (\<lambda>i. u32_be (z ! (64 - 1 - i))) [0..<64]))"
    unfolding modpow_def k(2) Let_def a_def [symmetric] z_def aaa_def using assms(2) k(3)
    by (auto simp: Let_def)
  then show ?thesis using that be_val_words [OF z(1)] z(2) aaa(2) a(2) by simp
qed

text \<open>
  C28. RSA exponentiation: for a 2048-bit key with the constants that belong to its modulus and the exponent 3 or
  65537, \<^verbatim>\<open>modpow\<close> replaces the big-endian number in its buffer by its power modulo the modulus.
\<close>

theorem modpow_correct:
  assumes "rsa_key_ok key" "rk_exponent key = 3 \<or> rk_exponent key = 65537" "length inout = 256"
  shows "\<exists>out. modpow key inout = Inr out \<and> length out = 256 \<and>
    be_val out = be_val inout ^ nat (rk_exponent key) mod val (rk_n key)"
  using modpow_val [OF assms] by metis

text \<open>A key for the witnesses: the modulus \<open>2\<^sup>2\<^sup>0\<^sup>4\<^sup>8 - 1\<close>.\<close>

definition demo_key :: rsa_key where
  "demo_key = \<lparr>rk_len = 64, rk_n0inv = 1, rk_n = replicate 64 (-1), rk_rr = 1 # replicate 63 0, rk_exponent = 3\<rparr>"

lemma val_ones: "val (replicate n (-1)) = 2 ^ (32 * n) - 1"
  by (induction n) (simp_all add: unsigned_minus_1_eq_mask mask_eq_exp_minus_1 power_add)

lemma demo_key_ok: "rsa_key_ok demo_key" "rk_exponent demo_key = 3"
proof -
  have "(2 :: int) ^ 4096 = 1 + (2 ^ 2048 + 1) * (2 ^ 2048 - 1)" by simp
  then have m: "(2 :: int) ^ 4096 mod (2 ^ 2048 - 1) = 1 mod (2 ^ 2048 - 1)" by (simp only: mod_mult_self1)
  have o: "odd ((2 :: int) ^ 2048 - 1)" by simp
  show "rsa_key_ok demo_key" "rk_exponent demo_key = 3" unfolding rsa_key_ok_def demo_key_def using m o
    by (simp_all add: val_ones del: power_numeral)
qed

theorem modpow_correct_witness:
  "\<exists>out. modpow demo_key (replicate 255 0 @ [2]) = Inr out \<and> length out = 256 \<and>
    be_val out = 2 ^ 3 mod val (rk_n demo_key)"
proof -
  have "be_val (replicate 255 0 @ [2]) = 2" by (simp add: be_val_append) (simp add: be_val_def)
  then show ?thesis
    using modpow_correct [OF demo_key_ok(1), of "replicate 255 0 @ [2]"] demo_key_ok(2) by simp
qed

lemma length_fips:
  "length (fips_sha1 m) = 20" "length (fips_sha256 m) = 32"
proof -
  have l: "length (take k (concat (map (\<lambda>i. u32_be (s ! i)) [0..<n]) @ r)) = k" if "k = 4 * n" for k n s and r :: "byte list"
    using that by (simp add: length_concat o_def sum_list_triv)
  have f: "ctx_buf (ctx\<lparr>ctx_buf := x\<rparr>) = x" for ctx x by simp
  show "length (fips_sha1 m) = 20" "length (fips_sha256 m) = 32"
    unfolding HASH_init_absorbs [OF demo_ctx_ok(1), of m, symmetric] SHA_final_def SHA256_final_def Let_def fst_conv f
    by (rule l, simp)+
qed

lemma mismatch_iff:
  assumes "length xs = n" "length ys = n"
  shows "(\<exists>i < n. (xs @ zs) ! i \<noteq> ys ! i) \<longleftrightarrow> xs \<noteq> ys"
  using assms by (auto simp: list_eq_iff_nth_eq nth_append)



end
