(* ===== verification/Dsa_Sig.thy ===== *)
theory Dsa_Sig
  imports P256_Arith
begin

text \<open>
  The unpacking of DER-encoded DSA signatures, \<^verbatim>\<open>libmincrypt/dsa_sig.c\<close>.  The signature is the memory from its
  first byte to the end of its allocation; reading beyond it is a fault.
\<close>

section \<open>Model\<close>

definition read_byte :: "byte list \<Rightarrow> nat \<Rightarrow> byte res" where
  "read_byte mem i = (if i < length mem then Inr (mem ! i) else Inl OutOfBounds)"

text \<open>\<open>src\<close> is the memory from the pointer on.\<close>

fun trim_loop :: "byte list \<Rightarrow> int \<Rightarrow> (byte list \<times> int) res" where
  "trim_loop [] src_len = Inl OutOfBounds"
| "trim_loop (b # src) src_len =
    (if b = 0 \<and> src_len > 0 then trim_loop src (src_len - 1) else Inr (b # src, src_len))"

definition trim_to_p256_bytes :: "byte list \<Rightarrow> byte list \<Rightarrow> int \<Rightarrow> (int \<times> byte list) res" where
  "trim_to_p256_bytes dst src src_len =
     bindR (trim_loop src src_len) (\<lambda>(src, src_len).
     if src_len > 32 \<or> src_len < 1 then Inr (0, dst)
     else let dst_offset = nat (32 - src_len) in
       bindR (assertR (nat src_len \<le> length src) OutOfBounds) (\<lambda>_.
       Inr (1, replicate dst_offset 0 @ take (nat src_len) src)))"

definition dsa_sig_unpack :: "byte list \<Rightarrow> int \<Rightarrow> p256_int \<Rightarrow> p256_int \<Rightarrow> (int \<times> p256_int \<times> p256_int) res" where
  "dsa_sig_unpack sig sig_len r_int s_int =
    (let r_bytes = replicate 32 0; s_bytes = replicate 32 0; reject = Inr (0, r_int, s_int) in
     if sig_len < 8 then reject
     else bindR (read_byte sig 0) (\<lambda>b0. if b0 \<noteq> 0x30 then reject
     else bindR (read_byte sig 2) (\<lambda>b2. if b2 \<noteq> 0x02 then reject
     else bindR (read_byte sig 1) (\<lambda>b1. let seq_len = uint b1 in
     if seq_len \<le> 0 \<or> seq_len + 2 \<noteq> sig_len then reject
     else bindR (read_byte sig 3) (\<lambda>b3. let r_len = uint b3 in
     if r_len < 1 \<or> r_len > seq_len - 5 then reject
     else bindR (read_byte sig (nat (4 + r_len))) (\<lambda>t. if t \<noteq> 0x02 then reject
     else bindR (read_byte sig (nat (5 + r_len))) (\<lambda>b5. let s_len = uint b5 in
     if s_len < 1 \<or> s_len \<noteq> seq_len - 4 - r_len then reject
     else bindR (trim_to_p256_bytes r_bytes (drop 4 sig) r_len) (\<lambda>(ok, r_bytes). if ok = 0 then reject
     else bindR (trim_to_p256_bytes s_bytes (drop (nat (6 + r_len)) sig) s_len) (\<lambda>(ok, s_bytes). if ok = 0 then reject
     else Inr (1, p256_from_bin r_bytes, p256_from_bin s_bytes))))))))))"

section \<open>Lemmas\<close>

lemma trim_loop_skips:
  assumes "n = int (length xs)"
  shows "trim_loop (xs @ b # ys) n =
    (if (\<forall>x \<in> set xs. x = 0) then Inr (b # ys, 0)
     else Inr (dropWhile (\<lambda>x. x = 0) xs @ b # ys, int (length (dropWhile (\<lambda>x. x = 0) xs))))"
  using assms by (induction xs arbitrary: n) auto

lemma trim_loop_end:
  assumes "n = int (length xs)"
  shows "trim_loop xs n = (if (\<forall>x \<in> set xs. x = 0) then Inl OutOfBounds
     else Inr (dropWhile (\<lambda>x. x = 0) xs, int (length (dropWhile (\<lambda>x. x = 0) xs))))"
  using assms by (induction xs arbitrary: n) auto

lemma be_val_dropWhile: "be_val (dropWhile (\<lambda>x. x = 0) bs) = be_val bs"
proof (induction bs)
  case (Cons b bs)
  have "be_val (0 # bs) = be_val bs" using be_val_append [of "[0]" bs] by (simp add: be_val_def)
  then show ?case using Cons by simp
qed simp

lemma be_val_lead:
  assumes "b \<noteq> 0"
  shows "256 ^ length bs \<le> be_val (b # bs)"
proof -
  have "uint b \<noteq> 0" using assms by (metis uint_0_iff)
  moreover have "0 \<le> uint b" by simp
  ultimately have "1 \<le> uint b" by linarith
  then have "256 ^ length bs * 1 \<le> 256 ^ length bs * uint b" by (intro mult_left_mono) auto
  moreover have "be_val (b # bs) = 256 ^ length bs * uint b + be_val bs"
    using be_val_append [of "[b]" bs] by (simp add: be_val_def [of "[b]"])
  ultimately show ?thesis using be_val_nonneg [of bs] by linarith
qed

lemma be_val_zero_iff: "be_val bs = 0 \<longleftrightarrow> (\<forall>b \<in> set bs. b = 0)"
proof
  assume "be_val bs = 0"
  then have z: "be_val (dropWhile (\<lambda>x. x = 0) bs) = 0" by (simp add: be_val_dropWhile)
  show "\<forall>b \<in> set bs. b = 0"
  proof (cases "dropWhile (\<lambda>x. x = 0) bs")
    case (Cons c cs)
    then have "c \<noteq> 0" using hd_dropWhile [of "\<lambda>x. x = 0" bs] by simp
    then have "256 ^ length cs \<le> (0 :: int)" using be_val_lead [of c cs] z Cons by simp
    then show ?thesis using zero_less_power [of "256 :: int" "length cs"] by linarith
  qed (simp add: dropWhile_eq_Nil_conv)
next
  assume "\<forall>b \<in> set bs. b = 0"
  then have "bs = replicate (length bs) 0" by (simp add: replicate_eqI)
  then show "be_val bs = 0" by (metis be_val_zeros)
qed

lemma trimmed_length:
  assumes "be_val bs \<noteq> 0"
  shows "length (dropWhile (\<lambda>x. x = 0) bs) \<le> n \<longleftrightarrow> be_val bs < 256 ^ n"
proof -
  obtain c cs where d: "dropWhile (\<lambda>x. x = 0) bs = c # cs"
    using assms by (cases "dropWhile (\<lambda>x. x = 0) bs") (auto simp: dropWhile_eq_Nil_conv be_val_zero_iff)
  then have c: "c \<noteq> 0" using hd_dropWhile [of "\<lambda>x. x = 0" bs] by simp
  have v: "be_val (c # cs) = be_val bs" using be_val_dropWhile [of bs] d by simp
  show ?thesis
  proof
    assume "length (dropWhile (\<lambda>x. x = 0) bs) \<le> n"
    then have "(256 :: int) ^ length (c # cs) \<le> 256 ^ n" using d by (intro power_increasing) auto
    then show "be_val bs < 256 ^ n" using be_val_less [of "c # cs"] v by simp
  next
    assume "be_val bs < 256 ^ n"
    then have "(256 :: int) ^ length cs < 256 ^ n" using be_val_lead [OF c, of cs] v by linarith
    then have "length cs < n" by (rule power_less_imp_less_exp [rotated]) simp
    then show "length (dropWhile (\<lambda>x. x = 0) bs) \<le> n" using d by simp
  qed
qed


definition der_sig :: "byte list \<Rightarrow> byte list \<Rightarrow> byte list" where
  "der_sig R S = [0x30, word_of_nat (4 + length R + length S), 0x02, word_of_nat (length R)] @ R
     @ [0x02, word_of_nat (length S)] @ S"

definition der_ok :: "byte list \<Rightarrow> byte list \<Rightarrow> bool" where
  "der_ok R S \<longleftrightarrow> 1 \<le> length R \<and> 1 \<le> length S \<and> length R + length S \<le> 251"

lemma from_bin_padded:
  assumes "length bs \<le> 32"
  shows "val (p256_from_bin (replicate (32 - length bs) 0 @ bs)) = be_val bs"
  using p256_from_bin_val [of "replicate (32 - length bs) 0 @ bs"] assms by (simp add: be_val_append)

lemma trim_inner:
  fixes R ys :: "byte list"
  shows "trim_to_p256_bytes dst (R @ b # ys) (int (length R)) =
    (if be_val R = 0 \<or> 2 ^ 256 \<le> be_val R then Inr (0, dst)
     else let t = dropWhile (\<lambda>x. x = 0) R in Inr (1, replicate (32 - length t) 0 @ t))"
proof (cases "be_val R = 0")
  case True
  then show ?thesis by (simp add: trim_to_p256_bytes_def trim_loop_skips be_val_zero_iff)
next
  case False
  let ?t = "dropWhile (\<lambda>x. x = 0) R"
  have ne: "?t \<noteq> []" using False by (auto simp: be_val_zero_iff dropWhile_eq_Nil_conv)
  have l: "length ?t \<le> 32 \<longleftrightarrow> be_val R < 2 ^ 256" using trimmed_length [OF False, of 32] by simp
  have "trim_loop (R @ b # ys) (int (length R)) = Inr (?t @ b # ys, int (length ?t))"
    using False by (subst trim_loop_skips) (auto simp: be_val_zero_iff)
  then show ?thesis using False l ne
    by (auto simp: trim_to_p256_bytes_def Let_def nat_diff_distrib' not_le Suc_le_eq)
qed

lemma trim_last:
  fixes S :: "byte list"
  shows "trim_to_p256_bytes dst S (int (length S)) =
    (if be_val S = 0 then Inl OutOfBounds else if 2 ^ 256 \<le> be_val S then Inr (0, dst)
     else let t = dropWhile (\<lambda>x. x = 0) S in Inr (1, replicate (32 - length t) 0 @ t))"
proof (cases "be_val S = 0")
  case True
  then show ?thesis by (simp add: trim_to_p256_bytes_def trim_loop_end be_val_zero_iff)
next
  case False
  let ?t = "dropWhile (\<lambda>x. x = 0) S"
  have ne: "?t \<noteq> []" using False by (auto simp: be_val_zero_iff dropWhile_eq_Nil_conv)
  have l: "length ?t \<le> 32 \<longleftrightarrow> be_val S < 2 ^ 256" using trimmed_length [OF False, of 32] by simp
  have "trim_loop S (int (length S)) = Inr (?t, int (length ?t))"
    using False by (subst trim_loop_end) (auto simp: be_val_zero_iff)
  then show ?thesis using False l ne
    by (auto simp: trim_to_p256_bytes_def Let_def nat_diff_distrib' not_le Suc_le_eq)
qed

definition p256_of :: "byte list \<Rightarrow> p256_int" where
  "p256_of bs = (let t = dropWhile (\<lambda>x. x = 0) bs in p256_from_bin (replicate (32 - length t) 0 @ t))"

lemma p256_of_val:
  assumes "be_val bs < 2 ^ 256"
  shows "val (p256_of bs) = be_val bs"
proof -
  have "length (dropWhile (\<lambda>x. x = 0) bs) \<le> 32"
  proof (cases "be_val bs = 0")
    case True
    then have "dropWhile (\<lambda>x. x = 0) bs = []" by (simp add: dropWhile_eq_Nil_conv be_val_zero_iff)
    then show ?thesis by (metis list.size(3) zero_le)
  next
    case False
    then show ?thesis using trimmed_length [OF False, of 32] assms by simp
  qed
  from from_bin_padded [OF this] show ?thesis by (simp add: p256_of_def be_val_dropWhile Let_def)
qed

lemma uint_of_length: "n \<le> 255 \<Longrightarrow> uint (word_of_nat n :: byte) = int n"
  by (simp add: uint_nat unat_of_nat)

lemma unpack_der:
  assumes "der_ok R S"
  shows "dsa_sig_unpack (der_sig R S) (int (length (der_sig R S))) r0 s0 =
    (if be_val R = 0 \<or> 2 ^ 256 \<le> be_val R then Inr (0, r0, s0)
     else if be_val S = 0 then Inl OutOfBounds
     else if 2 ^ 256 \<le> be_val S then Inr (0, r0, s0)
     else Inr (1, p256_of R, p256_of S))"
proof -
  let ?sig = "der_sig R S"
  have l: "1 \<le> length R" "1 \<le> length S" "length R + length S \<le> 251" using assms by (simp_all add: der_ok_def)
  have n: "length ?sig = 6 + length R + length S" by (simp add: der_sig_def)
  have rd: "read_byte ?sig 0 = Inr 0x30" "read_byte ?sig 1 = Inr (word_of_nat (4 + length R + length S))"
    "read_byte ?sig 2 = Inr 0x02" "read_byte ?sig 3 = Inr (word_of_nat (length R))"
    "read_byte ?sig (4 + length R) = Inr 0x02" "read_byte ?sig (5 + length R) = Inr (word_of_nat (length S))"
    by (simp_all add: read_byte_def der_sig_def nth_append)
  have "?sig = ([0x30, word_of_nat (4 + length R + length S), 0x02, word_of_nat (length R)] @ R
     @ [0x02, word_of_nat (length S)]) @ S" by (simp add: der_sig_def)
  then have d: "drop 4 ?sig = R @ 0x02 # word_of_nat (length S) # S" "drop (6 + length R) ?sig = S"
    by (simp_all add: der_sig_def del: append_assoc append_Cons) 
  have u: "uint (word_of_nat (4 + length R + length S) :: byte) = 4 + int (length R) + int (length S)"
    "uint (word_of_nat (length R) :: byte) = int (length R)" "uint (word_of_nat (length S) :: byte) = int (length S)"
    using uint_of_length [of "4 + length R + length S"] uint_of_length [of "length R"] uint_of_length [of "length S"] l by simp_all
  have i: "nat (4 + int (length R)) = 4 + length R" "nat (5 + int (length R)) = 5 + length R" "nat (6 + int (length R)) = 6 + length R"
    by simp_all
  show ?thesis
    using l unfolding dsa_sig_unpack_def Let_def rd bindR_simps u i d trim_inner trim_last n
    by (auto simp: p256_of_def Let_def)
qed

lemma accepted_fields:
  assumes "dsa_sig_unpack sig (int (length sig)) r0 s0 = Inr (1, r, s)"
  defines "rl \<equiv> nat (uint (sig ! 3))"
  shows "sig ! 0 = 0x30" "sig ! 2 = 0x02" "uint (sig ! 1) + 2 = int (length sig)" "1 \<le> rl" "rl + 7 \<le> length sig"
    "sig ! (4 + rl) = 0x02" "uint (sig ! (5 + rl)) = int (length sig - 6 - rl)"
proof -
  have n: "\<not> int (length sig) < 8" using assms(1) by (auto simp: dsa_sig_unpack_def)
  then have f: "sig ! 0 = 0x30 \<and> sig ! 2 = 0x02 \<and> uint (sig ! 1) + 2 = int (length sig) \<and> 1 \<le> uint (sig ! 3)
      \<and> uint (sig ! 3) \<le> uint (sig ! 1) - 5"
    using assms(1) by (auto simp: dsa_sig_unpack_def Let_def read_byte_def split: if_splits)
  moreover have r: "uint (sig ! 3) = int rl" by (simp add: rl_def)
  ultimately have rl: "uint (sig ! 3) = int rl" "1 \<le> rl" "rl + 7 \<le> length sig" by linarith+
  have i: "nat (4 + int rl) = 4 + rl" "nat (5 + int rl) = 5 + rl" by simp_all
  have "sig ! (4 + rl) = 0x02 \<and> uint (sig ! (5 + rl)) = uint (sig ! 1) - 4 - int rl"
    using assms(1) n f rl(2,3) by (auto simp: dsa_sig_unpack_def Let_def read_byte_def rl(1) i split: if_splits)
  then show "sig ! 0 = 0x30" "sig ! 2 = 0x02" "uint (sig ! 1) + 2 = int (length sig)" "1 \<le> rl" "rl + 7 \<le> length sig"
    "sig ! (4 + rl) = 0x02" "uint (sig ! (5 + rl)) = int (length sig - 6 - rl)"
    using f rl by auto
qed

lemma take_nth: "k + n \<le> length xs \<Longrightarrow> take n (drop k xs) = map (\<lambda>i. xs ! (k + i)) [0..<n]"
  by (intro nth_equalityI) auto

lemma word_of_uint_nat: "uint (b :: byte) = int n \<Longrightarrow> b = word_of_nat n"
  by (metis of_int_of_nat_eq word_of_int_uint)

lemma unpack_accepts:
  assumes "dsa_sig_unpack sig (int (length sig)) r0 s0 = Inr (1, r, s)"
  obtains R S where "der_ok R S" "sig = der_sig R S"
proof -
  define rl where "rl = nat (uint (sig ! 3))"
  note f = accepted_fields [OF assms, folded rl_def]
  define R where "R = take rl (drop 4 sig)"
  define S where "S = drop (6 + rl) sig"
  have l: "length R = rl" "length S = length sig - 6 - rl" using f(5) by (simp_all add: R_def S_def)
  have b: "uint (sig ! 1) < 256" using uint_lt2p [of "sig ! 1"] by simp
  have "sig = take 4 sig @ take rl (drop 4 sig) @ drop rl (drop 4 sig)" by (simp only: append_take_drop_id)
  also have "drop rl (drop 4 sig) = take 2 (drop (4 + rl) sig) @ S"
    unfolding S_def using append_take_drop_id [of 2 "drop (4 + rl) sig"] by (simp add: add.commute)
  finally have "sig = take 4 (drop 0 sig) @ R @ take 2 (drop (4 + rl) sig) @ S" by (simp add: R_def)
  moreover have "take 4 (drop 0 sig) = [0x30, sig ! 1, 0x02, sig ! 3]"
    using f(1,2,5) by (subst take_nth) (simp_all add: upt_rec numeral_2_eq_2 numeral_3_eq_3)
  moreover have "take 2 (drop (4 + rl) sig) = [0x02, sig ! (5 + rl)]"
    using f(5,6) by (subst take_nth) (simp_all add: upt_rec)
  moreover have "sig ! 1 = word_of_nat (4 + length R + length S)"
    by (rule word_of_uint_nat) (use f(3,5) l in linarith)
  moreover have "sig ! 3 = word_of_nat (length R)" by (rule word_of_uint_nat) (simp add: l rl_def)
  moreover have "sig ! (5 + rl) = word_of_nat (length S)" by (rule word_of_uint_nat) (simp only: f(7) l)
  ultimately have "sig = der_sig R S" unfolding der_sig_def by simp
  moreover have "der_ok R S" unfolding der_ok_def l using f(3,4,5) b by linarith
  ultimately show ?thesis using that by blast
qed


text \<open>
  A well-formed signature whose second integer consists of zero bytes only makes \<^verbatim>\<open>trim_to_p256_bytes\<close> read one
  byte beyond the signature, since the loop looks at the byte before it looks at the length.
\<close>

theorem dsa_sig_zero_reads_beyond:
  assumes "der_ok R S" "0 < be_val R" "be_val R < 2 ^ 256" "be_val S = 0"
  shows "dsa_sig_unpack (der_sig R S) (int (length (der_sig R S))) r0 s0 = Inl OutOfBounds"
  using unpack_der [OF assms(1)] assms(2-4) by simp

theorem dsa_sig_zero_reads_beyond_witness:
  "dsa_sig_unpack [0x30, 6, 2, 1, 1, 2, 1, 0] 8 P256_ZERO P256_ZERO = Inl OutOfBounds"
  using dsa_sig_zero_reads_beyond [of "[1]" "[0]" P256_ZERO P256_ZERO] by (simp add: der_ok_def der_sig_def be_val_def)

end
