(* ===== verification/Hashmap.thy ===== *)
theory Hashmap
  imports Knife_Prelude "HOL-Library.Multiset"
begin

text \<open>
  The hash table of \<^verbatim>\<open>libcutils/hashmap.c\<close>.  A chain of entries is a list in link order: no other pointer
  into a chain outlives a call.  \<^verbatim>\<open>size_t\<close> has 64 bits, \<^verbatim>\<open>int\<close> is a word of 32 bits.  A \<^verbatim>\<open>void *\<close> value is an
  option, \<^term>\<open>None\<close> for \<^verbatim>\<open>NULL\<close>; a key is a value of a type \<open>'k\<close>, whose equality is that of the pointers.  The
  outcome of each allocation is an argument of the operation that asks for it.
\<close>

section \<open>Model\<close>

record ('k, 'v) entry =
  e_key :: 'k
  e_hash :: u32
  e_value :: "'v option"

record ('k, 'v) hashmap =
  hm_buckets :: "('k, 'v) entry list list"
  hm_bucketCount :: u64
  hm_hash :: "'k \<Rightarrow> u32"
  hm_equals :: "'k \<Rightarrow> 'k \<Rightarrow> bool"
  hm_size :: u64

fun grow_loop :: "nat \<Rightarrow> u64 \<Rightarrow> u64 \<Rightarrow> u64 res" where
  "grow_loop 0 minimum cnt = Inl Diverges"
| "grow_loop (Suc fuel) minimum cnt =
    (if cnt \<le> minimum then grow_loop fuel minimum (push_bit 1 cnt) else Inr cnt)"

definition hashmapCreate ::
  "nat \<Rightarrow> bool \<Rightarrow> bool \<Rightarrow> u64 \<Rightarrow> ('k \<Rightarrow> u32) \<Rightarrow> ('k \<Rightarrow> 'k \<Rightarrow> bool) \<Rightarrow> ('k, 'v) hashmap option res" where
  "hashmapCreate fuel alloc_map alloc_buckets initialCapacity hash equals =
    (if \<not> alloc_map then Inr None
     else let minimumBucketCount = initialCapacity * 4 div 3 in
       bindR (grow_loop fuel minimumBucketCount 1) (\<lambda>cnt.
       if \<not> alloc_buckets then Inr None
       else Inr (Some \<lparr>hm_buckets = replicate (unat cnt) [], hm_bucketCount = cnt,
                       hm_hash = hash, hm_equals = equals, hm_size = 0\<rparr>)))"

definition hashKey :: "('k \<Rightarrow> u32) \<Rightarrow> 'k \<Rightarrow> u32" where
  "hashKey hash key =
    (let h = hash key;
         h = h + NOT (push_bit 9 h);
         h = h XOR drop_bit 14 h;
         h = h + push_bit 4 h;
         h = h XOR drop_bit 10 h
     in h)"

definition hashmapSize :: "('k, 'v) hashmap \<Rightarrow> u64" where
  "hashmapSize m = hm_size m"

definition calculateIndex :: "u64 \<Rightarrow> u32 \<Rightarrow> nat" where
  "calculateIndex bucketCount hash = unat ((scast hash :: u64) AND (bucketCount - 1))"

definition move_entry :: "u64 \<Rightarrow> ('k, 'v) entry list list \<Rightarrow> ('k, 'v) entry \<Rightarrow> ('k, 'v) entry list list" where
  "move_entry newBucketCount newBuckets e =
    (let index = calculateIndex newBucketCount (e_hash e) in newBuckets[index := e # newBuckets ! index])"

definition expandIfNecessary :: "bool \<Rightarrow> ('k, 'v) hashmap \<Rightarrow> ('k, 'v) hashmap" where
  "expandIfNecessary alloc m =
    (if hm_size m > hm_bucketCount m * 3 div 4 then
       let newBucketCount = push_bit 1 (hm_bucketCount m) in
       if \<not> alloc then m
       else let newBuckets = foldl (\<lambda>nb chain. foldl (move_entry newBucketCount) nb chain)
                               (replicate (unat newBucketCount) []) (hm_buckets m)
         in m\<lparr>hm_buckets := newBuckets, hm_bucketCount := newBucketCount\<rparr>
     else m)"

definition hashmapHash :: "byte list \<Rightarrow> u32" where
  "hashmapHash key = foldl (\<lambda>h b. h * 31 + scast b) (word_of_nat (length key)) key"

definition createEntry :: "bool \<Rightarrow> 'k \<Rightarrow> u32 \<Rightarrow> 'v option \<Rightarrow> ('k, 'v) entry option" where
  "createEntry alloc key hash value = (if alloc then Some \<lparr>e_key = key, e_hash = hash, e_value = value\<rparr> else None)"

definition equalKeys :: "'k \<Rightarrow> u32 \<Rightarrow> 'k \<Rightarrow> u32 \<Rightarrow> ('k \<Rightarrow> 'k \<Rightarrow> bool) \<Rightarrow> bool" where
  "equalKeys keyA hashA keyB hashB equals =
    (if keyA = keyB then True else if hashA \<noteq> hashB then False else equals keyA keyB)"

text \<open>The walk along a chain: the entries before the first one with an equal key, and the chain from there.\<close>

fun walk :: "('k \<Rightarrow> 'k \<Rightarrow> bool) \<Rightarrow> 'k \<Rightarrow> u32 \<Rightarrow> ('k, 'v) entry list \<Rightarrow> ('k, 'v) entry list \<times> ('k, 'v) entry list" where
  "walk equals key hash [] = ([], [])"
| "walk equals key hash (e # chain) =
    (if equalKeys (e_key e) (e_hash e) key hash equals then ([], e # chain)
     else case walk equals key hash chain of (before, rest) \<Rightarrow> (e # before, rest))"

definition hashmapPut ::
  "bool \<Rightarrow> bool \<Rightarrow> ('k, 'v) hashmap \<Rightarrow> 'k \<Rightarrow> 'v option \<Rightarrow> 'v option \<times> ('k, 'v) hashmap" where
  "hashmapPut alloc_entry alloc_buckets m key value =
    (let hash = hashKey (hm_hash m) key;
         index = calculateIndex (hm_bucketCount m) hash
     in case walk (hm_equals m) key hash (hm_buckets m ! index) of
          (before, []) \<Rightarrow> (case createEntry alloc_entry key hash value of
              None \<Rightarrow> (None, m)
            | Some e \<Rightarrow> (None, expandIfNecessary alloc_buckets
                (m\<lparr>hm_buckets := (hm_buckets m)[index := before @ [e]], hm_size := hm_size m + 1\<rparr>)))
        | (before, current # rest) \<Rightarrow> (e_value current,
             m\<lparr>hm_buckets := (hm_buckets m)[index := before @ current\<lparr>e_value := value\<rparr> # rest]\<rparr>))"

definition hashmapGet :: "('k, 'v) hashmap \<Rightarrow> 'k \<Rightarrow> 'v option" where
  "hashmapGet m key =
    (let hash = hashKey (hm_hash m) key;
         index = calculateIndex (hm_bucketCount m) hash
     in case walk (hm_equals m) key hash (hm_buckets m ! index) of
          (before, []) \<Rightarrow> None | (before, current # rest) \<Rightarrow> e_value current)"

definition hashmapContainsKey :: "('k, 'v) hashmap \<Rightarrow> 'k \<Rightarrow> bool" where
  "hashmapContainsKey m key =
    (let hash = hashKey (hm_hash m) key;
         index = calculateIndex (hm_bucketCount m) hash
     in case walk (hm_equals m) key hash (hm_buckets m ! index) of
          (before, []) \<Rightarrow> False | (before, current # rest) \<Rightarrow> True)"

definition hashmapMemoize ::
  "bool \<Rightarrow> bool \<Rightarrow> ('k, 'v) hashmap \<Rightarrow> 'k \<Rightarrow> ('k \<Rightarrow> 'v option) \<Rightarrow> 'v option \<times> ('k, 'v) hashmap" where
  "hashmapMemoize alloc_entry alloc_buckets m key initialValue =
    (let hash = hashKey (hm_hash m) key;
         index = calculateIndex (hm_bucketCount m) hash
     in case walk (hm_equals m) key hash (hm_buckets m ! index) of
          (before, []) \<Rightarrow> (case createEntry alloc_entry key hash None of
              None \<Rightarrow> (None, m)
            | Some e \<Rightarrow> (let value = initialValue key in (value, expandIfNecessary alloc_buckets
                (m\<lparr>hm_buckets := (hm_buckets m)[index := before @ [e\<lparr>e_value := value\<rparr>]], hm_size := hm_size m + 1\<rparr>))))
        | (before, current # rest) \<Rightarrow> (e_value current, m))"

definition hashmapRemove :: "('k, 'v) hashmap \<Rightarrow> 'k \<Rightarrow> 'v option \<times> ('k, 'v) hashmap" where
  "hashmapRemove m key =
    (let hash = hashKey (hm_hash m) key;
         index = calculateIndex (hm_bucketCount m) hash
     in case walk (hm_equals m) key hash (hm_buckets m ! index) of
          (before, []) \<Rightarrow> (None, m)
        | (before, current # rest) \<Rightarrow> (e_value current,
             m\<lparr>hm_buckets := (hm_buckets m)[index := before @ rest], hm_size := hm_size m - 1\<rparr>))"

fun foreach_loop :: "('k \<Rightarrow> 'v option \<Rightarrow> 'c \<Rightarrow> bool \<times> 'c) \<Rightarrow> ('k, 'v) entry list \<Rightarrow> 'c \<Rightarrow> bool \<times> 'c" where
  "foreach_loop callback [] context = (True, context)"
| "foreach_loop callback (e # chain) context =
    (case callback (e_key e) (e_value e) context of (go, context) \<Rightarrow>
       if \<not> go then (False, context) else foreach_loop callback chain context)"

fun foreach_buckets :: "('k \<Rightarrow> 'v option \<Rightarrow> 'c \<Rightarrow> bool \<times> 'c) \<Rightarrow> ('k, 'v) entry list list \<Rightarrow> 'c \<Rightarrow> 'c" where
  "foreach_buckets callback [] context = context"
| "foreach_buckets callback (b # bs) context =
    (case foreach_loop callback b context of (go, context) \<Rightarrow>
       if \<not> go then context else foreach_buckets callback bs context)"

definition hashmapForEach :: "('k, 'v) hashmap \<Rightarrow> ('k \<Rightarrow> 'v option \<Rightarrow> 'c \<Rightarrow> bool \<times> 'c) \<Rightarrow> 'c \<Rightarrow> 'c" where
  "hashmapForEach m callback context = foreach_buckets callback (hm_buckets m) context"

definition hashmapCurrentCapacity :: "('k, 'v) hashmap \<Rightarrow> u64" where
  "hashmapCurrentCapacity m = hm_bucketCount m * 3 div 4"

fun chain_collisions :: "('k, 'v) entry list \<Rightarrow> u64 \<Rightarrow> u64" where
  "chain_collisions [] n = n"
| "chain_collisions (e # chain) n = chain_collisions chain (if chain \<noteq> [] then n + 1 else n)"

definition hashmapCountCollisions :: "('k, 'v) hashmap \<Rightarrow> u64" where
  "hashmapCountCollisions m = foldl (\<lambda>n chain. chain_collisions chain n) 0 (hm_buckets m)"

text \<open>Keys that point to an \<^verbatim>\<open>int\<close>; \<open>mem\<close> is the memory they point into.\<close>

definition hashmapIntHash :: "(addr \<Rightarrow> u32) \<Rightarrow> addr \<Rightarrow> u32" where
  "hashmapIntHash mem key = mem key"

definition hashmapIntEquals :: "(addr \<Rightarrow> u32) \<Rightarrow> addr \<Rightarrow> addr \<Rightarrow> bool" where
  "hashmapIntEquals mem keyA keyB = (mem keyA = mem keyB)"

section \<open>The invariant and the entries of a table\<close>

definition callbacks_ok :: "('k \<Rightarrow> u32) \<Rightarrow> ('k \<Rightarrow> 'k \<Rightarrow> bool) \<Rightarrow> bool" where
  "callbacks_ok hash equals \<longleftrightarrow> (\<forall>a b. equals a b \<longrightarrow> equals b a \<and> hash a = hash b) \<and>
     (\<forall>a b c. equals a b \<longrightarrow> equals b c \<longrightarrow> equals a c)"

definition same :: "('k \<Rightarrow> 'k \<Rightarrow> bool) \<Rightarrow> 'k \<Rightarrow> 'k \<Rightarrow> bool" where
  "same equals a b \<longleftrightarrow> a = b \<or> equals a b"

abbreviation entries :: "('k, 'v) hashmap \<Rightarrow> ('k, 'v) entry list" where
  "entries m \<equiv> concat (hm_buckets m)"

definition placed :: "u64 \<Rightarrow> ('k, 'v) entry list list \<Rightarrow> bool" where
  "placed n bs \<longleftrightarrow> (\<forall>i < length bs. \<forall>e \<in> set (bs ! i). calculateIndex n (e_hash e) = i)"

definition hm_ok :: "('k, 'v) hashmap \<Rightarrow> bool" where
  "hm_ok m \<longleftrightarrow> (\<exists>k < 63. hm_bucketCount m = 2 ^ k \<and> length (hm_buckets m) = 2 ^ k) \<and>
     placed (hm_bucketCount m) (hm_buckets m) \<and> (\<forall>e \<in> set (entries m). e_hash e = hashKey (hm_hash m) (e_key e)) \<and>
     distinct (map (\<lambda>e. {k. same (hm_equals m) (e_key e) k}) (entries m)) \<and> hm_size m = word_of_nat (length (entries m))"

text \<open>The table as a partial function; the inner option is the stored pointer.\<close>

definition hm_map :: "('k, 'v) hashmap \<Rightarrow> 'k \<Rightarrow> 'v option option" where
  "hm_map m k = map_option e_value (find (\<lambda>e. same (hm_equals m) (e_key e) k)
     (hm_buckets m ! calculateIndex (hm_bucketCount m) (hashKey (hm_hash m) k)))"

lemma calculateIndex_less: "k < 64 \<Longrightarrow> calculateIndex (2 ^ k) h < 2 ^ k"
proof -
  assume "k < 64"
  have "scast h AND (2 ^ k - 1) = take_bit k (scast h :: u64)"
    by (simp add: take_bit_eq_mask mask_eq_exp_minus_1)
  then show ?thesis using \<open>k < 64\<close> by (simp add: calculateIndex_def unsigned_take_bit_eq take_bit_nat_less_exp)
qed

lemma unat_pow2_u64: "k < 64 \<Longrightarrow> unat (2 ^ k :: u64) = 2 ^ k"
proof -
  assume "k < 64"
  then have "(2 :: nat) ^ k < 2 ^ 64" by (intro power_strict_increasing) auto
  moreover have "(2 ^ k :: u64) = word_of_nat (2 ^ k)" by simp
  ultimately show ?thesis by (simp only: unat_of_nat len_num1 len_bit0) (simp add: mod_less)
qed

lemma in_concat_iff: "e \<in> set (concat bs) \<longleftrightarrow> (\<exists>j < length bs. e \<in> set (bs ! j))"
  by (induction bs) (auto simp: less_Suc_eq_0_disj)

lemma mset_concat_update:
  assumes "i < length bs"
  shows "mset (concat (bs[i := c])) + mset (bs ! i) = mset (concat bs) + mset c"
proof -
  have "concat bs = concat (take i bs) @ bs ! i @ concat (drop (Suc i) bs)"
    using assms by (metis concat.simps(2) concat_append id_take_nth_drop)
  moreover have "concat (bs[i := c]) = concat (take i bs) @ c @ concat (drop (Suc i) bs)"
    using assms by (simp add: upd_conv_take_nth_drop)
  ultimately show ?thesis by simp
qed

lemma mset_move_entry:
  assumes "calculateIndex n (e_hash e) < length nb"
  shows "mset (concat (move_entry n nb e)) = add_mset e (mset (concat nb))"
proof -
  let ?i = "calculateIndex n (e_hash e)"
  have "mset (concat (nb[?i := e # nb ! ?i])) + mset (nb ! ?i) = mset (concat nb) + mset (e # nb ! ?i)"
    using assms by (rule mset_concat_update)
  then show ?thesis by (simp add: move_entry_def Let_def)
qed

lemma move_chain:
  assumes "length nb = 2 ^ k" "k < 64" "placed (2 ^ k) nb"
  shows "length (foldl (move_entry (2 ^ k)) nb chain) = 2 ^ k \<and> placed (2 ^ k) (foldl (move_entry (2 ^ k)) nb chain) \<and>
    mset (concat (foldl (move_entry (2 ^ k)) nb chain)) = mset (concat nb) + mset chain"
  using assms
proof (induction chain arbitrary: nb)
  case (Cons e chain)
  have i: "calculateIndex (2 ^ k) (e_hash e) < length nb" using Cons.prems calculateIndex_less by simp
  have "placed (2 ^ k) (move_entry (2 ^ k) nb e)"
    using Cons.prems(3) i by (auto simp: placed_def move_entry_def Let_def nth_list_update)
  moreover have "length (move_entry (2 ^ k) nb e) = 2 ^ k" using Cons.prems by (simp add: move_entry_def Let_def)
  ultimately show ?case using Cons.IH [of "move_entry (2 ^ k) nb e"] Cons.prems(2) mset_move_entry [OF i] by simp
qed simp

lemma move_buckets:
  assumes "length nb = 2 ^ k" "k < 64" "placed (2 ^ k) nb"
  shows "length (foldl (\<lambda>nb chain. foldl (move_entry (2 ^ k)) nb chain) nb bs) = 2 ^ k \<and>
    placed (2 ^ k) (foldl (\<lambda>nb chain. foldl (move_entry (2 ^ k)) nb chain) nb bs) \<and>
    mset (concat (foldl (\<lambda>nb chain. foldl (move_entry (2 ^ k)) nb chain) nb bs)) = mset (concat nb) + mset (concat bs)"
  using assms
proof (induction bs arbitrary: nb)
  case (Cons b bs)
  have "length (foldl (move_entry (2 ^ k)) nb b) = 2 ^ k" "placed (2 ^ k) (foldl (move_entry (2 ^ k)) nb b)"
    "mset (concat (foldl (move_entry (2 ^ k)) nb b)) = mset (concat nb) + mset b"
    using move_chain [OF Cons.prems, of b] by simp_all
  then show ?case using Cons.IH [of "foldl (move_entry (2 ^ k)) nb b"] Cons.prems(2) by simp
qed simp

lemma placed_empty: "placed n (replicate k [])"
  by (simp add: placed_def)

text \<open>Expansion keeps the entries.\<close>

lemma expand_ok:
  assumes "hm_ok m" "hm_bucketCount m < 2 ^ 60"
  shows "hm_ok (expandIfNecessary al m) \<and> mset (entries (expandIfNecessary al m)) = mset (entries m) \<and>
    hm_hash (expandIfNecessary al m) = hm_hash m \<and> hm_equals (expandIfNecessary al m) = hm_equals m \<and>
    hm_size (expandIfNecessary al m) = hm_size m"
proof (cases "hm_size m > hm_bucketCount m * 3 div 4 \<and> al")
  case False
  then show ?thesis using assms(1) by (auto simp: expandIfNecessary_def Let_def)
next
  case True
  obtain k where k: "k < 63" "hm_bucketCount m = 2 ^ k" "length (hm_buckets m) = 2 ^ k" using assms(1) by (auto simp: hm_ok_def)
  have "k < 60"
  proof (rule ccontr)
    assume "\<not> k < 60"
    then have "(2 :: nat) ^ 60 \<le> 2 ^ k" by (intro power_increasing) auto
    moreover have "unat (2 ^ k :: u64) = 2 ^ k" using k(1) by (simp add: unat_pow2_u64)
    ultimately show False using assms(2) by (simp add: k(2) word_less_nat_alt)
  qed
  have n: "push_bit 1 (2 ^ k :: u64) = 2 ^ Suc k" by (simp add: push_bit_eq_mult)
  have u: "unat (2 ^ Suc k :: u64) = 2 ^ Suc k" using \<open>k < 60\<close> by (simp add: unat_pow2_u64 del: power_Suc)
  define nb where "nb = foldl (\<lambda>nb chain. foldl (move_entry (2 ^ Suc k)) nb chain) (replicate (2 ^ Suc k) []) (hm_buckets m)"
  have nb: "length nb = 2 ^ Suc k" "placed (2 ^ Suc k) nb" "mset (concat nb) = mset (entries m)"
    using move_buckets [of "replicate (2 ^ Suc k) []" "Suc k" "hm_buckets m"] \<open>k < 60\<close>
    by (simp_all add: nb_def placed_empty del: power_Suc)
  have e: "expandIfNecessary al m = m\<lparr>hm_buckets := nb, hm_bucketCount := 2 ^ Suc k\<rparr>"
    using True unfolding expandIfNecessary_def Let_def k(2) n u nb_def by simp
  have "distinct (map f (concat nb)) = distinct (map f (entries m))" for f :: "('a, 'b) entry \<Rightarrow> 'a set"
    using nb(3) by (metis mset_eq_imp_distinct_iff mset_map)
  moreover have "set (concat nb) = set (entries m)" "length (concat nb) = length (entries m)"
    using nb(3) mset_eq_setD mset_eq_length by blast+
  ultimately have "hm_ok (expandIfNecessary al m)"
    using assms(1) nb(1,2) \<open>k < 60\<close> unfolding hm_ok_def e by (auto simp del: power_Suc intro!: exI [of _ "Suc k"])
  then show ?thesis using nb(3) by (simp add: e)
qed


section \<open>The table as a map\<close>

locale hash_callbacks =
  fixes hash :: "'k \<Rightarrow> u32" and equals :: "'k \<Rightarrow> 'k \<Rightarrow> bool"
  assumes callbacks: "callbacks_ok hash equals"
begin

lemma same_hash: "same equals a b \<Longrightarrow> hashKey hash a = hashKey hash b"
proof -
  assume "same equals a b"
  then have "hash a = hash b" using callbacks unfolding same_def callbacks_ok_def by blast
  then show ?thesis by (simp only: hashKey_def)
qed

lemma same_sym: "same equals a b \<Longrightarrow> same equals b a"
  using callbacks unfolding same_def callbacks_ok_def by blast

lemma same_trans: "same equals a b \<Longrightarrow> same equals b c \<Longrightarrow> same equals a c"
  unfolding same_def using callbacks [unfolded callbacks_ok_def, THEN conjunct2] by (elim disjE) simp_all

lemma same_refl: "same equals a a"
  by (simp add: same_def)

lemma class_eq: "{x. same equals a x} = {x. same equals b x} \<longleftrightarrow> same equals a b"
proof
  assume "{x. same equals a x} = {x. same equals b x}"
  then show "same equals a b" using same_refl [of b] by blast
next
  assume "same equals a b"
  then show "{x. same equals a x} = {x. same equals b x}" using same_sym same_trans by blast
qed

lemma equalKeys_same:
  assumes "h = hashKey hash a"
  shows "equalKeys a h key (hashKey hash key) equals \<longleftrightarrow> same equals a key"
  using assms same_hash [of a key] by (auto simp: equalKeys_def same_def)

lemma walk_split:
  assumes "\<forall>e \<in> set chain. e_hash e = hashKey hash (e_key e)"
  shows "walk equals key (hashKey hash key) chain =
    (takeWhile (\<lambda>e. \<not> same equals (e_key e) key) chain, dropWhile (\<lambda>e. \<not> same equals (e_key e) key) chain)"
  using assms by (induction chain) (auto simp: equalKeys_same)

text \<open>A key is looked up correctly in any well-formed table with these callbacks.\<close>

lemma find_unique:
  assumes "distinct (map (\<lambda>e. {k. same equals (e_key e) k}) es)" "e \<in> set es" "e' \<in> set es"
    "same equals (e_key e) k" "same equals (e_key e') k"
  shows "e = e'"
proof -
  have "same equals (e_key e) (e_key e')" using assms(4,5) same_sym same_trans by blast
  then have "{k. same equals (e_key e) k} = {k. same equals (e_key e') k}" by (simp only: class_eq)
  moreover have "inj_on (\<lambda>e. {k. same equals (e_key e) k}) (set es)" using assms(1) by (simp add: distinct_map)
  ultimately show ?thesis using assms(2,3) by (auto dest: inj_onD)
qed

lemma hm_map_iff:
  assumes "hm_ok m" "hm_hash m = hash" "hm_equals m = equals"
  shows "hm_map m k = Some v \<longleftrightarrow> (\<exists>e \<in> set (entries m). same equals (e_key e) k \<and> e_value e = v)"
proof -
  let ?i = "calculateIndex (hm_bucketCount m) (hashKey hash k)"
  have i: "?i < length (hm_buckets m)" using assms(1) calculateIndex_less by (auto simp: hm_ok_def)
  have sub: "e \<in> set (hm_buckets m ! ?i)" if mem: "e \<in> set (entries m)" and sm: "same equals (e_key e) k" for e
  proof -
    obtain j where j: "j < length (hm_buckets m)" "e \<in> set (hm_buckets m ! j)"
      using mem unfolding in_concat_iff by blast
    have "e_hash e = hashKey hash (e_key e)" using assms(1,2) mem unfolding hm_ok_def by blast
    then have "e_hash e = hashKey hash k" using same_hash [OF sm] by simp
    then have "j = ?i" using j assms(1) unfolding hm_ok_def placed_def by metis
    then show ?thesis using j by simp
  qed
  have up: "e \<in> set (entries m)" if "e \<in> set (hm_buckets m ! ?i)" for e
    unfolding in_concat_iff using i that by blast
  have un: "e = e'" if "e \<in> set (hm_buckets m ! ?i)" "e' \<in> set (hm_buckets m ! ?i)"
      "same equals (e_key e) k" "same equals (e_key e') k" for e e'
  proof (rule find_unique [OF _ up up])
    show "distinct (map (\<lambda>e. {k. same equals (e_key e) k}) (entries m))"
      using assms(1,3) unfolding hm_ok_def by blast
  qed (use that in auto)
  show ?thesis
  proof
    assume "hm_map m k = Some v"
    then obtain e where "find (\<lambda>e. same equals (e_key e) k) (hm_buckets m ! ?i) = Some e" "e_value e = v"
      using assms by (auto simp: hm_map_def)
    moreover from this(1) have "e \<in> set (hm_buckets m ! ?i)" "same equals (e_key e) k" by (auto simp: find_Some_iff)
    moreover from this(1) have "e \<in> set (entries m)" using i unfolding in_concat_iff by blast
    ultimately show "\<exists>e \<in> set (entries m). same equals (e_key e) k \<and> e_value e = v" by blast
  next
    assume "\<exists>e \<in> set (entries m). same equals (e_key e) k \<and> e_value e = v"
    then obtain e where e: "e \<in> set (hm_buckets m ! ?i)" "same equals (e_key e) k" "e_value e = v" using sub by blast
    then obtain e' where f: "find (\<lambda>e. same equals (e_key e) k) (hm_buckets m ! ?i) = Some e'"
      by (metis (mono_tags, lifting) find_None_iff not_None_eq)
    then have "e' \<in> set (hm_buckets m ! ?i)" "same equals (e_key e') k" by (auto simp: find_Some_iff)
    then show "hm_map m k = Some v" using un [of e e'] e f assms by (simp add: hm_map_def)
  qed
qed

abbreviation wf :: "('k, 'v) hashmap \<Rightarrow> bool" where
  "wf m \<equiv> hm_ok m \<and> hm_hash m = hash \<and> hm_equals m = equals"

abbreviation key_index :: "('k, 'v) hashmap \<Rightarrow> 'k \<Rightarrow> nat" where
  "key_index m key \<equiv> calculateIndex (hm_bucketCount m) (hashKey hash key)"

lemma key_index_less: "wf m \<Longrightarrow> key_index m key < length (hm_buckets m)"
  using calculateIndex_less by (auto simp: hm_ok_def)

lemma wf_hash: "wf m \<Longrightarrow> i < length (hm_buckets m) \<Longrightarrow> e \<in> set (hm_buckets m ! i) \<Longrightarrow>
    e_hash e = hashKey hash (e_key e) \<and> calculateIndex (hm_bucketCount m) (e_hash e) = i"
proof -
  assume a: "wf m" "i < length (hm_buckets m)" "e \<in> set (hm_buckets m ! i)"
  then have "e \<in> set (entries m)" unfolding in_concat_iff by blast
  then show ?thesis using a unfolding hm_ok_def placed_def by blast
qed

lemma wf_walk:
  assumes "wf m"
  shows "walk equals key (hashKey hash key) (hm_buckets m ! key_index m key) =
    (takeWhile (\<lambda>e. \<not> same equals (e_key e) key) (hm_buckets m ! key_index m key),
     dropWhile (\<lambda>e. \<not> same equals (e_key e) key) (hm_buckets m ! key_index m key))"
  using wf_hash [OF assms key_index_less [OF assms]] by (intro walk_split) blast

text \<open>The two outcomes of the walk.\<close>

lemma walk_cases:
  assumes "wf m"
  obtains (absent) before where "walk equals key (hashKey hash key) (hm_buckets m ! key_index m key) = (before, [])"
      "hm_buckets m ! key_index m key = before" "hm_map m key = None"
  | (present) before current rest where
      "walk equals key (hashKey hash key) (hm_buckets m ! key_index m key) = (before, current # rest)"
      "hm_buckets m ! key_index m key = before @ current # rest" "same equals (e_key current) key"
      "hm_map m key = Some (e_value current)"
proof -
  let ?P = "\<lambda>e. same equals (e_key e) key" and ?b = "hm_buckets m ! key_index m key"
  define tw where "tw = takeWhile (\<lambda>e. \<not> ?P e) ?b"
  define dw where "dw = dropWhile (\<lambda>e. \<not> ?P e) ?b"
  have s: "?b = tw @ dw" by (simp add: tw_def dw_def)
  have w: "walk equals key (hashKey hash key) ?b = (tw, dw)" using wf_walk [OF assms, of key] by (simp only: tw_def dw_def)
  have "find ?P ?b = (case dw of [] \<Rightarrow> None | x # _ \<Rightarrow> Some x)"
    using find_dropWhile [of ?P ?b] by (simp only: o_def dw_def)
  then have m: "hm_map m key = map_option e_value (case dw of [] \<Rightarrow> None | x # _ \<Rightarrow> Some x)"
    using assms by (simp add: hm_map_def)
  have p: "?P c" if "dw = c # r" for c r using that unfolding dw_def dropWhile_eq_Cons_conv by blast
  show ?thesis
  proof (cases dw)
    case Nil
    then show ?thesis using absent w s m by simp
  next
    case (Cons c r)
    then show ?thesis using present w s m p by simp
  qed
qed

lemma get_map:
  assumes "wf m"
  shows "hashmapGet m key = (case hm_map m key of None \<Rightarrow> None | Some v \<Rightarrow> v)"
  by (rule walk_cases [OF assms, of key]) (use assms in \<open>simp_all add: hashmapGet_def Let_def\<close>)

lemma contains_map:
  assumes "wf m"
  shows "hashmapContainsKey m key \<longleftrightarrow> hm_map m key \<noteq> None"
  by (rule walk_cases [OF assms, of key]) (use assms in \<open>simp_all add: hashmapContainsKey_def Let_def\<close>)

lemma absent_iff: "wf m \<Longrightarrow> hm_map m key = None \<longleftrightarrow> (\<forall>e \<in> set (entries m). \<not> same equals (e_key e) key)"
proof -
  assume "wf m"
  then have "(\<exists>v. hm_map m key = Some v) \<longleftrightarrow> (\<exists>e \<in> set (entries m). same equals (e_key e) key)"
    using hm_map_iff [of m key] by blast
  then show ?thesis using not_None_eq [of "hm_map m key"] by blast
qed

text \<open>Exchanging a piece of a chain.\<close>

lemma exchange_mset:
  assumes "i < length bs" "bs ! i = A @ X @ B"
  shows "mset (concat (bs[i := A @ Y @ B])) + mset X = mset (concat bs) + mset Y"
  using mset_concat_update [OF assms(1), of "A @ Y @ B"] assms(2) by simp

lemma exchange_wf:
  assumes "wf m" "hm_buckets m ! key_index m key = A @ X @ B"
    "m' = m\<lparr>hm_buckets := (hm_buckets m)[key_index m key := A @ Y @ B], hm_size := s\<rparr>"
    "\<forall>e \<in> set Y. e_hash e = hashKey hash key \<and> e_hash e = hashKey hash (e_key e)"
    "distinct (map (\<lambda>e. {k. same equals (e_key e) k}) (entries m'))" "s = word_of_nat (length (entries m'))"
  shows "wf m'"
proof -
  let ?i = "key_index m key"
  have i: "?i < length (hm_buckets m)" by (rule key_index_less [OF assms(1)])
  have b: "hm_buckets m' ! j = (if j = ?i then A @ Y @ B else hm_buckets m ! j)" if "j < length (hm_buckets m)" for j
    using that by (simp add: assms(3) nth_list_update)
  have e: "e_hash e = hashKey hash (e_key e) \<and> calculateIndex (hm_bucketCount m) (e_hash e) = j"
    if "j < length (hm_buckets m)" "e \<in> set (hm_buckets m' ! j)" for e j
  proof (cases "j = ?i \<and> e \<in> set Y")
    case True
    then have "e_hash e = hashKey hash key" "e_hash e = hashKey hash (e_key e)" "j = ?i" using assms(4) by blast+
    then show ?thesis by simp
  next
    case False
    then have "e \<in> set (hm_buckets m ! j)" using that b [OF that(1)] assms(2) by (auto split: if_splits)
    then show ?thesis using wf_hash [OF assms(1) that(1)] by blast
  qed
  have l: "length (hm_buckets m') = length (hm_buckets m)" "hm_bucketCount m' = hm_bucketCount m" by (simp_all add: assms(3))
  have "placed (hm_bucketCount m') (hm_buckets m')" unfolding placed_def l using e by blast
  moreover have "\<forall>e \<in> set (entries m'). e_hash e = hashKey hash (e_key e)"
  proof
    fix x assume "x \<in> set (entries m')"
    then show "e_hash x = hashKey hash (e_key x)" unfolding in_concat_iff l using e by blast
  qed
  moreover have f: "hm_hash m' = hash" "hm_equals m' = equals" "hm_size m' = s" using assms(1) by (simp_all add: assms(3))
  moreover have "\<exists>k < 63. hm_bucketCount m' = 2 ^ k \<and> length (hm_buckets m') = 2 ^ k"
    unfolding l using assms(1) unfolding hm_ok_def by blast
  ultimately show ?thesis using assms(5,6) unfolding hm_ok_def f by blast
qed

lemma option_ext: "(\<And>v. x = Some v \<longleftrightarrow> y = Some v) \<Longrightarrow> x = y"
  by (cases x; cases y) auto

text \<open>A new entry at the end of a chain.\<close>

lemma insert_wf:
  assumes "wf m" "hm_buckets m ! key_index m key = before" "hm_map m key = None"
    "e = \<lparr>e_key = key, e_hash = hashKey hash key, e_value = value\<rparr>"
    "m' = m\<lparr>hm_buckets := (hm_buckets m)[key_index m key := before @ [e]], hm_size := hm_size m + 1\<rparr>"
  shows "wf m' \<and> mset (entries m') = add_mset e (mset (entries m)) \<and>
    hm_map m' = (\<lambda>k. if same equals key k then Some value else hm_map m k)"
proof -
  let ?cls = "\<lambda>e. {k. same equals (e_key e) k}"
  have ms: "mset (entries m') = add_mset e (mset (entries m))"
    using exchange_mset [OF key_index_less [OF assms(1)], of key before "[]" "[]" "[e]"] assms(2) unfolding assms(5) by simp
  then have st: "set (entries m') = insert e (set (entries m))" by (metis set_mset_add_mset_insert set_mset_mset)
  have l: "length (entries m') = Suc (length (entries m))" using ms by (metis size_add_mset size_mset)
  have "mset (map ?cls (entries m')) = mset (?cls e # map ?cls (entries m))" using ms by simp
  then have "distinct (map ?cls (entries m')) \<longleftrightarrow> distinct (?cls e # map ?cls (entries m))"
    by (rule mset_eq_imp_distinct_iff)
  moreover have "?cls e \<notin> set (map ?cls (entries m))"
  proof
    assume "?cls e \<in> set (map ?cls (entries m))"
    then obtain x where "x \<in> set (entries m)" "?cls e = ?cls x" by (auto simp only: set_map image_iff)
    moreover from this(2) have "same equals (e_key x) (e_key e)" unfolding class_eq by (rule same_sym)
    then have "same equals (e_key x) key" by (simp add: assms(4))
    ultimately show False using absent_iff [OF assms(1), of key] assms(3) by blast
  qed
  moreover have "distinct (map ?cls (entries m))" "hm_size m = word_of_nat (length (entries m))"
    using assms(1) unfolding hm_ok_def by blast+
  ultimately have d: "distinct (map ?cls (entries m'))" and sz: "hm_size m = word_of_nat (length (entries m))" by simp_all
  have w: "wf m'"
  proof (rule exchange_wf [OF assms(1)])
    show "hm_buckets m ! key_index m key = before @ [] @ []" using assms(2) by simp
    show "m' = m\<lparr>hm_buckets := (hm_buckets m)[key_index m key := before @ [e] @ []], hm_size := hm_size m + 1\<rparr>"
      using assms(5) by simp
    show "\<forall>x \<in> set [e]. e_hash x = hashKey hash key \<and> e_hash x = hashKey hash (e_key x)" by (simp add: assms(4))
    show "distinct (map ?cls (entries m'))" by (rule d)
    show "hm_size m + 1 = word_of_nat (length (entries m'))" unfolding l sz by simp
  qed
  have k: "e_key e = key" "e_value e = value" by (simp_all add: assms(4))
  have "hm_map m' x = (if same equals key x then Some value else hm_map m x)" for x
  proof (rule option_ext)
    fix v
    have "hm_map m' x = Some v \<longleftrightarrow> (\<exists>y \<in> set (entries m'). same equals (e_key y) x \<and> e_value y = v)"
      by (rule hm_map_iff) (use w in auto)
    also have "\<dots> \<longleftrightarrow> (same equals (e_key e) x \<and> e_value e = v) \<or> (\<exists>y \<in> set (entries m). same equals (e_key y) x \<and> e_value y = v)"
      unfolding st by blast
    also have "\<dots> \<longleftrightarrow> (same equals key x \<and> value = v) \<or> hm_map m x = Some v"
      unfolding k using hm_map_iff [of m x v] assms(1) by blast
    finally have "hm_map m' x = Some v \<longleftrightarrow> (same equals key x \<and> value = v) \<or> hm_map m x = Some v" .
    moreover have "hm_map m x = None" if "same equals key x"
      using assms(3) absent_iff [OF assms(1)] that same_sym same_trans by blast
    ultimately show "hm_map m' x = Some v \<longleftrightarrow> (if same equals key x then Some value else hm_map m x) = Some v" by auto
  qed
  then show ?thesis using w ms by blast
qed

text \<open>The entries other than the one found.\<close>

lemma others:
  assumes "wf m" "hm_buckets m ! key_index m key = before @ current # rest" "same equals (e_key current) key"
  obtains R where "mset (entries m) = add_mset current (mset R)"
    "distinct (map (\<lambda>e. {k. same equals (e_key e) k}) (current # R))"
    "\<And>x v. hm_map m x = Some v \<longleftrightarrow> (same equals key x \<and> e_value current = v) \<or> (\<exists>e \<in> set R. same equals (e_key e) x \<and> e_value e = v)"
    "\<And>e x. e \<in> set R \<Longrightarrow> same equals key x \<Longrightarrow> \<not> same equals (e_key e) x"
proof -
  let ?cls = "\<lambda>e. {k. same equals (e_key e) k}"
  have "current \<in> set (hm_buckets m ! key_index m key)" using assms(2) by simp
  then have c: "current \<in> set (entries m)" unfolding in_concat_iff using key_index_less [OF assms(1)] by blast
  define R where "R = remove1 current (entries m)"
  have ms: "mset (entries m) = add_mset current (mset R)" using c by (simp add: R_def)
  then have "mset (map ?cls (entries m)) = mset (map ?cls (current # R))" by simp
  then have "distinct (map ?cls (entries m)) \<longleftrightarrow> distinct (map ?cls (current # R))" by (rule mset_eq_imp_distinct_iff)
  moreover have "distinct (map ?cls (entries m))" using assms(1) unfolding hm_ok_def by blast
  ultimately have d: "distinct (map ?cls (current # R))" by blast
  have st: "set (entries m) = insert current (set R)" using ms by (metis set_mset_add_mset_insert set_mset_mset)
  have ck: "same equals (e_key current) x \<longleftrightarrow> same equals key x" for x using assms(3) same_sym same_trans by blast
  have m: "hm_map m x = Some v \<longleftrightarrow> (same equals key x \<and> e_value current = v) \<or> (\<exists>e \<in> set R. same equals (e_key e) x \<and> e_value e = v)" for x v
  proof -
    have "hm_map m x = Some v \<longleftrightarrow> (\<exists>e \<in> set (entries m). same equals (e_key e) x \<and> e_value e = v)"
      by (rule hm_map_iff) (use assms(1) in auto)
    then show ?thesis unfolding st using ck by blast
  qed
  have o: "\<not> same equals (e_key e) x" if "e \<in> set R" "same equals key x" for e x
  proof
    assume "same equals (e_key e) x"
    then have "same equals (e_key current) (e_key e)" using that(2) ck same_sym same_trans by blast
    then have "?cls current = ?cls e" unfolding class_eq .
    then have "?cls current \<in> ?cls ` set R" using that(1) by (rule image_eqI)
    then show False using d by simp
  qed
  show ?thesis by (rule that [OF ms d m o])
qed

lemma replace_wf:
  assumes "wf m" "hm_buckets m ! key_index m key = before @ current # rest" "same equals (e_key current) key"
    "m' = m\<lparr>hm_buckets := (hm_buckets m)[key_index m key := before @ current\<lparr>e_value := value\<rparr> # rest]\<rparr>"
  shows "wf m' \<and> hm_map m' = (\<lambda>k. if same equals key k then Some value else hm_map m k)"
proof -
  let ?cls = "\<lambda>e. {k. same equals (e_key e) k}" and ?new = "current\<lparr>e_value := value\<rparr>"
  obtain R where R: "mset (entries m) = add_mset current (mset R)" "distinct (map ?cls (current # R))"
    "\<And>x v. hm_map m x = Some v \<longleftrightarrow> (same equals key x \<and> e_value current = v) \<or> (\<exists>e \<in> set R. same equals (e_key e) x \<and> e_value e = v)"
    "\<And>e x. e \<in> set R \<Longrightarrow> same equals key x \<Longrightarrow> \<not> same equals (e_key e) x"
    using others [OF assms(1-3)] by blast
  have "mset (entries m') + mset [current] = mset (entries m) + mset [?new]"
    using exchange_mset [OF key_index_less [OF assms(1)], of key before "[current]" rest "[?new]"] assms(2) unfolding assms(4) by simp
  then have ms: "mset (entries m') = add_mset ?new (mset R)" using R(1) by simp
  then have st: "set (entries m') = insert ?new (set R)" by (metis set_mset_add_mset_insert set_mset_mset)
  have l: "length (entries m') = length (entries m)" using ms R(1) by (metis size_add_mset size_mset)
  have "mset (map ?cls (entries m')) = mset (map ?cls (current # R))" using ms by simp
  then have d: "distinct (map ?cls (entries m'))" using R(2) mset_eq_imp_distinct_iff by blast
  have sz: "hm_size m = word_of_nat (length (entries m))" using assms(1) unfolding hm_ok_def by blast
  have i: "current \<in> set (hm_buckets m ! key_index m key)" using assms(2) by simp
  have w: "wf m'"
  proof (rule exchange_wf [OF assms(1)])
    show "hm_buckets m ! key_index m key = before @ [current] @ rest" using assms(2) by simp
    show "m' = m\<lparr>hm_buckets := (hm_buckets m)[key_index m key := before @ [?new] @ rest], hm_size := hm_size m\<rparr>"
      unfolding assms(4) by (cases m) simp
    show "\<forall>x \<in> set [?new]. e_hash x = hashKey hash key \<and> e_hash x = hashKey hash (e_key x)"
      using wf_hash [OF assms(1) key_index_less [OF assms(1)] i] same_hash [OF assms(3)] by simp
    show "distinct (map ?cls (entries m'))" by (rule d)
    show "hm_size m = word_of_nat (length (entries m'))" unfolding l by (rule sz)
  qed
  have ck: "same equals (e_key ?new) x \<longleftrightarrow> same equals key x" for x using assms(3) same_sym same_trans by (metis entry.select_convs(1) entry.surjective entry.update_convs(3))
  have "hm_map m' x = (if same equals key x then Some value else hm_map m x)" for x
  proof (rule option_ext)
    fix v
    have "hm_map m' x = Some v \<longleftrightarrow> (\<exists>y \<in> set (entries m'). same equals (e_key y) x \<and> e_value y = v)"
      by (rule hm_map_iff) (use w in auto)
    also have "\<dots> \<longleftrightarrow> (same equals key x \<and> value = v) \<or> (\<exists>y \<in> set R. same equals (e_key y) x \<and> e_value y = v)"
      unfolding st using ck [of x] by simp
    finally show "hm_map m' x = Some v \<longleftrightarrow> (if same equals key x then Some value else hm_map m x) = Some v"
      using R(3) [of x v] R(4) [of _ x] by auto
  qed
  then show ?thesis using w by blast
qed

lemma remove_wf:
  assumes "wf m" "hm_buckets m ! key_index m key = before @ current # rest" "same equals (e_key current) key"
    "m' = m\<lparr>hm_buckets := (hm_buckets m)[key_index m key := before @ rest], hm_size := hm_size m - 1\<rparr>"
  shows "wf m' \<and> hm_map m' = (\<lambda>k. if same equals key k then None else hm_map m k)"
proof -
  let ?cls = "\<lambda>e. {k. same equals (e_key e) k}"
  obtain R where R: "mset (entries m) = add_mset current (mset R)" "distinct (map ?cls (current # R))"
    "\<And>x v. hm_map m x = Some v \<longleftrightarrow> (same equals key x \<and> e_value current = v) \<or> (\<exists>e \<in> set R. same equals (e_key e) x \<and> e_value e = v)"
    "\<And>e x. e \<in> set R \<Longrightarrow> same equals key x \<Longrightarrow> \<not> same equals (e_key e) x"
    using others [OF assms(1-3)] by blast
  have "mset (entries m') + mset [current] = mset (entries m) + mset []"
    using exchange_mset [OF key_index_less [OF assms(1)], of key before "[current]" rest "[]"] assms(2) unfolding assms(4) by simp
  then have ms: "mset (entries m') = mset R" using R(1) by simp
  have st: "set (entries m') = set R" by (rule mset_eq_setD [OF ms])
  have l: "length (entries m) = Suc (length (entries m'))" using ms R(1) by (metis size_add_mset size_mset)
  have "mset (map ?cls (entries m')) = mset (map ?cls R)" using ms by simp
  then have d: "distinct (map ?cls (entries m'))" using R(2) mset_eq_imp_distinct_iff by (metis distinct.simps(2) list.map(2))
  have sz: "hm_size m = word_of_nat (length (entries m))" using assms(1) unfolding hm_ok_def by blast
  have w: "wf m'"
  proof (rule exchange_wf [OF assms(1)])
    show "hm_buckets m ! key_index m key = before @ [current] @ rest" using assms(2) by simp
    show "m' = m\<lparr>hm_buckets := (hm_buckets m)[key_index m key := before @ [] @ rest], hm_size := hm_size m - 1\<rparr>"
      unfolding assms(4) by simp
    show "\<forall>x \<in> set []. e_hash x = hashKey hash key \<and> e_hash x = hashKey hash (e_key x)" by simp
    show "distinct (map ?cls (entries m'))" by (rule d)
    show "hm_size m - 1 = word_of_nat (length (entries m'))" unfolding sz l by simp
  qed
  have "hm_map m' x = (if same equals key x then None else hm_map m x)" for x
  proof (rule option_ext)
    fix v
    have "hm_map m' x = Some v \<longleftrightarrow> (\<exists>y \<in> set (entries m'). same equals (e_key y) x \<and> e_value y = v)"
      by (rule hm_map_iff) (use w in auto)
    then show "hm_map m' x = Some v \<longleftrightarrow> (if same equals key x then None else hm_map m x) = Some v"
      unfolding st using R(3) [of x v] R(4) [of _ x] by auto
  qed
  then show ?thesis using w by blast
qed

lemma expand_wf:
  assumes "wf m" "hm_bucketCount m < 2 ^ 60"
  shows "wf (expandIfNecessary al m) \<and> hm_map (expandIfNecessary al m) = hm_map m \<and>
    hm_size (expandIfNecessary al m) = hm_size m"
proof -
  have "hm_ok m" using assms(1) by blast
  note x = expand_ok [OF this assms(2), of al]
  have w: "wf (expandIfNecessary al m)" using x assms(1) by simp
  have st: "set (entries (expandIfNecessary al m)) = set (entries m)" using x mset_eq_setD by blast
  have "hm_map (expandIfNecessary al m) k = hm_map m k" for k
  proof (rule option_ext)
    fix v
    have "hm_map (expandIfNecessary al m) k = Some v \<longleftrightarrow> (\<exists>y \<in> set (entries (expandIfNecessary al m)). same equals (e_key y) k \<and> e_value y = v)"
      by (rule hm_map_iff) (use w in auto)
    moreover have "hm_map m k = Some v \<longleftrightarrow> (\<exists>y \<in> set (entries m). same equals (e_key y) k \<and> e_value y = v)"
      by (rule hm_map_iff) (use assms(1) in auto)
    ultimately show "hm_map (expandIfNecessary al m) k = Some v \<longleftrightarrow> hm_map m k = Some v" unfolding st by blast
  qed
  then show ?thesis using w x by blast
qed

lemma put_map:
  assumes "wf m" "hm_bucketCount m < 2 ^ 60" "hashmapPut True al m key value = (old, m')"
  shows "wf m' \<and> old = hashmapGet m key \<and> hm_map m' = (\<lambda>k. if same equals key k then Some value else hm_map m k) \<and>
    hm_size m' = (if hm_map m key = None then hm_size m + 1 else hm_size m)"
proof (rule walk_cases [OF assms(1), of key])
  fix before
  assume a: "walk equals key (hashKey hash key) (hm_buckets m ! key_index m key) = (before, [])"
    "hm_buckets m ! key_index m key = before" "hm_map m key = None"
  define e where "e = \<lparr>e_key = key, e_hash = hashKey hash key, e_value = value\<rparr>"
  define m1 where "m1 = m\<lparr>hm_buckets := (hm_buckets m)[key_index m key := before @ [e]], hm_size := hm_size m + 1\<rparr>"
  have i: "wf m1" "hm_map m1 = (\<lambda>k. if same equals key k then Some value else hm_map m k)"
    using insert_wf [OF assms(1) a(2,3) e_def m1_def] by blast+
  have p: "old = None" "m' = expandIfNecessary al m1"
    using assms(1,3) a(1) by (simp_all add: hashmapPut_def Let_def createEntry_def e_def m1_def)
  have "hm_bucketCount m1 < 2 ^ 60" using assms(2) by (simp add: m1_def)
  note x = expand_wf [OF i(1) this, of al]
  have "hm_size m1 = hm_size m + 1" by (simp add: m1_def)
  then show ?thesis using x p i(2) a(3) get_map [OF assms(1), of key] by simp
next
  fix before current rest
  assume a: "walk equals key (hashKey hash key) (hm_buckets m ! key_index m key) = (before, current # rest)"
    "hm_buckets m ! key_index m key = before @ current # rest" "same equals (e_key current) key" "hm_map m key = Some (e_value current)"
  have p: "old = e_value current" "m' = m\<lparr>hm_buckets := (hm_buckets m)[key_index m key := before @ current\<lparr>e_value := value\<rparr> # rest]\<rparr>"
    using assms(1,3) a(1) by (simp_all add: hashmapPut_def Let_def)
  have "hm_size m' = hm_size m" by (simp add: p(2))
  then show ?thesis using replace_wf [OF assms(1) a(2,3) p(2)] p(1) a(4) get_map [OF assms(1), of key] by simp
qed

lemma remove_map:
  assumes "wf m" "hashmapRemove m key = (old, m')"
  shows "wf m' \<and> old = hashmapGet m key \<and> hm_map m' = (\<lambda>k. if same equals key k then None else hm_map m k) \<and>
    hm_size m' = (if hm_map m key = None then hm_size m else hm_size m - 1)"
proof (rule walk_cases [OF assms(1), of key])
  fix before
  assume a: "walk equals key (hashKey hash key) (hm_buckets m ! key_index m key) = (before, [])" "hm_map m key = None"
  have p: "old = None" "m' = m" using assms a(1) by (simp_all add: hashmapRemove_def Let_def)
  have "hm_map m = (\<lambda>k. if same equals key k then None else hm_map m k)"
    using a(2) absent_iff [OF assms(1)] same_sym same_trans by (intro ext) (metis (full_types))
  then show ?thesis using assms(1) p a(2) get_map [OF assms(1), of key] by simp
next
  fix before current rest
  assume a: "walk equals key (hashKey hash key) (hm_buckets m ! key_index m key) = (before, current # rest)"
    "hm_buckets m ! key_index m key = before @ current # rest" "same equals (e_key current) key" "hm_map m key = Some (e_value current)"
  have p: "old = e_value current" "m' = m\<lparr>hm_buckets := (hm_buckets m)[key_index m key := before @ rest], hm_size := hm_size m - 1\<rparr>"
    using assms a(1) by (simp_all add: hashmapRemove_def Let_def)
  have "hm_size m' = hm_size m - 1" by (simp add: p(2))
  then show ?thesis using remove_wf [OF assms(1) a(2,3) p(2)] p(1) a(4) get_map [OF assms(1), of key] by simp
qed

lemma memoize_map:
  assumes "wf m" "hm_bucketCount m < 2 ^ 60" "hashmapMemoize True al m key f = (v, m')"
  shows "if hm_map m key = None then (v, m') = (f key, snd (hashmapPut True al m key (f key)))
    else (v, m') = (hashmapGet m key, m)"
proof (rule walk_cases [OF assms(1), of key])
  fix before
  assume a: "walk equals key (hashKey hash key) (hm_buckets m ! key_index m key) = (before, [])" "hm_map m key = None"
  then show ?thesis using assms by (auto simp: hashmapMemoize_def hashmapPut_def Let_def createEntry_def)
next
  fix before current rest
  assume a: "walk equals key (hashKey hash key) (hm_buckets m ! key_index m key) = (before, current # rest)"
    "hm_map m key = Some (e_value current)"
  then show ?thesis using assms get_map [OF assms(1), of key] by (simp add: hashmapMemoize_def Let_def)
qed

end

interpretation int_keys: hash_callbacks "hashmapIntHash mem" "hashmapIntEquals mem" for mem
  by unfold_locales (auto simp: callbacks_ok_def hashmapIntHash_def hashmapIntEquals_def)

section \<open>Properties\<close>

lemma grow_loop_power:
  "i \<le> 63 \<Longrightarrow> minimum < 2 ^ 63 \<Longrightarrow> \<exists>k. i \<le> k \<and> k \<le> 63 \<and> grow_loop (64 - i) minimum (2 ^ i) = Inr (2 ^ k) \<and> minimum < 2 ^ k \<and>
    (k = i \<or> 2 ^ (k - 1) \<le> minimum)"
proof (induction "63 - i" arbitrary: i)
  case 0
  then have "i = 63" by simp
  then show ?case using 0 by (intro exI [of _ 63]) (simp add: numeral_eq_Suc)
next
  case (Suc n)
  then have f: "64 - i = Suc (64 - Suc i)" "i < 63" by simp_all
  show ?case
  proof (cases "2 ^ i \<le> minimum")
    case True
    have n: "n = 63 - Suc i" using Suc.hyps(2) by simp
    have "push_bit 1 (2 ^ i :: u64) = 2 ^ Suc i" by (simp add: push_bit_eq_mult)
    moreover obtain k where "Suc i \<le> k" "k \<le> 63" "grow_loop (64 - Suc i) minimum (2 ^ Suc i) = Inr (2 ^ k)" "minimum < 2 ^ k"
        "k = Suc i \<or> 2 ^ (k - 1) \<le> minimum"
      using Suc.hyps(1) [OF n _ Suc.prems(2)] f(2) by (metis Suc_leI)
    ultimately show ?thesis using True unfolding f(1) by (intro exI [of _ k]) (auto simp del: power_Suc)
  next
    case False
    then show ?thesis unfolding f(1) by (intro exI [of _ i]) (use f(2) in auto)
  qed
qed

lemma minimum_less: "(c :: u64) * 4 div 3 < 2 ^ 63"
proof -
  have "unat (c * 4 div 3) = unat (c * 4) div 3" by (simp add: unat_div)
  also have "\<dots> < 2 ^ 63" using unsigned_less [of "c * 4", where ?'a = nat] by simp
  finally show ?thesis by (simp add: word_less_nat_alt)
qed

text \<open>
  Creating a table always ends, whatever capacity is asked for; below \<open>2\<^sup>6\<^sup>0\<close> the new table satisfies the
  invariant, holds nothing, and its capacity before the first expansion is at least the requested one.
\<close>

theorem hashmapCreate_capacity:
  "\<exists>cnt. hashmapCreate 64 True True capacity hash equals =
      Inr (Some (\<lparr>hm_buckets = replicate (unat cnt) [], hm_bucketCount = cnt, hm_hash = hash, hm_equals = equals, hm_size = 0\<rparr>
                 :: ('k, 'v) hashmap)) \<and>
    (capacity < 2 ^ 60 \<longrightarrow>
      hm_ok (\<lparr>hm_buckets = replicate (unat cnt) [], hm_bucketCount = cnt, hm_hash = hash, hm_equals = equals, hm_size = 0\<rparr>
             :: ('k, 'v) hashmap) \<and>
      capacity \<le> cnt * 3 div 4)"
proof -
  obtain k where k: "k \<le> 63" "grow_loop 64 (capacity * 4 div 3) 1 = Inr (2 ^ k)" "capacity * 4 div 3 < 2 ^ k"
      "k = 0 \<or> 2 ^ (k - 1) \<le> capacity * 4 div 3"
    using grow_loop_power [of 0 "capacity * 4 div 3"] minimum_less by auto
  have "hm_ok (\<lparr>hm_buckets = replicate (unat (2 ^ k :: u64)) [], hm_bucketCount = 2 ^ k, hm_hash = hash, hm_equals = equals, hm_size = 0\<rparr>
      :: ('k, 'v) hashmap) \<and> capacity \<le> 2 ^ k * 3 div 4" if c: "capacity < 2 ^ 60"
  proof -
    have u: "unat capacity < 2 ^ 60" using c by (simp add: word_less_nat_alt)
    then have c4: "unat (capacity * 4) = unat capacity * 4" by (simp add: unat_word_ariths)
    then have m: "unat (capacity * 4 div 3) = unat capacity * 4 div 3" by (simp add: unat_div)
    have pk: "unat (2 ^ k :: u64) = 2 ^ k" using k(1) by (simp add: unat_pow2_u64)
    have "k \<le> 61"
    proof (rule ccontr)
      assume "\<not> k \<le> 61"
      then have "(2 :: nat) ^ 61 \<le> 2 ^ (k - 1)" by (intro power_increasing) auto
      moreover have "unat (2 ^ (k - 1) :: u64) = 2 ^ (k - 1)" using k(1) by (intro unat_pow2_u64) simp
      ultimately show False using k(4) \<open>\<not> k \<le> 61\<close> u by (simp add: word_le_nat_alt m)
    qed
    have "unat capacity * 4 div 3 < 2 ^ k" using k(3) by (simp add: word_less_nat_alt m pk)
    then have "unat capacity * 4 < 2 ^ k * 3" by linarith
    moreover have "(2 :: nat) ^ k \<le> 2 ^ 61" using \<open>k \<le> 61\<close> by (intro power_increasing) auto
    then have "unat (2 ^ k * 3 :: u64) = 2 ^ k * 3" by (simp add: unat_word_ariths pk)
    then have "unat (2 ^ k * 3 div 4 :: u64) = 2 ^ k * 3 div 4" by (simp add: unat_div)
    ultimately have "capacity \<le> 2 ^ k * 3 div 4" by (simp add: word_le_nat_alt)
    moreover have "concat (replicate n []) = ([] :: ('k, 'v) entry list)" for n by (induction n) simp_all
    ultimately show ?thesis using \<open>k \<le> 61\<close> by (auto simp: hm_ok_def placed_def pk intro!: exI [of _ k])
  qed
  then show ?thesis using k(2) by (intro exI [of _ "2 ^ k"]) (simp add: hashmapCreate_def Let_def)
qed

theorem hashmapCreate_capacity_witness:
  "\<exists>cnt. hashmapCreate 64 True True 100 (hashmapIntHash (\<lambda>_. 0)) (hashmapIntEquals (\<lambda>_. 0)) =
      Inr (Some (\<lparr>hm_buckets = replicate (unat cnt) [], hm_bucketCount = cnt, hm_hash = hashmapIntHash (\<lambda>_. 0),
        hm_equals = hashmapIntEquals (\<lambda>_. 0), hm_size = 0\<rparr> :: (addr, nat) hashmap)) \<and> 100 \<le> cnt * 3 div 4"
  using hashmapCreate_capacity [of 100 "hashmapIntHash (\<lambda>_. 0)" "hashmapIntEquals (\<lambda>_. 0)"] by auto

text \<open>
  C39. Storing under a key in a well-formed table: the invariant is kept, the previous value is returned, the new
  value is found under every equal key and every other key keeps what it had, also when the table is expanded or the
  expansion cannot be allocated; the size grows by one exactly when the key was new.
\<close>

theorem hashmapPut_map:
  assumes "callbacks_ok (hm_hash m) (hm_equals m)" "hm_ok m" "hm_bucketCount m < 2 ^ 60"
  shows "case hashmapPut True al m key v of (old, m') \<Rightarrow>
    hm_ok m' \<and> hm_hash m' = hm_hash m \<and> hm_equals m' = hm_equals m \<and> old = hashmapGet m key \<and>
    (\<forall>k. hashmapGet m' k = (if same (hm_equals m) key k then v else hashmapGet m k)) \<and>
    (\<forall>k. hashmapContainsKey m' k \<longleftrightarrow> same (hm_equals m) key k \<or> hashmapContainsKey m k) \<and>
    hashmapSize m' = (if hashmapContainsKey m key then hashmapSize m else hashmapSize m + 1)"
proof -
  obtain old m' where p: "hashmapPut True al m key v = (old, m')" by fastforce
  have L: "hash_callbacks (hm_hash m) (hm_equals m)" using assms(1) by unfold_locales
  have w: "hm_ok m \<and> hm_hash m = hm_hash m \<and> hm_equals m = hm_equals m" using assms(2) by simp
  note x = hash_callbacks.put_map [OF L w assms(3) p]
  have w': "hm_ok m' \<and> hm_hash m' = hm_hash m \<and> hm_equals m' = hm_equals m" using x by blast
  show ?thesis unfolding p prod.case
    using x hash_callbacks.get_map [OF L w] hash_callbacks.get_map [OF L w']
      hash_callbacks.contains_map [OF L w] hash_callbacks.contains_map [OF L w']
    by (simp add: hashmapSize_def)
qed

text \<open>A table of one bucket with one entry, keyed by pointers to integers.\<close>

definition demo_map :: "(addr, nat) hashmap" where
  "demo_map = \<lparr>hm_buckets = [[\<lparr>e_key = 7, e_hash = hashKey (hashmapIntHash word_of_nat) 7, e_value = Some 70\<rparr>]],
    hm_bucketCount = 1, hm_hash = hashmapIntHash word_of_nat, hm_equals = hashmapIntEquals word_of_nat, hm_size = 1\<rparr>"

lemma demo_map_ok:
  "callbacks_ok (hm_hash demo_map) (hm_equals demo_map)" "hm_ok demo_map" "hm_bucketCount demo_map < 2 ^ 60"
proof -
  have "calculateIndex 1 h = 0" for h by (simp add: calculateIndex_def)
  then show "hm_ok demo_map" by (auto simp: demo_map_def hm_ok_def placed_def intro!: exI [of _ 0])
qed (simp_all add: demo_map_def int_keys.callbacks)

lemma demo_map_get: "hashmapGet demo_map 7 = Some 70" "hashmapGet demo_map 8 = None"
    "same (hm_equals demo_map) 8 8" "\<not> same (hm_equals demo_map) 8 7" "same (hm_equals demo_map) 7 7"
  by (simp_all add: demo_map_def hashmapGet_def Let_def calculateIndex_def equalKeys_def same_def hashmapIntEquals_def)

theorem hashmapPut_map_witness:
  "case hashmapPut True True demo_map 8 (Some 80) of (old, m') \<Rightarrow> old = None \<and> hashmapGet m' 8 = Some 80 \<and> hashmapGet m' 7 = Some 70"
  using hashmapPut_map [OF demo_map_ok, where al = True and key = 8 and v = "Some 80"] by (auto simp: demo_map_get split: prod.splits)

text \<open>
  C40. Removing a key from a well-formed table: the invariant is kept, the stored value is returned, equal keys are
  no longer found and every other key keeps what it had; the size shrinks exactly when the key was present.
\<close>

theorem hashmapRemove_map:
  assumes "callbacks_ok (hm_hash m) (hm_equals m)" "hm_ok m"
  shows "case hashmapRemove m key of (old, m') \<Rightarrow>
    hm_ok m' \<and> hm_hash m' = hm_hash m \<and> hm_equals m' = hm_equals m \<and> old = hashmapGet m key \<and>
    (\<forall>k. hashmapGet m' k = (if same (hm_equals m) key k then None else hashmapGet m k)) \<and>
    (\<forall>k. hashmapContainsKey m' k \<longleftrightarrow> \<not> same (hm_equals m) key k \<and> hashmapContainsKey m k) \<and>
    hashmapSize m' = (if hashmapContainsKey m key then hashmapSize m - 1 else hashmapSize m)"
proof -
  obtain old m' where p: "hashmapRemove m key = (old, m')" by fastforce
  have L: "hash_callbacks (hm_hash m) (hm_equals m)" using assms(1) by unfold_locales
  have w: "hm_ok m \<and> hm_hash m = hm_hash m \<and> hm_equals m = hm_equals m" using assms(2) by simp
  note x = hash_callbacks.remove_map [OF L w p]
  have w': "hm_ok m' \<and> hm_hash m' = hm_hash m \<and> hm_equals m' = hm_equals m" using x by blast
  show ?thesis unfolding p prod.case
    using x hash_callbacks.get_map [OF L w] hash_callbacks.get_map [OF L w']
      hash_callbacks.contains_map [OF L w] hash_callbacks.contains_map [OF L w']
    by (simp add: hashmapSize_def)
qed

theorem hashmapRemove_map_witness:
  "case hashmapRemove demo_map 7 of (old, m') \<Rightarrow> old = Some 70 \<and> \<not> hashmapContainsKey m' 7"
  using hashmapRemove_map [OF demo_map_ok(1,2), of 7] by (auto simp: demo_map_get split: prod.splits)

end
