(* ===== verification/Boot_Img.thy ===== *)
theory Boot_Img
  imports Posix_File Sha
begin

text \<open>
  Boot images: the header of \<^verbatim>\<open>mkbootimg/bootimg.h\<close>, the program \<^verbatim>\<open>mkbootimg/mkbootimg.c\<close> (arguments,
  loading of the parts, the identifying hash, the paged layout, the clean-up after a failed write)
  and the in-memory builder \<^verbatim>\<open>fastboot/bootimg.c\<close>.  The host is a record of what the system calls
  see: the regular files by name, which of them may be opened, how reads and writes behave, and which
  allocations succeed.  Messages to the terminal are left out.
\<close>

section \<open>Strings and numbers of the C library\<close>

text \<open>Program arguments are strings without a zero character; in memory they are bytes.\<close>

definition bytes_of :: "string \<Rightarrow> byte list" where
  "bytes_of s = map of_char s"

definition c_str :: "string \<Rightarrow> bool" where
  "c_str s \<longleftrightarrow> 0 \<notin> set (bytes_of s)"

text \<open>\<^verbatim>\<open>strncpy\<close> into a field of \<open>n\<close> bytes: the string cut to the field, or filled up with zeros.\<close>

definition strncpy :: "string \<Rightarrow> nat \<Rightarrow> byte list" where
  "strncpy s n = take n (bytes_of s) @ replicate (n - length s) 0"

definition digit_val :: "char \<Rightarrow> nat option" where
  "digit_val c = (let n = of_char c :: nat in
     if 48 \<le> n \<and> n \<le> 57 then Some (n - 48)
     else if 65 \<le> n \<and> n \<le> 90 then Some (n - 55)
     else if 97 \<le> n \<and> n \<le> 122 then Some (n - 87)
     else None)"

definition is_digit :: "nat \<Rightarrow> char \<Rightarrow> bool" where
  "is_digit base c = (case digit_val c of None \<Rightarrow> False | Some d \<Rightarrow> d < base)"

fun digits_loop :: "nat \<Rightarrow> nat \<Rightarrow> string \<Rightarrow> nat" where
  "digits_loop base acc [] = acc"
| "digits_loop base acc (c # cs) =
    (if is_digit base c then digits_loop base (acc * base + the (digit_val c)) cs else acc)"

definition is_space :: "char \<Rightarrow> bool" where
  "is_space c = (let n = of_char c :: nat in n = 32 \<or> 9 \<le> n \<and> n \<le> 13)"

text \<open>
  \<^verbatim>\<open>strtoul(s, 0, base)\<close> of a host with 64-bit \<^verbatim>\<open>long\<close>: leading white space, a sign, the prefix \<^verbatim>\<open>0x\<close> of
  base 16 where a digit follows it, digits up to the first other character; the largest value on overflow.
\<close>

definition skip_prefix :: "nat \<Rightarrow> string \<Rightarrow> string" where
  "skip_prefix base s =
    (case s of a # x # d # r \<Rightarrow>
       if base = 16 \<and> a = CHR ''0'' \<and> (x = CHR ''x'' \<or> x = CHR ''X'') \<and> is_digit 16 d then d # r else s
     | _ \<Rightarrow> s)"

definition strtoul :: "string \<Rightarrow> nat \<Rightarrow> u64" where
  "strtoul s base =
    (let s = dropWhile is_space s;
         neg = (case s of [] \<Rightarrow> False | c # _ \<Rightarrow> c = CHR ''-'');
         s = (case s of [] \<Rightarrow> [] | c # r \<Rightarrow> if c = CHR ''-'' \<or> c = CHR ''+'' then r else c # r);
         n = digits_loop base 0 (skip_prefix base s)
     in if n < 2 ^ 64 then (if neg then - word_of_nat n else word_of_nat n) else - 1)"

section \<open>The header\<close>

record boot_img_hdr =
  bh_magic :: "byte list"
  bh_kernel_size :: u32
  bh_kernel_addr :: u32
  bh_ramdisk_size :: u32
  bh_ramdisk_addr :: u32
  bh_second_size :: u32
  bh_second_addr :: u32
  bh_tags_addr :: u32
  bh_page_size :: u32
  bh_dt_size :: u32
  bh_unused :: u32
  bh_name :: "byte list"
  bh_cmdline :: "byte list"
  bh_id :: "byte list"
  bh_extra_cmdline :: "byte list"

definition BOOT_MAGIC :: "byte list" where
  "BOOT_MAGIC = bytes_of ''ANDROID!''"

text \<open>The struct in memory: no member needs padding; \<^verbatim>\<open>id\<close> is kept as its 32 bytes.\<close>

definition zero_hdr :: boot_img_hdr where
  "zero_hdr = \<lparr>bh_magic = replicate 8 0, bh_kernel_size = 0, bh_kernel_addr = 0, bh_ramdisk_size = 0,
     bh_ramdisk_addr = 0, bh_second_size = 0, bh_second_addr = 0, bh_tags_addr = 0, bh_page_size = 0,
     bh_dt_size = 0, bh_unused = 0, bh_name = replicate 16 0, bh_cmdline = replicate 512 0,
     bh_id = replicate 32 0, bh_extra_cmdline = replicate 1024 0\<rparr>"

definition hdr_bytes :: "boot_img_hdr \<Rightarrow> byte list" where
  "hdr_bytes h = bh_magic h @ u32_le (bh_kernel_size h) @ u32_le (bh_kernel_addr h)
     @ u32_le (bh_ramdisk_size h) @ u32_le (bh_ramdisk_addr h) @ u32_le (bh_second_size h)
     @ u32_le (bh_second_addr h) @ u32_le (bh_tags_addr h) @ u32_le (bh_page_size h)
     @ u32_le (bh_dt_size h) @ u32_le (bh_unused h) @ bh_name h @ bh_cmdline h @ bh_id h
     @ bh_extra_cmdline h"

definition hdr_of_bytes :: "byte list \<Rightarrow> boot_img_hdr" where
  "hdr_of_bytes b = \<lparr>bh_magic = take 8 b,
     bh_kernel_size = u32_of_le (drop 8 b), bh_kernel_addr = u32_of_le (drop 12 b),
     bh_ramdisk_size = u32_of_le (drop 16 b), bh_ramdisk_addr = u32_of_le (drop 20 b),
     bh_second_size = u32_of_le (drop 24 b), bh_second_addr = u32_of_le (drop 28 b),
     bh_tags_addr = u32_of_le (drop 32 b), bh_page_size = u32_of_le (drop 36 b),
     bh_dt_size = u32_of_le (drop 40 b), bh_unused = u32_of_le (drop 44 b),
     bh_name = take 16 (drop 48 b), bh_cmdline = take 512 (drop 64 b),
     bh_id = take 32 (drop 576 b), bh_extra_cmdline = take 1024 (drop 608 b)\<rparr>"

section \<open>The program mkbootimg\<close>

record host =
  hs_files :: "string \<rightharpoonup> byte list"
  hs_may_open :: "string \<Rightarrow> bool"
  hs_may_create :: "string \<Rightarrow> bool"
  hs_read_io :: "string \<Rightarrow> io list"
  hs_write_io :: "io list"
  hs_malloc :: "nat \<Rightarrow> bool"

definition open_rdonly :: "host \<Rightarrow> string \<Rightarrow> ofile option" where
  "open_rdonly w fn =
    (case hs_files w fn of None \<Rightarrow> None
     | Some bs \<Rightarrow> if hs_may_open w fn then Some \<lparr>fl_bytes = bs, fl_pos = 0, fl_io = hs_read_io w fn\<rparr> else None)"

text \<open>
  \<^verbatim>\<open>load_file\<close>: the size is the \<^verbatim>\<open>off_t\<close> of the end of the file cut to an \<^verbatim>\<open>int\<close>.
\<close>

definition load_file :: "host \<Rightarrow> string \<Rightarrow> (byte list \<times> u32) option" where
  "load_file w fn =
    (case open_rdonly w fn of None \<Rightarrow> None
     | Some f \<Rightarrow>
      (case lseek_end f 0 of (off, f) \<Rightarrow>
       let sz = sint (word_of_int off :: u32) in
       if sz < 0 then None
       else
        (case lseek_set f 0 of (r, f) \<Rightarrow>
          if r \<noteq> 0 then None
          else if \<not> hs_malloc w (nat sz) then None
          else
           (case posix_read f (nat sz) of
              (Inl e, f) \<Rightarrow> None
            | (Inr data, f) \<Rightarrow> if int (length data) \<noteq> sz then None else Some (data, word_of_int sz)))))"

definition padding :: "byte list" where
  "padding = replicate 16384 0"

definition write_padding :: "ofile \<Rightarrow> u32 \<Rightarrow> u32 \<Rightarrow> (int \<times> ofile) res" where
  "write_padding f pagesize itemsize =
    (let pagemask = pagesize - 1 in
     if itemsize AND pagemask = 0 then Inr (0, f)
     else
       let cnt = pagesize - (itemsize AND pagemask) in
       bindR (assertR (unat cnt \<le> length padding) OutOfBounds) (\<lambda>_.
         case posix_write f padding (uint cnt) of (r, f) \<Rightarrow>
           if r \<noteq> uint cnt then Inr (- 1, f) else Inr (0, f)))"

record mk_opts =
  mo_kernel_fn :: "string option"
  mo_ramdisk_fn :: "string option"
  mo_second_fn :: "string option"
  mo_cmdline :: string
  mo_bootimg :: "string option"
  mo_board :: string
  mo_dt_fn :: "string option"
  mo_pagesize :: u32
  mo_base :: u32
  mo_kernel_offset :: u32
  mo_ramdisk_offset :: u32
  mo_second_offset :: u32
  mo_tags_offset :: u32

definition default_opts :: mk_opts where
  "default_opts = \<lparr>mo_kernel_fn = None, mo_ramdisk_fn = None, mo_second_fn = None, mo_cmdline = '''',
     mo_bootimg = None, mo_board = '''', mo_dt_fn = None, mo_pagesize = 2048, mo_base = 0x10000000,
     mo_kernel_offset = 0x00008000, mo_ramdisk_offset = 0x01000000, mo_second_offset = 0x00f00000,
     mo_tags_offset = 0x00000100\<rparr>"

text \<open>One pair of arguments, then the loop; \<^term>\<open>Inl\<close> is the exit status of an early return.\<close>

definition set_opt :: "mk_opts \<Rightarrow> string \<Rightarrow> string \<Rightarrow> int + mk_opts" where
  "set_opt m arg v =
    (if arg = ''--output'' \<or> arg = ''-o'' then Inr (m\<lparr>mo_bootimg := Some v\<rparr>)
     else if arg = ''--kernel'' then Inr (m\<lparr>mo_kernel_fn := Some v\<rparr>)
     else if arg = ''--ramdisk'' then Inr (m\<lparr>mo_ramdisk_fn := Some v\<rparr>)
     else if arg = ''--second'' then Inr (m\<lparr>mo_second_fn := Some v\<rparr>)
     else if arg = ''--cmdline'' then Inr (m\<lparr>mo_cmdline := v\<rparr>)
     else if arg = ''--base'' then Inr (m\<lparr>mo_base := ucast (strtoul v 16)\<rparr>)
     else if arg = ''--kernel_offset'' then Inr (m\<lparr>mo_kernel_offset := ucast (strtoul v 16)\<rparr>)
     else if arg = ''--ramdisk_offset'' then Inr (m\<lparr>mo_ramdisk_offset := ucast (strtoul v 16)\<rparr>)
     else if arg = ''--second_offset'' then Inr (m\<lparr>mo_second_offset := ucast (strtoul v 16)\<rparr>)
     else if arg = ''--tags_offset'' then Inr (m\<lparr>mo_tags_offset := ucast (strtoul v 16)\<rparr>)
     else if arg = ''--board'' then Inr (m\<lparr>mo_board := v\<rparr>)
     else if arg = ''--pagesize'' then
       (let p = ucast (strtoul v 10) in
        if p \<noteq> 2048 \<and> p \<noteq> 4096 \<and> p \<noteq> 8192 \<and> p \<noteq> 16384 then Inl (- 1)
        else Inr (m\<lparr>mo_pagesize := p\<rparr>))
     else if arg = ''--dt'' then Inr (m\<lparr>mo_dt_fn := Some v\<rparr>)
     else Inl 1)"

fun parse_args :: "mk_opts \<Rightarrow> string list \<Rightarrow> int + mk_opts" where
  "parse_args m [] = Inr m"
| "parse_args m [arg] = Inl 1"
| "parse_args m (arg # v # rest) =
    (case set_opt m arg v of Inl e \<Rightarrow> Inl e | Inr m \<Rightarrow> parse_args m rest)"

text \<open>The header from the options, up to the loading of the files.\<close>

definition fill_hdr :: "mk_opts \<Rightarrow> int + boot_img_hdr" where
  "fill_hdr m =
    (let h = zero_hdr\<lparr>bh_page_size := mo_pagesize m, bh_kernel_addr := mo_base m + mo_kernel_offset m,
           bh_ramdisk_addr := mo_base m + mo_ramdisk_offset m, bh_second_addr := mo_base m + mo_second_offset m,
           bh_tags_addr := mo_base m + mo_tags_offset m\<rparr> in
     if mo_bootimg m = None \<or> mo_kernel_fn m = None \<or> mo_ramdisk_fn m = None then Inl 1
     else if length (mo_board m) \<ge> 16 then Inl 1
     else
       let h = h\<lparr>bh_name := strncpy (mo_board m) 16, bh_magic := BOOT_MAGIC\<rparr>;
           cmdlen = length (mo_cmdline m)
       in
       if cmdlen > 512 + 1024 - 2 then Inl 1
       else
         let h = h\<lparr>bh_cmdline := strncpy (mo_cmdline m) 511 @ [0]\<rparr> in
         Inr (if cmdlen \<ge> 511 then h\<lparr>bh_extra_cmdline := strncpy (drop 511 (mo_cmdline m)) 1024\<rparr> else h))"

text \<open>The parts of an image; \<^term>\<open>None\<close> is the \<^verbatim>\<open>NULL\<close> of a part that was not asked for.\<close>

record parts =
  pt_kernel :: "byte list"
  pt_ramdisk :: "byte list option"
  pt_second :: "byte list option"
  pt_dt :: "byte list option"

definition load_opt :: "host \<Rightarrow> string option \<Rightarrow> (byte list option \<times> u32) option" where
  "load_opt w fn = (case fn of None \<Rightarrow> Some (None, 0)
     | Some fn \<Rightarrow> (case load_file w fn of None \<Rightarrow> None | Some (d, n) \<Rightarrow> Some (Some d, n)))"

definition load_parts :: "host \<Rightarrow> mk_opts \<Rightarrow> boot_img_hdr \<Rightarrow> (boot_img_hdr \<times> parts) option" where
  "load_parts w m h =
    (case load_file w (the (mo_kernel_fn m)) of None \<Rightarrow> None
     | Some (kern, kn) \<Rightarrow>
      (case load_opt w (if mo_ramdisk_fn m = Some ''NONE'' then None else mo_ramdisk_fn m) of None \<Rightarrow> None
       | Some (ramdisk, rn) \<Rightarrow>
        (case load_opt w (mo_second_fn m) of None \<Rightarrow> None
         | Some (second, sn) \<Rightarrow>
          (case load_opt w (mo_dt_fn m) of None \<Rightarrow> None
           | Some (dt, dn) \<Rightarrow>
              Some (h\<lparr>bh_kernel_size := kn, bh_ramdisk_size := rn, bh_second_size := sn, bh_dt_size := dn\<rparr>,
                \<lparr>pt_kernel = kern, pt_ramdisk = ramdisk, pt_second = second, pt_dt = dt\<rparr>)))))"

definition opt_bytes :: "byte list option \<Rightarrow> byte list" where
  "opt_bytes d = (case d of None \<Rightarrow> [] | Some b \<Rightarrow> b)"

text \<open>The hash of the parts; \<open>ctx\<close> is the uninitialised context on the stack.\<close>

definition image_id :: "hash_ctx \<Rightarrow> boot_img_hdr \<Rightarrow> parts \<Rightarrow> byte list" where
  "image_id ctx h p =
    (let ctx = SHA_init ctx;
         ctx = SHA_update ctx (pt_kernel p);
         ctx = SHA_update ctx (u32_le (bh_kernel_size h));
         ctx = SHA_update ctx (opt_bytes (pt_ramdisk p));
         ctx = SHA_update ctx (u32_le (bh_ramdisk_size h));
         ctx = SHA_update ctx (opt_bytes (pt_second p));
         ctx = SHA_update ctx (u32_le (bh_second_size h));
         ctx = (case pt_dt p of None \<Rightarrow> ctx
                | Some dt \<Rightarrow> SHA_update (SHA_update ctx dt) (u32_le (bh_dt_size h)))
     in take 20 (fst (SHA_final ctx)))"

text \<open>One part with its padding: whether both were written.\<close>

definition write_part :: "ofile \<Rightarrow> u32 \<Rightarrow> byte list \<Rightarrow> u32 \<Rightarrow> (bool \<times> ofile) res" where
  "write_part f pagesize data n =
    (case posix_write f data (uint n) of (r, f) \<Rightarrow>
      if r \<noteq> uint n then Inr (False, f)
      else bindR (write_padding f pagesize n) (\<lambda>(r, f). Inr (r = 0, f)))"

definition write_image :: "ofile \<Rightarrow> u32 \<Rightarrow> boot_img_hdr \<Rightarrow> parts \<Rightarrow> (bool \<times> ofile) res" where
  "write_image f pagesize h p =
    bindR (write_part f pagesize (hdr_bytes h) 1632) (\<lambda>(ok, f). if \<not> ok then Inr (False, f) else
    bindR (write_part f pagesize (pt_kernel p) (bh_kernel_size h)) (\<lambda>(ok, f). if \<not> ok then Inr (False, f) else
    bindR (write_part f pagesize (opt_bytes (pt_ramdisk p)) (bh_ramdisk_size h)) (\<lambda>(ok, f). if \<not> ok then Inr (False, f) else
    bindR (case pt_second p of None \<Rightarrow> Inr (True, f) | Some d \<Rightarrow> write_part f pagesize d (bh_second_size h))
      (\<lambda>(ok, f). if \<not> ok then Inr (False, f) else
       (case pt_dt p of None \<Rightarrow> Inr (True, f) | Some d \<Rightarrow> write_part f pagesize d (bh_dt_size h))))))"

text \<open>The whole program: the exit status and the files it leaves.\<close>

definition mkbootimg_main :: "host \<Rightarrow> hash_ctx \<Rightarrow> string list \<Rightarrow> (int \<times> (string \<rightharpoonup> byte list)) res" where
  "mkbootimg_main w ctx args =
    (let files = hs_files w in
     case parse_args default_opts args of Inl e \<Rightarrow> Inr (e, files)
     | Inr m \<Rightarrow>
      (case fill_hdr m of Inl e \<Rightarrow> Inr (e, files)
       | Inr h \<Rightarrow>
        (case load_parts w m h of None \<Rightarrow> Inr (1, files)
         | Some (h, p) \<Rightarrow>
           let h = h\<lparr>bh_id := image_id ctx h p @ drop 20 (bh_id h)\<rparr>; out = the (mo_bootimg m) in
           if \<not> hs_may_create w out then Inr (1, files)
           else
             bindR (write_image \<lparr>fl_bytes = [], fl_pos = 0, fl_io = hs_write_io w\<rparr> (mo_pagesize m) h p)
               (\<lambda>(ok, f). Inr (if ok then (0, files(out \<mapsto> fl_bytes f)) else (1, files(out := None)))))))"

section \<open>The builder of fastboot\<close>

text \<open>
  \<^verbatim>\<open>memcpy\<close> and the stores into the header reach into one allocated block: they are in bounds when they
  end inside it.
\<close>

definition memcpy_at :: "byte list \<Rightarrow> nat \<Rightarrow> byte list \<Rightarrow> nat \<Rightarrow> byte list res" where
  "memcpy_at mem off src n =
    (if n = 0 then Inr mem
     else if n \<le> length src \<and> off + n \<le> length mem
     then Inr (take off mem @ take n src @ drop (off + n) mem) else Inl OutOfBounds)"

definition bootimg_set_cmdline :: "boot_img_hdr \<Rightarrow> string \<Rightarrow> boot_img_hdr res" where
  "bootimg_set_cmdline h cmdline =
    (if length cmdline < 512
     then Inr (h\<lparr>bh_cmdline := bytes_of cmdline @ [0] @ drop (Suc (length cmdline)) (bh_cmdline h)\<rparr>)
     else Inl OutOfBounds)"

definition mkbootimg ::
  "bool \<Rightarrow> byte list \<Rightarrow> u32 \<Rightarrow> u32 \<Rightarrow> byte list \<Rightarrow> u32 \<Rightarrow> u32 \<Rightarrow> byte list \<Rightarrow> u32 \<Rightarrow> u32 \<Rightarrow> u32 \<Rightarrow> u32 \<Rightarrow> u32
   \<Rightarrow> (byte list option \<times> u32) res" where
  "mkbootimg al kern kernel_size kernel_offset ramdisk ramdisk_size ramdisk_offset second second_size second_offset
      page_size base tags_offset =
    (let page_mask = page_size - 1;
         kernel_actual = (kernel_size + page_mask) AND NOT page_mask;
         ramdisk_actual = (ramdisk_size + page_mask) AND NOT page_mask;
         second_actual = (second_size + page_mask) AND NOT page_mask;
         bootimg_size = page_size + kernel_actual + ramdisk_actual + second_actual
     in
     if \<not> al then Inr (None, bootimg_size)
     else
       let h = zero_hdr\<lparr>bh_magic := BOOT_MAGIC, bh_kernel_size := kernel_size, bh_ramdisk_size := ramdisk_size,
           bh_second_size := second_size, bh_kernel_addr := base + kernel_offset,
           bh_ramdisk_addr := base + ramdisk_offset, bh_second_addr := base + second_offset,
           bh_tags_addr := base + tags_offset, bh_page_size := page_size\<rparr>
       in
       bindR (memcpy_at (replicate (unat bootimg_size) 0) 0 (hdr_bytes h) 40) (\<lambda>mem.
       bindR (memcpy_at mem (unat page_size) kern (unat kernel_size)) (\<lambda>mem.
       bindR (memcpy_at mem (unat page_size + unat kernel_actual) ramdisk (unat ramdisk_size)) (\<lambda>mem.
       bindR (memcpy_at mem (unat page_size + unat kernel_actual + unat ramdisk_actual) second (unat second_size)) (\<lambda>mem.
         Inr (Some mem, bootimg_size))))))"

section \<open>The layout\<close>

definition pad_page :: "nat \<Rightarrow> byte list \<Rightarrow> byte list" where
  "pad_page ps d = d @ replicate ((ps - length d mod ps) mod ps) 0"

definition boot_layout :: "nat \<Rightarrow> boot_img_hdr \<Rightarrow> parts \<Rightarrow> byte list" where
  "boot_layout ps h p = pad_page ps (hdr_bytes h) @ pad_page ps (pt_kernel p) @ pad_page ps (opt_bytes (pt_ramdisk p))
     @ pad_page ps (opt_bytes (pt_second p)) @ pad_page ps (opt_bytes (pt_dt p))"

definition page_ok :: "u32 \<Rightarrow> bool" where
  "page_ok p \<longleftrightarrow> p \<in> {2048, 4096, 8192, 16384}"

definition hdr_ok :: "boot_img_hdr \<Rightarrow> bool" where
  "hdr_ok h \<longleftrightarrow> length (bh_magic h) = 8 \<and> length (bh_name h) = 16 \<and> length (bh_cmdline h) = 512 \<and>
     length (bh_id h) = 32 \<and> length (bh_extra_cmdline h) = 1024"

lemma pad_page_Nil [simp]: "pad_page ps [] = []"
  by (simp add: pad_page_def)

lemma length_pad_page:
  assumes "0 < ps"
  shows "length (pad_page ps d) mod ps = 0"
proof -
  let ?r = "length d mod ps"
  have "(length d + (ps - ?r) mod ps) mod ps = (?r + (ps - ?r)) mod ps" by (simp add: mod_simps)
  also have "?r + (ps - ?r) = ps" using mod_less_divisor [OF assms] by (simp add: less_imp_le)
  finally show ?thesis by (simp add: pad_page_def)
qed

lemma length_hdr_bytes: "hdr_ok h \<Longrightarrow> length (hdr_bytes h) = 1632"
  by (simp add: hdr_bytes_def hdr_ok_def)

text \<open>The header can be read back from any image that starts with it.\<close>

lemma drop_le_append: "length a \<le> n \<Longrightarrow> drop n (a @ b) = drop (n - length a) b"
  by simp

lemma hdr_of_bytes_bytes: "hdr_ok h \<Longrightarrow> hdr_of_bytes (hdr_bytes h @ r) = h"
  by (simp add: hdr_of_bytes_def hdr_bytes_def hdr_ok_def)

lemma page_ok_power: "page_ok p \<Longrightarrow> \<exists>k. p = 2 ^ k \<and> k < 32 \<and> 11 \<le> k \<and> k \<le> 14"
proof -
  assume "page_ok p"
  then consider "p = 2048" | "p = 4096" | "p = 8192" | "p = 16384" by (auto simp: page_ok_def)
  then show ?thesis
    by cases (rule exI [of _ 11], simp, rule exI [of _ 12], simp, rule exI [of _ 13], simp, rule exI [of _ 14], simp)
qed

text \<open>What every pair of arguments keeps, the options as a whole keep.\<close>

lemma parse_args_keeps:
  assumes "\<And>m arg v m'. set_opt m arg v = Inr m' \<Longrightarrow> Q v \<Longrightarrow> P m \<Longrightarrow> P m'"
  shows "parse_args m args = Inr m' \<Longrightarrow> list_all Q args \<Longrightarrow> P m \<Longrightarrow> P m'"
  by (induction m args rule: parse_args.induct) (auto split: sum.splits intro: assms)

lemma set_opt_page: "set_opt m arg v = Inr m' \<Longrightarrow> page_ok (mo_pagesize m) \<Longrightarrow> page_ok (mo_pagesize m')"
  by (simp add: set_opt_def Let_def page_ok_def split: if_splits) auto

lemma parse_args_page:
  "parse_args m args = Inr m' \<Longrightarrow> page_ok (mo_pagesize m) \<Longrightarrow> page_ok (mo_pagesize m')"
  using parse_args_keeps [where P = "\<lambda>m. page_ok (mo_pagesize m)" and Q = "\<lambda>_. True", of m args m'] set_opt_page
  by (simp add: list_all_iff)

section \<open>Writing\<close>

definition at_end :: "ofile \<Rightarrow> bool" where
  "at_end f \<longleftrightarrow> fl_pos f = length (fl_bytes f)"

lemma posix_write_append:
  assumes "at_end f"
  shows "\<exists>r f'. posix_write f data (int k) = (r, f') \<and> at_end f' \<and>
    (r = int k \<longrightarrow> fl_bytes f' = fl_bytes f @ take k data) \<and>
    (reliable f \<and> k \<le> length data \<longrightarrow> r = int k \<and> reliable f')"
proof -
  obtain i g where i: "next_io f = (i, g)" by (cases "next_io f")
  have g: "fl_bytes g = fl_bytes f" "fl_pos g = fl_pos f" "reliable f \<Longrightarrow> i = IoFull \<and> g = f"
    using i by (auto simp: next_io_def reliable_def split: list.splits)
  have pos: "fl_pos g = length (fl_bytes f)" using assms g(2) by (simp add: at_end_def)
  have cut: "int (length (take (min j k) data)) = int k \<Longrightarrow> take (min j k) data = take k data" for j
    by (simp add: min_def split: if_splits)
  show ?thesis
    using g(3) cut by (cases i) (auto simp: posix_write_def i Let_def at_end_def pos g(1) put_at_end reliable_def)
qed

lemma write_padding_append:
  assumes "page_ok ps" "at_end f"
  shows "\<exists>r f'. write_padding f ps n = Inr (r, f') \<and> at_end f' \<and>
    (r = 0 \<longrightarrow> fl_bytes f' = fl_bytes f @ replicate ((unat ps - unat n mod unat ps) mod unat ps) 0) \<and>
    (reliable f \<longrightarrow> r = 0 \<and> reliable f')"
proof -
  obtain k where k: "ps = 2 ^ k" "k < 32" using page_ok_power [OF assms(1)] by blast
  have ps: "0 < unat ps" "unat ps \<le> 16384" using assms(1) by (auto simp: page_ok_def)
  let ?r = "unat n mod unat ps"
  have m: "unat (n AND (ps - 1)) = ?r" by (rule unat_and_mask [OF k])
  have r: "?r < unat ps" using ps(1) by simp
  show ?thesis
  proof (cases "?r = 0")
    case True
    then have "n AND (ps - 1) = 0" using m by (simp only: unat_eq_zero)
    then show ?thesis using True assms(2) ps by (simp add: write_padding_def Let_def)
  next
    case False
    then have nz: "n AND (ps - 1) \<noteq> 0" using m by (simp only: unat_eq_zero [symmetric]) simp
    have "unat (ps - (n AND (ps - 1))) = unat ps - ?r" using m r by (simp add: unat_sub word_le_nat_alt)
    then have c: "uint (ps - (n AND (ps - 1))) = int (unat ps - ?r)" "unat (ps - (n AND (ps - 1))) = unat ps - ?r"
      by (simp_all only: uint_nat)
    have len: "unat ps - ?r \<le> length padding" using ps(2) by (simp add: padding_def)
    obtain r' f' where w: "posix_write f padding (int (unat ps - ?r)) = (r', f')" "at_end f'"
      "r' = int (unat ps - ?r) \<Longrightarrow> fl_bytes f' = fl_bytes f @ take (unat ps - ?r) padding"
      "reliable f \<Longrightarrow> r' = int (unat ps - ?r) \<and> reliable f'"
      using posix_write_append [OF assms(2), of padding "unat ps - ?r"] len by blast
    have "take (unat ps - ?r) padding = replicate (unat ps - ?r) 0"
      using len by (simp add: padding_def take_replicate min_absorb1)
    moreover have "(unat ps - ?r) mod unat ps = unat ps - ?r" using False r by simp
    ultimately show ?thesis
      using w len nz unfolding write_padding_def Let_def c by (cases "r' = int (unat ps - ?r)") auto
  qed
qed

lemma write_part_append:
  assumes "page_ok ps" "at_end f" "length d = unat n"
  shows "\<exists>ok f'. write_part f ps d n = Inr (ok, f') \<and> at_end f' \<and>
    (ok \<longrightarrow> fl_bytes f' = fl_bytes f @ pad_page (unat ps) d) \<and> (reliable f \<longrightarrow> ok \<and> reliable f')"
proof -
  have u: "uint n = int (length d)" using assms(3) by (simp only: uint_nat)
  obtain r g where w: "posix_write f d (int (length d)) = (r, g)" "at_end g"
    "r = int (length d) \<Longrightarrow> fl_bytes g = fl_bytes f @ d" "reliable f \<Longrightarrow> r = int (length d) \<and> reliable g"
    using posix_write_append [OF assms(2), of d "length d"] by auto
  obtain r' f' where p: "write_padding g ps n = Inr (r', f')" "at_end f'"
    "r' = 0 \<Longrightarrow> fl_bytes f' = fl_bytes g @ replicate ((unat ps - unat n mod unat ps) mod unat ps) 0"
    "reliable g \<Longrightarrow> r' = 0 \<and> reliable f'"
    using write_padding_append [OF assms(1) w(2), of n] by blast
  show ?thesis
    using w p unfolding write_part_def u by (cases "r = int (length d)") (auto simp: pad_page_def assms(3))
qed

definition parts_ok :: "boot_img_hdr \<Rightarrow> parts \<Rightarrow> bool" where
  "parts_ok h p \<longleftrightarrow> length (pt_kernel p) = unat (bh_kernel_size h) \<and>
     length (opt_bytes (pt_ramdisk p)) = unat (bh_ramdisk_size h) \<and>
     length (opt_bytes (pt_second p)) = unat (bh_second_size h) \<and> length (opt_bytes (pt_dt p)) = unat (bh_dt_size h)"

lemma write_opt_append:
  assumes "page_ok ps" "at_end f" "length (opt_bytes d) = unat n"
  shows "\<exists>ok f'. (case d of None \<Rightarrow> Inr (True, f) | Some b \<Rightarrow> write_part f ps b n) = Inr (ok, f') \<and> at_end f' \<and>
    (ok \<longrightarrow> fl_bytes f' = fl_bytes f @ pad_page (unat ps) (opt_bytes d)) \<and> (reliable f \<longrightarrow> ok \<and> reliable f')"
proof (cases d)
  case None
  then show ?thesis using assms(2) by (auto simp: opt_bytes_def)
next
  case (Some b)
  then show ?thesis using write_part_append [OF assms(1,2), of b n] assms(3) by (simp add: opt_bytes_def)
qed

text \<open>
  The whole image: however the device behaves, the writer returns; success means that the file holds the
  layout, and a device that takes every write leads to success.
\<close>

lemma write_image_append:
  assumes "page_ok ps" "at_end f" "hdr_ok h" "parts_ok h p"
  shows "\<exists>ok f'. write_image f ps h p = Inr (ok, f') \<and>
    (ok \<longrightarrow> fl_bytes f' = fl_bytes f @ boot_layout (unat ps) h p) \<and> (reliable f \<longrightarrow> ok)"
proof -
  have l: "length (hdr_bytes h) = unat (1632 :: u32)" using length_hdr_bytes [OF assms(3)] by simp
  obtain o1 f1 where 1: "write_part f ps (hdr_bytes h) 1632 = Inr (o1, f1)" "at_end f1"
    "o1 \<Longrightarrow> fl_bytes f1 = fl_bytes f @ pad_page (unat ps) (hdr_bytes h)" "reliable f \<Longrightarrow> o1 \<and> reliable f1"
    using write_part_append [OF assms(1,2) l] by blast
  obtain o2 f2 where 2: "write_part f1 ps (pt_kernel p) (bh_kernel_size h) = Inr (o2, f2)" "at_end f2"
    "o2 \<Longrightarrow> fl_bytes f2 = fl_bytes f1 @ pad_page (unat ps) (pt_kernel p)" "reliable f1 \<Longrightarrow> o2 \<and> reliable f2"
    using write_part_append [OF assms(1) 1(2)] assms(4) unfolding parts_ok_def by blast
  obtain o3 f3 where 3: "write_part f2 ps (opt_bytes (pt_ramdisk p)) (bh_ramdisk_size h) = Inr (o3, f3)" "at_end f3"
    "o3 \<Longrightarrow> fl_bytes f3 = fl_bytes f2 @ pad_page (unat ps) (opt_bytes (pt_ramdisk p))" "reliable f2 \<Longrightarrow> o3 \<and> reliable f3"
    using write_part_append [OF assms(1) 2(2)] assms(4) unfolding parts_ok_def by blast
  obtain o4 f4 where 4: "(case pt_second p of None \<Rightarrow> Inr (True, f3) | Some b \<Rightarrow> write_part f3 ps b (bh_second_size h)) = Inr (o4, f4)"
    "at_end f4" "o4 \<Longrightarrow> fl_bytes f4 = fl_bytes f3 @ pad_page (unat ps) (opt_bytes (pt_second p))" "reliable f3 \<Longrightarrow> o4 \<and> reliable f4"
    using write_opt_append [OF assms(1) 3(2)] assms(4) unfolding parts_ok_def by blast
  obtain o5 f5 where 5: "(case pt_dt p of None \<Rightarrow> Inr (True, f4) | Some b \<Rightarrow> write_part f4 ps b (bh_dt_size h)) = Inr (o5, f5)"
    "o5 \<Longrightarrow> fl_bytes f5 = fl_bytes f4 @ pad_page (unat ps) (opt_bytes (pt_dt p))" "reliable f4 \<Longrightarrow> o5 \<and> reliable f5"
    using write_opt_append [OF assms(1) 4(2)] assms(4) unfolding parts_ok_def by blast
  show ?thesis
    using 1 2 3 4 5 unfolding write_image_def boot_layout_def by (cases o1; cases o2; cases o3; cases o4) auto
qed

section \<open>Loading and hashing\<close>

lemma load_file_SomeD:
  assumes "load_file w fn = Some (d, n)"
  shows "\<exists>bs. hs_files w fn = Some bs \<and> d = take (length bs mod 2 ^ 32) bs \<and> length d = unat n \<and> length d < 2 ^ 31"
proof -
  obtain f where f: "open_rdonly w fn = Some f" using assms by (auto simp: load_file_def split: option.splits)
  then obtain bs where bs: "hs_files w fn = Some bs" "fl_bytes f = bs" "fl_pos f = 0"
    by (auto simp: open_rdonly_def split: option.splits if_splits)
  define sz where "sz = (word_of_nat (length bs) :: u32)"
  have nn: "0 \<le> sint sz" and d: "int (length d) = sint sz" "n = word_of_int (sint sz)"
    and rd: "\<exists>f'. posix_read (f\<lparr>fl_pos := 0\<rparr>) (nat (sint sz)) = (Inr d, f')"
    using assms by (auto simp: load_file_def f lseek_end_def lseek_set_def bs sz_def Let_def
      split: if_splits sum.splits prod.splits)
  have hi: "sint sz < 2 ^ 31" using sint_lt [of sz] by simp
  have "uint sz = uint (word_of_int (sint sz) :: u32)" by simp
  also have "\<dots> = sint sz" using nn hi by (simp only: uint_word_of_int) simp
  finally have "sint sz = uint sz" by simp
  then have "int (length d) = int (unat sz)" using d(1) by (simp only: uint_nat)
  then have u: "length d = unat sz" by (simp only: of_nat_eq_iff)
  have "\<exists>j. d = take j bs"
    using rd by (auto simp: posix_read_def next_io_def bs Let_def split: io.splits list.splits)
  then have "d = take (length d) bs" by (auto simp: min_def)
  moreover have "unat sz = length bs mod 2 ^ 32" by (simp add: sz_def unat_of_nat)
  moreover have "n = sz" using d(2) by simp
  moreover have "length d < 2 ^ 31"
    using d(1) hi by simp
  ultimately show ?thesis using bs(1) u by metis
qed

lemma load_file_reliable:
  assumes "hs_files w fn = Some bs" "hs_may_open w fn" "hs_read_io w fn = []" "hs_malloc w (length bs)" "length bs < 2 ^ 31"
  shows "load_file w fn = Some (bs, word_of_nat (length bs))"
proof -
  have "unat (word_of_nat (length bs) :: u32) = length bs" using assms(5) by (simp add: unat_of_nat)
  then have "sint (word_of_nat (length bs) :: u32) = int (length bs)" using assms(5) by (subst sint_small_u32) simp_all
  then show ?thesis
    using assms by (simp add: load_file_def open_rdonly_def lseek_end_def lseek_set_def Let_def posix_read_def next_io_def)
qed

definition id_message :: "boot_img_hdr \<Rightarrow> parts \<Rightarrow> byte list" where
  "id_message h p = pt_kernel p @ u32_le (bh_kernel_size h) @ opt_bytes (pt_ramdisk p) @ u32_le (bh_ramdisk_size h)
     @ opt_bytes (pt_second p) @ u32_le (bh_second_size h)
     @ (case pt_dt p of None \<Rightarrow> [] | Some dt \<Rightarrow> dt @ u32_le (bh_dt_size h))"

lemma image_id_fips: "ctx_ok ctx \<Longrightarrow> image_id ctx h p = fips_sha1 (id_message h p)"
  using HASH_init_absorbs(1) [of ctx]
  by (cases "pt_dt p") (simp_all add: image_id_def id_message_def sha1.upd_append)

section \<open>The whole program\<close>

lemma set_opt_c_str:
  "set_opt m arg v = Inr m' \<Longrightarrow> c_str v \<Longrightarrow> c_str (mo_cmdline m) \<and> c_str (mo_board m) \<Longrightarrow>
     c_str (mo_cmdline m') \<and> c_str (mo_board m')"
  by (simp add: set_opt_def Let_def split: if_splits) auto

lemma parse_args_c_str:
  assumes "parse_args m args = Inr m'" "list_all c_str args" "c_str (mo_cmdline m) \<and> c_str (mo_board m)"
  shows "c_str (mo_cmdline m') \<and> c_str (mo_board m')"
proof (rule parse_args_keeps [where P = "\<lambda>m. c_str (mo_cmdline m) \<and> c_str (mo_board m)" and Q = c_str, OF _ assms])
  fix m arg v m' assume "set_opt m arg v = Inr m'" "c_str v" "c_str (mo_cmdline m) \<and> c_str (mo_board m)"
  then show "c_str (mo_cmdline m') \<and> c_str (mo_board m')" by (rule set_opt_c_str)
qed

text \<open>The string that a field of the header holds.\<close>

definition cstr :: "byte list \<Rightarrow> byte list" where
  "cstr b = takeWhile (\<lambda>x. x \<noteq> 0) b"

lemma length_strncpy [simp]: "length (strncpy s n) = n"
  by (simp add: strncpy_def bytes_of_def)

lemma takeWhile_full: "0 \<notin> set xs \<Longrightarrow> takeWhile (\<lambda>x. x \<noteq> 0) (xs @ ys) = xs @ takeWhile (\<lambda>x. x \<noteq> 0) (ys :: byte list)"
  by (induction xs) auto

lemma c_str_take: "c_str s \<Longrightarrow> 0 \<notin> set (take n (bytes_of s))"
  by (auto simp: c_str_def dest: in_set_takeD)

lemma cstr_append: "0 \<notin> set xs \<Longrightarrow> cstr (xs @ ys) = xs @ cstr ys"
  by (simp add: cstr_def takeWhile_full)

lemma cstr_ends [simp]: "cstr [] = []" "cstr (0 # ys) = []"
  by (simp_all add: cstr_def)

lemma cstr_replicate_append: "0 < n \<Longrightarrow> cstr (replicate n 0 @ ys) = []"
  by (cases n) simp_all

lemma cstr_strncpy: "c_str s \<Longrightarrow> cstr (strncpy s n @ r) = take n (bytes_of s) @ (if n \<le> length s then cstr r else [])"
  by (simp add: strncpy_def cstr_append [OF c_str_take] cstr_replicate_append)

lemma cstr_zeros [simp]: "cstr (replicate n 0) = []"
  by (induction n) (simp_all add: cstr_def)

text \<open>What the header says about an image that was built from given options and parts.\<close>

definition hdr_for :: "mk_opts \<Rightarrow> parts \<Rightarrow> boot_img_hdr \<Rightarrow> bool" where
  "hdr_for m p h \<longleftrightarrow> hdr_ok h \<and> parts_ok h p \<and> bh_magic h = BOOT_MAGIC \<and> bh_page_size h = mo_pagesize m \<and>
     bh_kernel_addr h = mo_base m + mo_kernel_offset m \<and> bh_ramdisk_addr h = mo_base m + mo_ramdisk_offset m \<and>
     bh_second_addr h = mo_base m + mo_second_offset m \<and> bh_tags_addr h = mo_base m + mo_tags_offset m \<and>
     bh_unused h = 0 \<and> cstr (bh_name h) = bytes_of (mo_board m) \<and> 0 \<in> set (bh_cmdline h) \<and>
     cstr (bh_cmdline h) = take 511 (bytes_of (mo_cmdline m)) \<and> cstr (bh_extra_cmdline h) = drop 511 (bytes_of (mo_cmdline m)) \<and>
     bh_id h = fips_sha1 (id_message h p) @ replicate 12 0"

definition part_of :: "host \<Rightarrow> string option \<Rightarrow> byte list option \<Rightarrow> bool" where
  "part_of w fn d \<longleftrightarrow> (case fn of None \<Rightarrow> d = None
     | Some fn \<Rightarrow> \<exists>bs. hs_files w fn = Some bs \<and> d = Some (take (length bs mod 2 ^ 32) bs))"

definition ramdisk_of :: "mk_opts \<Rightarrow> string option" where
  "ramdisk_of m = (if mo_ramdisk_fn m = Some ''NONE'' then None else mo_ramdisk_fn m)"

definition parts_of :: "host \<Rightarrow> mk_opts \<Rightarrow> parts \<Rightarrow> bool" where
  "parts_of w m p \<longleftrightarrow> part_of w (mo_kernel_fn m) (Some (pt_kernel p)) \<and> part_of w (ramdisk_of m) (pt_ramdisk p) \<and>
     part_of w (mo_second_fn m) (pt_second p) \<and> part_of w (mo_dt_fn m) (pt_dt p)"

lemma load_opt_SomeD:
  "load_opt w fn = Some (d, n) \<Longrightarrow> part_of w fn d \<and> length (opt_bytes d) = unat n"
  by (auto simp: load_opt_def part_of_def opt_bytes_def split: option.splits prod.splits dest!: load_file_SomeD)

lemma load_parts_SomeD:
  assumes "load_parts w m h = Some (h', p)" "mo_kernel_fn m \<noteq> None"
  shows "parts_of w m p \<and> parts_ok h' p \<and>
    (\<exists>kn rn sn dn. h' = h\<lparr>bh_kernel_size := kn, bh_ramdisk_size := rn, bh_second_size := sn, bh_dt_size := dn\<rparr>)"
proof -
  obtain k kn where k: "load_file w (the (mo_kernel_fn m)) = Some (k, kn)"
    using assms(1) by (auto simp: load_parts_def split: option.splits)
  obtain r rn where r: "load_opt w (ramdisk_of m) = Some (r, rn)"
    using assms(1) k by (auto simp: load_parts_def ramdisk_of_def split: option.splits prod.splits if_splits)
  obtain s sn where s: "load_opt w (mo_second_fn m) = Some (s, sn)"
    using assms(1) k r by (auto simp: load_parts_def ramdisk_of_def [symmetric] split: option.splits prod.splits)
  obtain d dn where d: "load_opt w (mo_dt_fn m) = Some (d, dn)"
    using assms(1) k r s by (auto simp: load_parts_def ramdisk_of_def [symmetric] split: option.splits prod.splits)
  have e: "h' = h\<lparr>bh_kernel_size := kn, bh_ramdisk_size := rn, bh_second_size := sn, bh_dt_size := dn\<rparr>"
    "p = \<lparr>pt_kernel = k, pt_ramdisk = r, pt_second = s, pt_dt = d\<rparr>"
    using assms(1) k r s d by (simp_all add: load_parts_def ramdisk_of_def [symmetric])
  have "part_of w (mo_kernel_fn m) (Some k) \<and> length k = unat kn"
    using load_file_SomeD [OF k] assms(2) by (auto simp: part_of_def)
  then show ?thesis
    using load_opt_SomeD [OF r] load_opt_SomeD [OF s] load_opt_SomeD [OF d] unfolding e
    by (auto simp: parts_of_def parts_ok_def)
qed

lemma fill_hdr_InrD:
  assumes "fill_hdr m = Inr h" "c_str (mo_cmdline m)" "c_str (mo_board m)"
  shows "mo_bootimg m \<noteq> None \<and> mo_kernel_fn m \<noteq> None \<and> mo_ramdisk_fn m \<noteq> None \<and> hdr_ok h \<and>
    bh_magic h = BOOT_MAGIC \<and> bh_page_size h = mo_pagesize m \<and>
    bh_kernel_addr h = mo_base m + mo_kernel_offset m \<and> bh_ramdisk_addr h = mo_base m + mo_ramdisk_offset m \<and>
    bh_second_addr h = mo_base m + mo_second_offset m \<and> bh_tags_addr h = mo_base m + mo_tags_offset m \<and>
    bh_unused h = 0 \<and> cstr (bh_name h) = bytes_of (mo_board m) \<and> 0 \<in> set (bh_cmdline h) \<and>
    cstr (bh_cmdline h) = take 511 (bytes_of (mo_cmdline m)) \<and> cstr (bh_extra_cmdline h) = drop 511 (bytes_of (mo_cmdline m)) \<and> bh_id h = replicate 32 0"
proof -
  have b: "length (mo_board m) < 16" and l: "length (mo_cmdline m) \<le> 1534"
    using assms(1) by (auto simp: fill_hdr_def Let_def split: if_splits)
  have name: "cstr (strncpy (mo_board m) 16) = bytes_of (mo_board m)"
    using cstr_strncpy [OF assms(3), of 16 "[]"] b by (simp add: bytes_of_def)
  have c: "c_str (drop 511 (mo_cmdline m))" using assms(2) by (auto simp: c_str_def bytes_of_def dest: in_set_dropD)
  have line: "cstr (strncpy (mo_cmdline m) 511 @ [0]) = take 511 (bytes_of (mo_cmdline m))"
    by (simp add: cstr_strncpy [OF assms(2)])
  have extra: "cstr (strncpy (drop 511 (mo_cmdline m)) 1024) = drop 511 (bytes_of (mo_cmdline m))"
    using cstr_strncpy [OF c, of 1024 "[]"] l by (simp add: bytes_of_def drop_map)
  show ?thesis
    using assms(1) name line extra
    by (auto simp: fill_hdr_def Let_def zero_hdr_def hdr_ok_def BOOT_MAGIC_def bytes_of_def split: if_splits)
qed

lemma set_opt_codes: "set_opt m arg v = Inl e \<Longrightarrow> e = 1 \<or> e = - 1"
  by (simp add: set_opt_def Let_def split: if_splits)

lemma parse_args_codes: "parse_args m args = Inl e \<Longrightarrow> e = 1 \<or> e = - 1"
  by (induction m args rule: parse_args.induct) (auto split: sum.splits dest: set_opt_codes)

lemma length_fips_sha1_blocks:
  assumes "length s = 8"
  shows "length (foldl fips_sha1_block (take 5 s) bs) = 5"
proof -
  note b = sha1_blocks_fips [OF assms, of bs]
  have "length (take 5 (foldl sha1_cf s bs)) = 5" unfolding length_take conjunct2 [OF b] by simp
  then show ?thesis unfolding conjunct1 [OF b] .
qed

lemma length_fips_sha1: "length (fips_sha1 m) = 20"
proof -
  have "take 5 [0x67452301, 0xefcdab89, 0x98badcfe, 0x10325476, 0xc3d2e1f0, 0, 0, 0 :: u32] =
    [0x67452301, 0xefcdab89, 0x98badcfe, 0x10325476, 0xc3d2e1f0]" by simp
  from length_fips_sha1_blocks [of "[0x67452301, 0xefcdab89, 0x98badcfe, 0x10325476, 0xc3d2e1f0, 0, 0, 0]", unfolded this]
  show ?thesis unfolding fips_sha1_def length_concat_u32_be by simp
qed

lemma id_message_id [simp]: "id_message (h\<lparr>bh_id := x\<rparr>) p = id_message h p"
  by (cases "pt_dt p") (simp_all add: id_message_def)

lemma opts_wf:
  assumes "parse_args default_opts args = Inr m" "list_all c_str args"
  shows "page_ok (mo_pagesize m)" "c_str (mo_cmdline m)" "c_str (mo_board m)"
  using parse_args_page [OF assms(1)] parse_args_c_str [OF assms]
  by (simp_all add: default_opts_def page_ok_def c_str_def bytes_of_def)

lemma mkbootimg_main_outcome:
  assumes "ctx_ok ctx" "list_all c_str args"
  shows "\<exists>code files. mkbootimg_main w ctx args = Inr (code, files) \<and>
    (if code = 0
     then \<exists>m h p out. parse_args default_opts args = Inr m \<and> mo_bootimg m = Some out \<and> parts_of w m p \<and>
       hdr_for m p h \<and> files = (hs_files w)(out \<mapsto> boot_layout (unat (mo_pagesize m)) h p)
     else case parse_args default_opts args of
        Inl e \<Rightarrow> code = e \<and> files = hs_files w
      | Inr m \<Rightarrow> code = 1 \<and> (files = hs_files w \<or> files = (hs_files w)(the (mo_bootimg m) := None)))"
proof (cases "parse_args default_opts args")
  case (Inl e)
  have "e \<noteq> 0" using parse_args_codes [OF Inl] by auto
  then show ?thesis using Inl by (simp add: mkbootimg_main_def)
next
  case (Inr m)
  note wf = opts_wf [OF Inr assms(2)]
  show ?thesis
  proof (cases "fill_hdr m")
    case (Inl e)
    then have "e = 1" by (auto simp: fill_hdr_def Let_def split: if_splits)
    then show ?thesis using Inr Inl by (simp add: mkbootimg_main_def)
  next
    case h0: (Inr h0)
    note H0 = fill_hdr_InrD [OF h0 wf(2,3)]
    show ?thesis
    proof (cases "load_parts w m h0")
      case None
      then show ?thesis using Inr h0 by (simp add: mkbootimg_main_def)
    next
      case (Some q)
      obtain h1 p where q: "q = (h1, p)" by (cases q)
      define h where "h = h1\<lparr>bh_id := image_id ctx h1 p @ drop 20 (bh_id h1)\<rparr>"
      have P: "parts_of w m p" "hdr_for m p h"
        using load_parts_SomeD [OF Some [unfolded q]] H0 unfolding h_def
        by (auto simp: hdr_for_def image_id_fips [OF assms(1)] hdr_ok_def parts_ok_def length_fips_sha1)
      obtain ok f where f: "write_image \<lparr>fl_bytes = [], fl_pos = 0, fl_io = hs_write_io w\<rparr> (mo_pagesize m) h p = Inr (ok, f)"
        "ok \<Longrightarrow> fl_bytes f = boot_layout (unat (mo_pagesize m)) h p"
        using write_image_append [OF wf(1), of "\<lparr>fl_bytes = [], fl_pos = 0, fl_io = hs_write_io w\<rparr>" h p] P(2)
        by (auto simp: hdr_for_def at_end_def)
      have main: "mkbootimg_main w ctx args = (if \<not> hs_may_create w (the (mo_bootimg m)) then Inr (1, hs_files w)
          else Inr (if ok then (0, (hs_files w)(the (mo_bootimg m) \<mapsto> fl_bytes f)) else (1, (hs_files w)(the (mo_bootimg m) := None))))"
        using Inr h0 Some f(1) unfolding q h_def by (simp add: mkbootimg_main_def Let_def)
      obtain out where "mo_bootimg m = Some out" using H0 by blast
      then show ?thesis
        using P f(2) Inr unfolding main by (cases "hs_may_create w out"; cases ok) (simp_all, blast+)
    qed
  qed
qed

lemma mkbootimg_exit_0:
  assumes "ctx_ok ctx" "list_all c_str args" "mkbootimg_main w ctx args = Inr (0, files)"
  shows "\<exists>m h p out. parse_args default_opts args = Inr m \<and> mo_bootimg m = Some out \<and> parts_of w m p \<and>
    hdr_for m p h \<and> files = (hs_files w)(out \<mapsto> boot_layout (unat (mo_pagesize m)) h p)"
  using mkbootimg_main_outcome [OF assms(1,2), of w] assms(3) by simp

text \<open>A host that lets every call succeed for the files the options name.\<close>

definition loadable :: "host \<Rightarrow> string option \<Rightarrow> bool" where
  "loadable w fn \<longleftrightarrow> (case fn of None \<Rightarrow> True | Some fn \<Rightarrow>
     (case hs_files w fn of None \<Rightarrow> False | Some bs \<Rightarrow>
       hs_may_open w fn \<and> hs_read_io w fn = [] \<and> hs_malloc w (length bs) \<and> length bs < 2 ^ 31))"

definition smooth :: "host \<Rightarrow> mk_opts \<Rightarrow> bool" where
  "smooth w m \<longleftrightarrow> loadable w (mo_kernel_fn m) \<and> loadable w (ramdisk_of m) \<and> loadable w (mo_second_fn m) \<and>
     loadable w (mo_dt_fn m) \<and> hs_may_create w (the (mo_bootimg m)) \<and> hs_write_io w = []"

lemma load_opt_loadable: "loadable w fn \<Longrightarrow> \<exists>d n. load_opt w fn = Some (d, n)"
  by (auto simp: loadable_def load_opt_def load_file_reliable split: option.splits)

lemma mkbootimg_main_success:
  assumes "ctx_ok ctx" "list_all c_str args" "parse_args default_opts args = Inr m" "fill_hdr m = Inr h0" "smooth w m"
  shows "\<exists>files. mkbootimg_main w ctx args = Inr (0, files)"
proof -
  note wf = opts_wf [OF assms(3,2)]
  note H0 = fill_hdr_InrD [OF assms(4) wf(2,3)]
  obtain k where k: "mo_kernel_fn m = Some k" using H0 by blast
  obtain kd kn where "load_file w k = Some (kd, kn)"
    using assms(5) k by (auto simp: smooth_def loadable_def load_file_reliable split: option.splits)
  then obtain h1 p where hp: "load_parts w m h0 = Some (h1, p)"
    using assms(5) load_opt_loadable [of w "ramdisk_of m"] load_opt_loadable [of w "mo_second_fn m"]
      load_opt_loadable [of w "mo_dt_fn m"] k
    by (auto simp: smooth_def load_parts_def ramdisk_of_def)
  define h where "h = h1\<lparr>bh_id := image_id ctx h1 p @ drop 20 (bh_id h1)\<rparr>"
  have "hdr_ok h" "parts_ok h p"
    using load_parts_SomeD [OF hp] H0 unfolding h_def
    by (auto simp: hdr_ok_def parts_ok_def image_id_fips [OF assms(1)] length_fips_sha1)
  then obtain f where "write_image \<lparr>fl_bytes = [], fl_pos = 0, fl_io = []\<rparr> (mo_pagesize m) h p = Inr (True, f)"
    using write_image_append [OF wf(1), of "\<lparr>fl_bytes = [], fl_pos = 0, fl_io = []\<rparr>" h p]
    by (auto simp: at_end_def reliable_def)
  then show ?thesis
    using assms(3-5) hp unfolding h_def by (auto simp: mkbootimg_main_def smooth_def Let_def)
qed

text \<open>What is refused before any file is read: no output, kernel or ramdisk named, or a name or command line too long.\<close>

definition refused :: "mk_opts \<Rightarrow> bool" where
  "refused m \<longleftrightarrow> mo_bootimg m = None \<or> mo_kernel_fn m = None \<or> mo_ramdisk_fn m = None \<or> 16 \<le> length (mo_board m) \<or> 1534 < length (mo_cmdline m)"

lemma fill_hdr_refused: "fill_hdr m = (if refused m then Inl 1 else Inr (projr (fill_hdr m)))"
  by (auto simp: fill_hdr_def refused_def Let_def)

lemma mkbootimg_main_cases:
  assumes "ctx_ok ctx" "list_all c_str args"
  shows "case parse_args default_opts args of
      Inl e \<Rightarrow> (e = 1 \<or> e = - 1) \<and> mkbootimg_main w ctx args = Inr (e, hs_files w)
    | Inr m \<Rightarrow>
      if refused m then mkbootimg_main w ctx args = Inr (1, hs_files w)
      else (\<exists>h p. parts_of w m p \<and> hdr_for m p h \<and>
              mkbootimg_main w ctx args = Inr (0, (hs_files w)(the (mo_bootimg m) \<mapsto> boot_layout (unat (mo_pagesize m)) h p))) \<or>
           \<not> smooth w m \<and> (mkbootimg_main w ctx args = Inr (1, hs_files w) \<or>
              mkbootimg_main w ctx args = Inr (1, (hs_files w)(the (mo_bootimg m) := None)))"
proof (cases "parse_args default_opts args")
  case (Inl e)
  then show ?thesis using parse_args_codes [OF Inl] by (simp add: mkbootimg_main_def)
next
  case (Inr m)
  show ?thesis
  proof (cases "refused m")
    case True
    then have "fill_hdr m = Inl 1" using fill_hdr_refused by metis
    then show ?thesis using Inr True by (simp add: mkbootimg_main_def)
  next
    case False
    then obtain h0 where h0: "fill_hdr m = Inr h0" using fill_hdr_refused by metis
    obtain out where out: "mo_bootimg m = Some out" using False by (auto simp: refused_def)
    obtain code files where c: "mkbootimg_main w ctx args = Inr (code, files)"
      and o: "if code = 0
        then \<exists>m h p out. parse_args default_opts args = Inr m \<and> mo_bootimg m = Some out \<and> parts_of w m p \<and>
          hdr_for m p h \<and> files = (hs_files w)(out \<mapsto> boot_layout (unat (mo_pagesize m)) h p)
        else case parse_args default_opts args of
           Inl e \<Rightarrow> code = e \<and> files = hs_files w
         | Inr m \<Rightarrow> code = 1 \<and> (files = hs_files w \<or> files = (hs_files w)(the (mo_bootimg m) := None))"
      using mkbootimg_main_outcome [OF assms, of w] by (elim exE conjE) (rule that)
    show ?thesis
    proof (cases "code = 0")
      case True
      have "\<exists>m' h p out. Inr m = (Inr m' :: int + mk_opts) \<and> mo_bootimg m' = Some out \<and> parts_of w m' p \<and>
          hdr_for m' p h \<and> files = (hs_files w)(out \<mapsto> boot_layout (unat (mo_pagesize m')) h p)"
        using o unfolding Inr if_P [OF True] .
      then obtain h p where "parts_of w m p" "hdr_for m p h"
        "files = (hs_files w)(the (mo_bootimg m) \<mapsto> boot_layout (unat (mo_pagesize m)) h p)"
        by (elim exE conjE) (simp only: sum.inject option.sel)
      then have "\<exists>h p. parts_of w m p \<and> hdr_for m p h \<and>
          mkbootimg_main w ctx args = Inr (0, (hs_files w)(the (mo_bootimg m) \<mapsto> boot_layout (unat (mo_pagesize m)) h p))"
        using c True by blast
      then show ?thesis using False by (simp only: Inr sum.case if_False simp_thms)
    next
      case nz: False
      have d: "code = 1 \<and> (files = hs_files w \<or> files = (hs_files w)(the (mo_bootimg m) := None))"
        using o unfolding Inr if_not_P [OF nz] sum.case .
      have "\<not> smooth w m"
      proof
        assume "smooth w m"
        then obtain files' where "mkbootimg_main w ctx args = Inr (0, files')"
          using mkbootimg_main_success [OF assms Inr h0] by blast
        then show False using c nz by simp
      qed
      moreover have "mkbootimg_main w ctx args = Inr (1, hs_files w) \<or>
          mkbootimg_main w ctx args = Inr (1, (hs_files w)(the (mo_bootimg m) := None))"
        using d c by (elim conjE disjE) simp_all
      ultimately show ?thesis using False by (simp only: Inr sum.case if_False simp_thms)
    qed
  qed
qed

text \<open>
  C6. The program mkbootimg, for arguments of any kind and a host that may refuse or cut short every system
  call: it never leaves the bounds of its buffers, and it always ends in one of these ways.  Arguments that cannot
  be parsed give their code, and no file is changed.  A missing or too long option gives 1, and no file is changed.
  Otherwise the exit status is 0 and the output file is the paged layout of header, kernel, ramdisk, second stage
  and device tree; the parts are the files named by the options (their length taken modulo \<open>2\<^sup>3\<^sup>2\<close>), and the header
  describes them: sizes, load addresses, page size, name, the command line spread over its two fields, and the
  SHA-1 of the parts.  Only if some file cannot be read in full or the output not be written (\<open>smooth\<close> fails) may
  the status be 1 instead; then no file is changed, except that the output file may have been removed.
\<close>

theorem mkbootimg_main_exact:
  assumes "ctx_ok ctx" "list_all c_str args"
  shows "case parse_args default_opts args of
      Inl e \<Rightarrow> (e = 1 \<or> e = - 1) \<and> mkbootimg_main w ctx args = Inr (e, hs_files w)
    | Inr m \<Rightarrow>
      if refused m then mkbootimg_main w ctx args = Inr (1, hs_files w)
      else (\<exists>h p. parts_of w m p \<and> hdr_for m p h \<and>
              mkbootimg_main w ctx args = Inr (0, (hs_files w)(the (mo_bootimg m) \<mapsto> boot_layout (unat (mo_pagesize m)) h p))) \<or>
           \<not> smooth w m \<and> (mkbootimg_main w ctx args = Inr (1, hs_files w) \<or>
              mkbootimg_main w ctx args = Inr (1, (hs_files w)(the (mo_bootimg m) := None)))"
  by (rule mkbootimg_main_cases [OF assms])

definition demo_host :: host where
  "demo_host = \<lparr>hs_files = [''k'' \<mapsto> [1, 2, 3], ''r'' \<mapsto> [4, 5], ''s'' \<mapsto> [8, 9], ''d'' \<mapsto> [7]], hs_may_open = (\<lambda>_. True),
     hs_may_create = (\<lambda>_. True), hs_read_io = (\<lambda>_. []), hs_write_io = [], hs_malloc = (\<lambda>_. True)\<rparr>"

definition demo_args :: "string list" where
  "demo_args = [''--kernel'', ''k'', ''--ramdisk'', ''r'', ''--dt'', ''d'', ''--cmdline'', ''quiet'',
     ''--base'', ''0x40000000'', ''--pagesize'', ''4096'', ''-o'', ''boot.img'']"

definition demo_opts :: mk_opts where
  "demo_opts = default_opts\<lparr>mo_kernel_fn := Some ''k'', mo_ramdisk_fn := Some ''r'', mo_dt_fn := Some ''d'',
     mo_cmdline := ''quiet'', mo_base := 0x40000000, mo_pagesize := 4096, mo_bootimg := Some ''boot.img''\<rparr>"

lemma demo_numbers: "strtoul ''0x40000000'' 16 = 0x40000000" "strtoul ''4096'' 10 = 4096"
  by (simp_all add: strtoul_def skip_prefix_def is_digit_def digit_val_def is_space_def of_char_def)

lemma demo_parse: "parse_args default_opts demo_args = Inr demo_opts"
  by (simp add: demo_args_def set_opt_def demo_opts_def default_opts_def demo_numbers)

lemma demo_args_c_str: "list_all c_str demo_args"
  by (simp add: demo_args_def c_str_def bytes_of_def of_char_def)

lemma demo_fill: "\<exists>h. fill_hdr demo_opts = Inr h"
  by (simp add: fill_hdr_def demo_opts_def default_opts_def Let_def)

lemma demo_smooth: "smooth demo_host demo_opts"
  by (simp add: smooth_def loadable_def demo_host_def demo_opts_def default_opts_def ramdisk_of_def)

lemma demo_success: "\<exists>files. mkbootimg_main demo_host demo_ctx demo_args = Inr (0, files)"
  using mkbootimg_main_success [OF demo_ctx_ok(1) demo_args_c_str demo_parse _ demo_smooth] demo_fill by blast

theorem mkbootimg_main_exact_witness:
  "\<exists>h p. parts_of demo_host demo_opts p \<and> hdr_for demo_opts p h \<and>
     mkbootimg_main demo_host demo_ctx demo_args = Inr (0, (hs_files demo_host)(''boot.img'' \<mapsto> boot_layout 4096 h p))"
proof -
  have "the (mo_bootimg demo_opts) = ''boot.img''" "unat (mo_pagesize demo_opts) = 4096" "\<not> refused demo_opts"
    by (simp_all add: demo_opts_def refused_def default_opts_def)
  then show ?thesis
    using mkbootimg_main_exact [OF demo_ctx_ok(1) demo_args_c_str, of demo_host] demo_smooth by (simp add: demo_parse)
qed

section \<open>The image that fastboot builds\<close>

definition page_up :: "nat \<Rightarrow> nat \<Rightarrow> nat" where
  "page_up ps n = (n + ps - 1) div ps * ps"

lemma page_up_mod:
  assumes "0 < ps"
  shows "page_up ps n = n + (ps - n mod ps) mod ps"
proof (cases "n mod ps = 0")
  case True
  then obtain q where q: "n = ps * q" by (auto elim: dvdE simp: mod_eq_0_iff_dvd)
  have "(ps * q + ps - 1) div ps = q"
    using assms by (intro div_nat_eqI) (simp_all add: algebra_simps)
  then show ?thesis using q assms by (simp add: page_up_def)
next
  case False
  let ?q = "n div ps" and ?r = "n mod ps"
  have n: "n = ps * ?q + ?r" by simp
  have r: "?r < ps" using assms by simp
  have "(n + ps - 1) div ps = Suc ?q"
    using False r mult_div_mod_eq [of ps n] by (intro div_nat_eqI; unfold mult_Suc_right; linarith)
  then have "page_up ps n = ps * ?q + ps" by (simp add: page_up_def)
  also have "\<dots> = n + (ps - ?r)" using n r by linarith
  finally show ?thesis using False r by simp
qed

lemma length_pad_page_up: "0 < ps \<Longrightarrow> length (pad_page ps d) = page_up ps (length d)"
  by (simp add: pad_page_def page_up_mod)

lemma page_up_bounds:
  assumes "0 < ps"
  shows "n \<le> page_up ps n" "page_up ps n < n + ps"
  using assms by (simp_all add: page_up_mod)

lemma page_up_0 [simp]: "0 < ps \<Longrightarrow> page_up ps 0 = 0"
  by (simp add: page_up_mod)

lemma and_not_page_mask:
  assumes "p = 2 ^ k" "k < 32" "unat n + unat p - 1 < 2 ^ 32"
  shows "unat (((n :: u32) + (p - 1)) AND NOT (p - 1)) = page_up (unat p) (unat n)"
proof -
  let ?x = "n + (p - 1)"
  have p: "unat p = 2 ^ k" using assms by (simp only: unat_exp_u32)
  have p1: "p \<noteq> 0" using p by (metis power_not_zero unat_0 zero_neq_numeral)
  have x: "unat ?x = unat n + (2 ^ k - 1)"
    using assms(3) p p1 by (subst unat_add_u32) (simp_all add: unat_minus_one)
  have "p - 1 = mask k" unfolding assms(1) by (simp only: mask_eq_exp_minus_1)
  then have m: "unat (?x AND (p - 1)) = unat ?x mod 2 ^ k" using unat_and_mask [OF assms(1,2)] p by simp
  have "unat (?x AND NOT (p - 1)) = unat ?x - unat ?x mod 2 ^ k"
    unfolding and_not_eq_minus using m by (subst unat_sub) (simp_all add: word_le_nat_alt)
  also have "\<dots> = unat ?x div 2 ^ k * 2 ^ k" by (simp add: minus_mod_eq_div_mult)
  finally show ?thesis using x p by (simp add: page_up_def)
qed

lemma memcpy_at_InrD:
  "memcpy_at mem off src n = Inr mem' \<Longrightarrow> length mem' = length mem \<and> (n = 0 \<or> off + n \<le> length mem)"
  by (auto simp: memcpy_at_def split: if_splits)

lemma memcpy_at_Inl: "memcpy_at mem off src n = Inl e \<Longrightarrow> e = OutOfBounds"
  by (auto simp: memcpy_at_def split: if_splits)

lemma memcpy_fresh:
  "length src \<le> r \<Longrightarrow> memcpy_at (a @ replicate r 0) (length a) src (length src) = Inr (a @ src @ replicate (r - length src) 0)"
  by (simp add: memcpy_at_def)

lemma memcpy_page:
  assumes "0 < ps" "length (pad_page ps src) \<le> r"
  shows "memcpy_at (a @ replicate r 0) (length a) src (length src) =
    Inr ((a @ pad_page ps src) @ replicate (r - length (pad_page ps src)) 0)"
proof -
  let ?g = "(ps - length src mod ps) mod ps"
  have l: "length (pad_page ps src) = length src + ?g" by (simp add: pad_page_def)
  then have "r - length src = ?g + (r - length (pad_page ps src))" using assms(2) by linarith
  then have "replicate (r - length src) (0 :: byte) = replicate ?g 0 @ replicate (r - length (pad_page ps src)) 0"
    by (simp only: replicate_add)
  then show ?thesis using assms(2) l by (simp add: memcpy_fresh) (simp add: pad_page_def)
qed

definition fastboot_hdr :: "u32 \<Rightarrow> u32 \<Rightarrow> u32 \<Rightarrow> u32 \<Rightarrow> u32 \<Rightarrow> u32 \<Rightarrow> u32 \<Rightarrow> u32 \<Rightarrow> u32 \<Rightarrow> boot_img_hdr" where
  "fastboot_hdr ks ko rs ro ss so page_size base tags_offset =
     zero_hdr\<lparr>bh_magic := BOOT_MAGIC, bh_kernel_size := ks, bh_ramdisk_size := rs, bh_second_size := ss,
       bh_kernel_addr := base + ko, bh_ramdisk_addr := base + ro, bh_second_addr := base + so,
       bh_tags_addr := base + tags_offset, bh_page_size := page_size\<rparr>"

lemma fastboot_hdr_ok: "hdr_ok (fastboot_hdr ks ko rs ro ss so ps b t)"
  by (simp add: hdr_ok_def fastboot_hdr_def zero_hdr_def BOOT_MAGIC_def bytes_of_def)

lemma fastboot_hdr_zeros:
  "hdr_bytes (fastboot_hdr ks ko rs ro ss so ps b t) = take 40 (hdr_bytes (fastboot_hdr ks ko rs ro ss so ps b t)) @ replicate 1592 0"
proof -
  have "u32_le 0 = replicate 4 0" by (simp add: u32_le_def numeral_eq_Suc)
  then show ?thesis
    by (simp add: hdr_bytes_def fastboot_hdr_def zero_hdr_def BOOT_MAGIC_def bytes_of_def replicate_add [symmetric])
qed

lemma fastboot_header_page:
  assumes "1632 \<le> ps" "ps \<le> n"
  shows "memcpy_at (replicate n 0) 0 (hdr_bytes (fastboot_hdr ks ko rs ro ss so pz b t)) 40 =
    Inr (pad_page ps (hdr_bytes (fastboot_hdr ks ko rs ro ss so pz b t)) @ replicate (n - ps) 0)"
    "length (pad_page ps (hdr_bytes (fastboot_hdr ks ko rs ro ss so pz b t))) = ps"
proof -
  let ?h = "hdr_bytes (fastboot_hdr ks ko rs ro ss so pz b t)"
  have l: "length ?h = 1632" by (rule length_hdr_bytes [OF fastboot_hdr_ok])
  have g: "(ps - 1632 mod ps) mod ps = ps - 1632" using assms(1) by (cases "ps = 1632") simp_all
  have "replicate (n - 40) (0 :: byte) = replicate 1592 0 @ replicate (ps - 1632) 0 @ replicate (n - ps) 0"
    using assms by (simp add: replicate_add [symmetric])
  moreover have "pad_page ps ?h = take 40 ?h @ replicate 1592 0 @ replicate (ps - 1632) 0"
    unfolding pad_page_def l g by (subst fastboot_hdr_zeros) simp
  ultimately show "memcpy_at (replicate n 0) 0 ?h 40 = Inr (pad_page ps ?h @ replicate (n - ps) 0)"
    using assms l by (simp add: memcpy_at_def)
  show "length (pad_page ps ?h) = ps" using assms l g by (simp add: pad_page_def)
qed

lemma word_sum4:
  fixes a b c d :: u32
  assumes "unat a + unat b + unat c + unat d < 2 ^ 32"
  shows "unat (a + b + c + d) = unat a + unat b + unat c + unat d"
  using assms by (simp add: unat_add_u32)

text \<open>
  The in-memory builder in the case that the whole image is smaller than 4 GiB.
\<close>

lemma mkbootimg_fits:
  assumes "page_size = 2 ^ k" "11 \<le> k" "k < 32"
    "length kern = unat ks" "length ramdisk = unat rs" "length second = unat ss"
    "unat page_size + page_up (unat page_size) (unat ks) + page_up (unat page_size) (unat rs)
       + page_up (unat page_size) (unat ss) < 2 ^ 32"
  shows "\<exists>sz. mkbootimg True kern ks ko ramdisk rs ro second ss so page_size base tags_offset = Inr (Some
    (boot_layout (unat page_size) (fastboot_hdr ks ko rs ro ss so page_size base tags_offset)
      \<lparr>pt_kernel = kern, pt_ramdisk = Some ramdisk, pt_second = Some second, pt_dt = None\<rparr>), sz)"
proof -
  let ?ps = "unat page_size" and ?h = "fastboot_hdr ks ko rs ro ss so page_size base tags_offset"
  have "(2 :: nat) ^ 11 \<le> 2 ^ k" using assms(2) by (intro power_increasing) simp_all
  then have ps: "2048 \<le> ?ps" using unat_exp_u32 [OF assms(3)] assms(1) by simp
  then have pos: "0 < ?ps" by simp
  have up: "unat ((n + (page_size - 1)) AND NOT (page_size - 1)) = page_up ?ps (unat n)"
    if "page_up ?ps (unat n) + ?ps \<le> 2 ^ 32" for n
    using page_up_bounds [OF pos, of "unat n"] that ps
    by (intro and_not_page_mask [OF assms(1,3)]) linarith
  have ku: "unat ((ks + (page_size - 1)) AND NOT (page_size - 1)) = page_up ?ps (unat ks)"
    and ru: "unat ((rs + (page_size - 1)) AND NOT (page_size - 1)) = page_up ?ps (unat rs)"
    and su: "unat ((ss + (page_size - 1)) AND NOT (page_size - 1)) = page_up ?ps (unat ss)"
    using assms(7) by (intro up; linarith)+
  have sz: "unat (page_size + ((ks + (page_size - 1)) AND NOT (page_size - 1)) + ((rs + (page_size - 1)) AND NOT (page_size - 1))
      + ((ss + (page_size - 1)) AND NOT (page_size - 1))) =
    ?ps + page_up ?ps (unat ks) + page_up ?ps (unat rs) + page_up ?ps (unat ss)"
    using assms(7) by (subst word_sum4) (simp_all only: ku ru su)
  have len: "length (pad_page ?ps kern) = page_up ?ps (unat ks)" "length (pad_page ?ps ramdisk) = page_up ?ps (unat rs)"
    "length (pad_page ?ps second) = page_up ?ps (unat ss)"
    using assms(4-6) by (simp_all add: length_pad_page_up [OF pos])
  note hp = fastboot_header_page [where ps = ?ps and ks = ks and ko = ko and rs = rs and ro = ro and ss = ss and so = so
      and pz = page_size and b = base and t = tags_offset]
  let ?H = "pad_page ?ps (hdr_bytes ?h)"
  let ?K = "?H @ pad_page ?ps kern" let ?R = "?K @ pad_page ?ps ramdisk"
  let ?ku = "page_up ?ps (unat ks)" and ?ru = "page_up ?ps (unat rs)" and ?su = "page_up ?ps (unat ss)"
  have H: "memcpy_at (replicate (?ps + ?ku + ?ru + ?su) 0) 0 (hdr_bytes ?h) 40 = Inr (?H @ replicate (?ku + ?ru + ?su) 0)"
    "length ?H = ?ps"
    using hp [of "?ps + ?ku + ?ru + ?su"] ps by (simp_all add: add.assoc)
  have K: "memcpy_at (?H @ replicate (?ku + ?ru + ?su) 0) ?ps kern (unat ks) = Inr (?K @ replicate (?ru + ?su) 0)"
    using memcpy_page [OF pos, of kern "?ku + ?ru + ?su" ?H] assms(4) len H(2) by (simp add: add.assoc)
  have R: "memcpy_at (?K @ replicate (?ru + ?su) 0) (?ps + ?ku) ramdisk (unat rs) = Inr (?R @ replicate ?su 0)"
    using memcpy_page [OF pos, of ramdisk "?ru + ?su" ?K] assms(5) len H(2) by simp
  have S: "memcpy_at (?R @ replicate ?su 0) (?ps + ?ku + ?ru) second (unat ss) = Inr (?R @ pad_page ?ps second)"
    using memcpy_page [OF pos, of second ?su ?R] assms(6) len H(2) by (simp add: add.assoc)
  show ?thesis
    unfolding mkbootimg_def Let_def fastboot_hdr_def [symmetric] sz ku ru H(1) K R S bindR_simps
    by (simp add: boot_layout_def opt_bytes_def H(1) K R S)
qed

lemma mkbootimg_InrD:
  fixes page_size ks rs ss :: u32
  defines "up \<equiv> \<lambda>n. (n + (page_size - 1)) AND NOT (page_size - 1)"
  defines "N \<equiv> unat (page_size + up ks + up rs + up ss)"
  assumes "mkbootimg True kern ks ko ramdisk rs ro second ss so page_size base tags_offset = Inr y"
  shows "(ks = 0 \<or> unat page_size + unat ks \<le> N) \<and> (rs = 0 \<or> unat page_size + unat (up ks) + unat rs \<le> N) \<and>
    (ss = 0 \<or> unat page_size + unat (up ks) + unat (up rs) + unat ss \<le> N)"
proof -
  obtain m1 m2 m3 m4 where
    "memcpy_at (replicate N 0) 0 (hdr_bytes (fastboot_hdr ks ko rs ro ss so page_size base tags_offset)) 40 = Inr m1"
    "memcpy_at m1 (unat page_size) kern (unat ks) = Inr m2"
    "memcpy_at m2 (unat page_size + unat (up ks)) ramdisk (unat rs) = Inr m3"
    "memcpy_at m3 (unat page_size + unat (up ks) + unat (up rs)) second (unat ss) = Inr m4"
    using assms(3) by (auto simp: mkbootimg_def Let_def fastboot_hdr_def [symmetric] up_def N_def bindR_eq_Inr_iff)
  from this [THEN memcpy_at_InrD] show ?thesis by (auto simp: unat_eq_0)
qed

lemma mkbootimg_overflows:
  assumes "page_size = 2 ^ k" "k < 32"
    "2 ^ 32 \<le> unat page_size + page_up (unat page_size) (unat ks) + page_up (unat page_size) (unat rs)
       + page_up (unat page_size) (unat ss)"
  shows "mkbootimg True kern ks ko ramdisk rs ro second ss so page_size base tags_offset = Inl OutOfBounds"
proof (cases "mkbootimg True kern ks ko ramdisk rs ro second ss so page_size base tags_offset")
  case (Inl e)
  then have "e = OutOfBounds"
    by (auto simp: mkbootimg_def Let_def bindR_def split: sum.splits dest: memcpy_at_Inl)
  then show ?thesis using Inl by simp
next
  case (Inr y)
  let ?ps = "unat page_size" and ?up = "\<lambda>n. (n + (page_size - 1)) AND NOT (page_size - 1)"
  let ?N = "unat (page_size + ?up ks + ?up rs + ?up ss)"
  have pos: "0 < ?ps" using unat_exp_u32 [OF assms(2)] assms(1) by simp
  have N: "?N < 2 ^ 32" and P: "?ps < 2 ^ 32" using unat_less_u32 by simp_all
  note b = mkbootimg_InrD [OF Inr]
  have z: "unat n = 0 \<longleftrightarrow> n = 0" for n :: u32 by (rule unat_eq_0)
  have up: "unat (?up n) = page_up ?ps (unat n)" if "n = 0 \<or> ?ps + unat n \<le> ?N" for n
    using that N P pos by (intro and_not_page_mask [OF assms(1,2)]) (elim disjE; simp)
  have ku: "unat (?up ks) = page_up ?ps (unat ks)" using b by (intro up) blast
  have ru: "unat (?up rs) = page_up ?ps (unat rs)" using b by (intro up) linarith
  have su: "unat (?up ss) = page_up ?ps (unat ss)" using b by (intro up) linarith
  let ?T = "?ps + page_up ?ps (unat ks) + page_up ?ps (unat rs) + page_up ?ps (unat ss)"
  have "?N = ?T mod 2 ^ 32" by (simp add: unat_word_ariths mod_simps ku ru su)
  also have "\<dots> \<le> ?T - 2 ^ 32" using assms(3) by (simp add: le_mod_geq)
  finally have "?N + 2 ^ 32 \<le> ?T" using assms(3) by linarith
  then have False
    using b P page_up_bounds(2) [OF pos, of "unat ks"] page_up_bounds(2) [OF pos, of "unat rs"]
      page_up_bounds(2) [OF pos, of "unat ss"] page_up_0 [OF pos] unfolding ku ru z [symmetric]
    by (cases "unat ss = 0"; cases "unat rs = 0"; cases "unat ks = 0") simp_all
  then show ?thesis ..
qed

text \<open>
  The builder of fastboot, for a page size that is a power of two and holds the header: if the paged
  image is smaller than 4 GiB, the block it returns is the same layout that the program mkbootimg
  writes, with the sizes, addresses and page size in the header; otherwise the sizes wrap around and it
  writes outside the block it allocated.
\<close>

theorem fastboot_mkbootimg_exact:
  fixes page_size ks rs ss ko ro so base tags_offset :: u32
  assumes "page_size = 2 ^ k" "11 \<le> k" "k < 32"
    "length kern = unat ks" "length ramdisk = unat rs" "length second = unat ss"
  defines "img \<equiv> boot_layout (unat page_size) (fastboot_hdr ks ko rs ro ss so page_size base tags_offset)
    \<lparr>pt_kernel = kern, pt_ramdisk = Some ramdisk, pt_second = Some second, pt_dt = None\<rparr>"
  shows "if length img < 2 ^ 32
    then \<exists>sz. mkbootimg True kern ks ko ramdisk rs ro second ss so page_size base tags_offset = Inr (Some img, sz)
    else mkbootimg True kern ks ko ramdisk rs ro second ss so page_size base tags_offset = Inl OutOfBounds"
proof -
  let ?ps = "unat page_size"
  have "(2 :: nat) ^ 11 \<le> 2 ^ k" using assms(2) by (intro power_increasing) simp_all
  then have ps: "2048 \<le> ?ps" using unat_exp_u32 [OF assms(3)] assms(1) by simp
  then have "length img = ?ps + page_up ?ps (unat ks) + page_up ?ps (unat rs) + page_up ?ps (unat ss)"
    using fastboot_header_page(2) [of ?ps ?ps] assms(4-6)
    by (simp add: img_def boot_layout_def opt_bytes_def length_pad_page_up)
  then show ?thesis
    using mkbootimg_fits [OF assms(1-6), of ko ro so base tags_offset]
      mkbootimg_overflows [OF assms(1,3), of ks rs ss kern ko ramdisk ro second so base tags_offset]
    by (simp add: img_def)
qed

theorem fastboot_mkbootimg_exact_witness:
  "\<exists>sz. mkbootimg True [1, 2, 3] 3 0x8000 [4] 1 0x1000000 [] 0 0xf00000 2048 0x10000000 0x100 = Inr (Some
    (boot_layout 2048 (fastboot_hdr 3 0x8000 1 0x1000000 0 0xf00000 2048 0x10000000 0x100)
      \<lparr>pt_kernel = [1, 2, 3], pt_ramdisk = Some [4], pt_second = Some [], pt_dt = None\<rparr>), sz)"
proof -
  have "length (boot_layout 2048 (fastboot_hdr 3 0x8000 1 0x1000000 0 0xf00000 2048 0x10000000 0x100)
      \<lparr>pt_kernel = [1, 2, 3], pt_ramdisk = Some [4], pt_second = Some [], pt_dt = None\<rparr>) < 2 ^ 32"
    using fastboot_header_page(2) [of 2048 2048]
    by (simp add: boot_layout_def opt_bytes_def length_pad_page_up page_up_def)
  then show ?thesis
    using fastboot_mkbootimg_exact [of 2048 11 "[1, 2, 3]" 3 "[4]" 1 "[]" 0, where ko = "0x8000" and ro = "0x1000000"
      and so = "0xf00000" and base = "0x10000000" and tags_offset = "0x100"] by simp
qed

end
