(* ===== verification/Unpack_Boot.thy ===== *)
theory Unpack_Boot
  imports Boot_Img
begin

text \<open>
  The program \<^verbatim>\<open>mkbootimg/unpackbootimg.c\<close>, which takes a boot image apart again, and what it makes of the
  images that mkbootimg writes.  A stream is the bytes of its file with a position; fresh memory has
  unspecified contents, given by an argument \<open>junk\<close>.  The counter \<^verbatim>\<open>total_read\<close>, which nothing reads, the
  terminal output and the creation of the output directory are left out.
\<close>

section \<open>Formatting\<close>

definition hex_digit :: "nat \<Rightarrow> byte" where
  "hex_digit n = word_of_nat (if n < 10 then 48 + n else 87 + n)"

text \<open>\<^verbatim>\<open>%08x\<close> and \<^verbatim>\<open>%d\<close> of a 32-bit argument.\<close>

definition fmt_08x :: "u32 \<Rightarrow> byte list" where
  "fmt_08x w = map (\<lambda>i. hex_digit (unat (drop_bit (4 * (7 - i)) w AND 15))) [0..<8]"

fun dec_digits :: "nat \<Rightarrow> byte list" where
  "dec_digits n = (if n < 10 then [hex_digit n] else dec_digits (n div 10) @ [hex_digit (n mod 10)])"

declare dec_digits.simps [simp del]

definition fmt_d :: "u32 \<Rightarrow> byte list" where
  "fmt_d w = (if sint w < 0 then 45 # dec_digits (nat (- sint w)) else dec_digits (nat (sint w)))"

text \<open>\<^verbatim>\<open>basename\<close>: the last component of a path, trailing slashes ignored.\<close>

definition basename :: "string \<Rightarrow> string" where
  "basename s =
    (let r = dropWhile (\<lambda>c. c = CHR ''/'') (rev s) in
     if s = [] then ''.'' else if r = [] then ''/'' else rev (takeWhile (\<lambda>c. c \<noteq> CHR ''/'') r))"

section \<open>The program\<close>

type_synonym stream = "byte list \<times> nat"

definition fread :: "stream \<Rightarrow> nat \<Rightarrow> byte list \<times> stream" where
  "fread f n = (case f of (bs, pos) \<Rightarrow> (let d = take n (drop pos bs) in (d, (bs, pos + length d))))"

text \<open>The memory request for a signed size: a negative one is a huge \<^verbatim>\<open>size_t\<close>.\<close>

definition size_t_of :: "int \<Rightarrow> nat" where
  "size_t_of n = unat (word_of_int n :: u64)"

definition read_padding :: "host \<Rightarrow> stream \<Rightarrow> u32 \<Rightarrow> int \<Rightarrow> stream res" where
  "read_padding w f itemsize pagesize =
    (let size = size_t_of pagesize;
         pagemask = (word_of_int pagesize :: u32) - 1
     in
     if itemsize AND pagemask = 0 then Inr f
     else
       let cnt = word_of_int pagesize - (itemsize AND pagemask) in
       bindR (assertR (hs_malloc w size) NullDeref) (\<lambda>_.
         case fread f (unat cnt) of (d, f) \<Rightarrow>
           bindR (assertR (length d \<le> size) OutOfBounds) (\<lambda>_. Inr f)))"

definition write_new :: "host \<Rightarrow> (string \<rightharpoonup> byte list) \<Rightarrow> string \<Rightarrow> byte list \<Rightarrow> (string \<rightharpoonup> byte list) res" where
  "write_new w files path data = bindR (assertR (hs_may_create w path) NullDeref) (\<lambda>_. Inr (files(path \<mapsto> data)))"

definition write_string_to_file ::
  "host \<Rightarrow> (string \<rightharpoonup> byte list) \<Rightarrow> string \<Rightarrow> byte list \<Rightarrow> (string \<rightharpoonup> byte list) res" where
  "write_string_to_file w files path s = write_new w files path (s @ [10])"

text \<open>
  \<^verbatim>\<open>dump_to_file\<close> together with the opening and closing of its target: what the stream does not deliver
  stays as the fresh buffer had it.
\<close>

definition dump_to_file ::
  "host \<Rightarrow> (nat \<Rightarrow> byte) \<Rightarrow> (string \<rightharpoonup> byte list) \<Rightarrow> string \<Rightarrow> u32 \<Rightarrow> stream \<Rightarrow> ((string \<rightharpoonup> byte list) \<times> stream) res" where
  "dump_to_file w junk files path len f =
    bindR (assertR (hs_malloc w (unat len)) NullDeref) (\<lambda>_.
      case fread f (unat len) of (d, f) \<Rightarrow>
        bindR (write_new w files path (d @ map junk [length d..<unat len])) (\<lambda>files. Inr (files, f)))"

definition PATH_MAX :: nat where
  "PATH_MAX = 4096"

definition out_path :: "string \<Rightarrow> string \<Rightarrow> string \<Rightarrow> string res" where
  "out_path dir fn suffix =
    (let p = dir @ ''/'' @ fn @ suffix in
     bindR (assertR (length p < PATH_MAX) OutOfBounds) (\<lambda>_. Inr p))"

text \<open>The string in a field of the header; without a terminating zero the library reads beyond it.\<close>

definition field_string :: "byte list \<Rightarrow> byte list res" where
  "field_string b = (if 0 \<in> set b then Inr (cstr b) else Inl OutOfBounds)"

definition creat_repack_sricpt :: "string \<Rightarrow> string \<Rightarrow> boot_img_hdr \<Rightarrow> string \<Rightarrow> byte list res" where
  "creat_repack_sricpt kernel_filename dt_filename h filename =
    bindR (field_string (bh_cmdline h)) (\<lambda>cmd.
      let script = bytes_of ''#!/bin/sh'' @ [10, 10] @ bytes_of ''mkbootimg --kernel ./'' @ bytes_of kernel_filename
            @ bytes_of '' --dt ./'' @ bytes_of dt_filename @ bytes_of '' --cmdline '' @ [39] @ cmd @ [39]
            @ bytes_of '' --base 0x'' @ fmt_08x (bh_kernel_addr h - 0x8000)
            @ bytes_of '' --pagesize '' @ fmt_d (bh_page_size h)
            @ bytes_of '' --ramdisk ./ramdisk.img -o ./'' @ bytes_of (basename filename) @ [10]
      in bindR (assertR (length script < 1024) OutOfBounds) (\<lambda>_. Inr script))"

record un_opts =
  uo_filename :: "string option"
  uo_directory :: string
  uo_pagesize :: int

text \<open>
  The arguments.  The value of a last argument without one is \<^verbatim>\<open>NULL\<close>, which only the input name survives.
\<close>

fun un_args :: "un_opts \<Rightarrow> string list \<Rightarrow> (int + un_opts) res" where
  "un_args u [] = Inr (Inr u)"
| "un_args u [arg] =
    (if arg = ''--input'' \<or> arg = ''-i'' then Inr (Inr (u\<lparr>uo_filename := None\<rparr>))
     else if arg = ''--output'' \<or> arg = ''-o'' \<or> arg = ''--pagesize'' \<or> arg = ''-p'' then Inl NullDeref
     else Inr (Inl 0))"
| "un_args u (arg # v # rest) =
    (if arg = ''--input'' \<or> arg = ''-i'' then un_args (u\<lparr>uo_filename := Some v\<rparr>) rest
     else if arg = ''--output'' \<or> arg = ''-o'' then un_args (u\<lparr>uo_directory := v\<rparr>) rest
     else if arg = ''--pagesize'' \<or> arg = ''-p'' then un_args (u\<lparr>uo_pagesize := sint (ucast (strtoul v 16) :: u32)\<rparr>) rest
     else Inr (Inl 0))"

definition unpack_files ::
  "host \<Rightarrow> (nat \<Rightarrow> byte) \<Rightarrow> un_opts \<Rightarrow> string \<Rightarrow> byte list \<Rightarrow> (string \<rightharpoonup> byte list) res" where
  "unpack_files w junk u fn img =
    (case fread (img, 0) 1632 of (d, f) \<Rightarrow>
     let h = hdr_of_bytes (d @ replicate (1632 - length d) 0);
         pagesize = (if uo_pagesize u = 0 then sint (bh_page_size h) else uo_pagesize u);
         path = out_path (uo_directory u) (basename fn);
         files = hs_files w
     in
     bindR (field_string (bh_cmdline h)) (\<lambda>cmd.
     bindR (path ''-cmdline'') (\<lambda>p. bindR (write_string_to_file w files p cmd) (\<lambda>files.
     bindR (path ''-base'') (\<lambda>p.
     bindR (write_string_to_file w files p (bytes_of ''0x'' @ fmt_08x (bh_kernel_addr h - 0x8000))) (\<lambda>files.
     bindR (path ''-pagesize'') (\<lambda>p. bindR (write_string_to_file w files p (fmt_d (bh_page_size h))) (\<lambda>files.
     bindR (read_padding w f 1632 pagesize) (\<lambda>f.
     bindR (path ''-zImage'') (\<lambda>kp. bindR (dump_to_file w junk files kp (bh_kernel_size h) f) (\<lambda>(files, f).
     bindR (read_padding w f (bh_kernel_size h) pagesize) (\<lambda>f.
     bindR (path ''-ramdisk.gz'') (\<lambda>p. bindR (dump_to_file w junk files p (bh_ramdisk_size h) f) (\<lambda>(files, f).
     bindR (read_padding w f (bh_ramdisk_size h) pagesize) (\<lambda>f.
     bindR (path ''-dt.img'') (\<lambda>dp. bindR (dump_to_file w junk files dp (bh_dt_size h) f) (\<lambda>(files, f).
     bindR (read_padding w f (bh_dt_size h) pagesize) (\<lambda>f.
     bindR (out_path (uo_directory u) ''repack.sh'' '''') (\<lambda>p.
     bindR (creat_repack_sricpt (basename kp) (basename dp) h fn) (\<lambda>script.
       write_new w files p script))))))))))))))))))))"

definition unpackbootimg_main :: "host \<Rightarrow> (nat \<Rightarrow> byte) \<Rightarrow> string list \<Rightarrow> (int \<times> (string \<rightharpoonup> byte list)) res" where
  "unpackbootimg_main w junk args =
    bindR (un_args \<lparr>uo_filename = None, uo_directory = ''./'', uo_pagesize = 0\<rparr> args) (\<lambda>r.
      case r of Inl c \<Rightarrow> Inr (c, hs_files w)
      | Inr u \<Rightarrow>
         (case uo_filename u of None \<Rightarrow> Inr (0, hs_files w)
          | Some fn \<Rightarrow>
             (case open_rdonly w fn of None \<Rightarrow> Inl NullDeref
              | Some f \<Rightarrow> bindR (unpack_files w junk u fn (fl_bytes f)) (\<lambda>files. Inr (0, files)))))"

section \<open>Reading a layout\<close>

text \<open>A host on which every file can be created and every allocation succeeds.\<close>

definition permissive :: "host \<Rightarrow> bool" where
  "permissive w \<longleftrightarrow> (\<forall>p. hs_may_create w p) \<and> (\<forall>n. hs_malloc w n)"

lemma page_ok_facts:
  assumes "page_ok ps"
  shows "0 < unat ps" "sint ps = int (unat ps)" "word_of_int (sint ps) = ps" "size_t_of (sint ps) = unat ps"
proof -
  have le: "unat ps \<le> 16384" "0 < unat ps" using assms by (auto simp: page_ok_def)
  then show "0 < unat ps" "sint ps = int (unat ps)" "word_of_int (sint ps) = ps" by (simp_all add: sint_small_u32)
  have "unat (word_of_nat (unat ps) :: u64) = unat ps" using le by (simp only: unat_of_nat) simp
  then show "size_t_of (sint ps) = unat ps" using le by (simp add: size_t_of_def sint_small_u32)
qed

lemma read_padding_gap:
  assumes "page_ok ps"
  shows "unat (n AND (ps - 1)) = unat n mod unat ps"
    "n AND (ps - 1) \<noteq> 0 \<Longrightarrow> unat (ps - (n AND (ps - 1))) = (unat ps - unat n mod unat ps) mod unat ps"
proof -
  obtain k where k: "ps = 2 ^ k" "k < 32" using page_ok_power [OF assms] by blast
  show m: "unat (n AND (ps - 1)) = unat n mod unat ps" by (rule unat_and_mask [OF k])
  have "unat n mod unat ps < unat ps" using page_ok_facts(1) [OF assms] by simp
  moreover assume "n AND (ps - 1) \<noteq> 0"
  then have "unat n mod unat ps \<noteq> 0" using m by (metis unat_eq_0)
  ultimately show "unat (ps - (n AND (ps - 1))) = (unat ps - unat n mod unat ps) mod unat ps"
    using m by (subst unat_sub) (simp_all add: word_le_nat_alt)
qed

lemma read_padding_total:
  assumes "page_ok ps" "permissive w"
  shows "\<exists>f'. read_padding w f n (sint ps) = Inr f'"
proof -
  have "unat (ps - (n AND (ps - 1))) \<le> unat ps" if "n AND (ps - 1) \<noteq> 0"
    using read_padding_gap(2) [OF assms(1) that] page_ok_facts(1) [OF assms(1)] by (simp add: less_imp_le)
  then show ?thesis
    using assms(2) by (cases f) (auto simp: read_padding_def fread_def Let_def permissive_def page_ok_facts(3,4) [OF assms(1)] min_le_iff_disj)
qed

lemma drop_past: "drop pos img = a @ rest \<Longrightarrow> drop (pos + length a) img = rest"
  by (metis add.commute append_eq_conv_conj drop_drop)

lemma fread_exact: "drop pos img = a @ rest \<Longrightarrow> fread (img, pos) (length a) = (a, (img, pos + length a))"
  unfolding fread_def Let_def prod.case by (simp only: append_eq_conv_conj [of a rest, symmetric] take_append) simp

lemma read_padding_page:
  assumes "page_ok ps" "permissive w" "drop pos img = replicate ((unat ps - unat n mod unat ps) mod unat ps) 0 @ rest"
  shows "\<exists>pos'. read_padding w (img, pos) n (sint ps) = Inr (img, pos') \<and> drop pos' img = rest"
proof (cases "n AND (ps - 1) = 0")
  case True
  then have "unat n mod unat ps = 0" using read_padding_gap(1) [OF assms(1), of n] by simp
  then show ?thesis using True assms(3) by (simp add: read_padding_def Let_def page_ok_facts(3,4) [OF assms(1)])
next
  case False
  note g = read_padding_gap(2) [OF assms(1) False]
  let ?g = "(unat ps - unat n mod unat ps) mod unat ps"
  have "?g \<le> unat ps" using page_ok_facts(1) [OF assms(1)] by (simp add: less_imp_le)
  moreover have "drop (pos + ?g) img = rest" using drop_past [OF assms(3)] by simp
  ultimately show ?thesis
    using False assms(2) fread_exact [OF assms(3)]
    by (simp add: read_padding_def Let_def page_ok_facts(3,4) [OF assms(1)] g permissive_def)
qed

lemma dump_part:
  assumes "permissive w" "drop pos img = d @ rest" "length d = unat n"
  shows "dump_to_file w junk files path n (img, pos) = Inr (files(path \<mapsto> d), (img, pos + unat n)) \<and> drop (pos + unat n) img = rest"
proof -
  have "drop (pos + unat n) img = rest" using drop_past [OF assms(2)] assms(3) by simp
  then show ?thesis using assms(1) fread_exact [OF assms(2)] assms(3)
    by (simp add: dump_to_file_def permissive_def write_new_def)
qed

text \<open>A part and its padding: the file gets the part, the stream moves behind the padding.\<close>

lemma dump_page:
  assumes "page_ok ps" "permissive w" "drop pos img = pad_page (unat ps) d @ rest" "length d = unat n"
  shows "\<exists>pos1 pos2. dump_to_file w junk files path n (img, pos) = Inr (files(path \<mapsto> d), (img, pos1)) \<and>
    read_padding w (img, pos1) n (sint ps) = Inr (img, pos2) \<and> drop pos2 img = rest"
  using dump_part [OF assms(2), of pos img d "replicate ((unat ps - unat n mod unat ps) mod unat ps) 0 @ rest" n junk files path]
    read_padding_page [OF assms(1,2)] assms(3,4)
  by (fastforce simp: pad_page_def)

lemma basename_path:
  assumes "CHR ''/'' \<notin> set b" "b \<noteq> []"
  shows "basename (d @ ''/'' @ b) = b"
proof -
  have "dropWhile (\<lambda>c. c = CHR ''/'') (rev (d @ ''/'' @ b)) = rev (d @ ''/'' @ b)"
    using assms by (cases "rev b") (auto simp: dropWhile_eq_self_iff)
  moreover have "takeWhile (\<lambda>c. c \<noteq> CHR ''/'') (rev b @ CHR ''/'' # rev d) = rev b"
    using assms(1) by (subst takeWhile_append2) auto
  ultimately show ?thesis by (simp add: basename_def)
qed

lemma length_fmt_08x [simp]: "length (fmt_08x w) = 8"
  by (simp add: fmt_08x_def)

lemma dec_digits_cases:
  "n < 10 \<Longrightarrow> dec_digits n = [hex_digit n]"
  "10 \<le> n \<Longrightarrow> dec_digits n = dec_digits (n div 10) @ [hex_digit (n mod 10)]"
  by (subst dec_digits.simps, simp)+

lemma fmt_d_small: "unat w < 2147483648 \<Longrightarrow> fmt_d w = dec_digits (unat w)"
  by (simp add: fmt_d_def sint_small_u32)

lemma length_fmt_d_page: "page_ok ps \<Longrightarrow> length (fmt_d ps) \<le> 5"
  by (auto simp: page_ok_def fmt_d_small dec_digits_cases)

lemma length_bytes_of [simp]: "length (bytes_of s) = length s"
  by (simp add: bytes_of_def)

lemma repack_script:
  assumes "0 \<in> set (bh_cmdline h)" "page_ok (bh_page_size h)"
    "length k + length d + length (cstr (bh_cmdline h)) + length (basename fn) < 880"
  shows "\<exists>script. creat_repack_sricpt k d h fn = Inr script"
  using assms length_fmt_d_page [OF assms(2)]
  by (auto simp: creat_repack_sricpt_def field_string_def Let_def)

lemma out_path_ok: "length d + length b + length s + 1 < PATH_MAX \<Longrightarrow> out_path d b s = Inr (d @ ''/'' @ b @ s)"
  by (simp add: out_path_def)

lemma unpack_layout:
  fixes u :: un_opts
  defines "P \<equiv> \<lambda>fn suffix. uo_directory u @ ''/'' @ basename fn @ suffix"
  assumes ps: "page_ok ps" and w: "permissive w" and h: "hdr_ok h" "parts_ok h p" "bh_page_size h = ps"
    "0 \<in> set (bh_cmdline h)" and u: "uo_pagesize u = 0"
    and b: "CHR ''/'' \<notin> set (basename fn)" "length (uo_directory u) + length (basename fn) + 12 < PATH_MAX"
    "3 * length (basename fn) + length (cstr (bh_cmdline h)) < 860"
  shows "\<exists>script. unpack_files w junk u fn (boot_layout (unat ps) h p) = Inr ((hs_files w)(
     P fn ''-cmdline'' \<mapsto> cstr (bh_cmdline h) @ [10],
     P fn ''-base'' \<mapsto> (bytes_of ''0x'' @ fmt_08x (bh_kernel_addr h - 0x8000)) @ [10],
     P fn ''-pagesize'' \<mapsto> fmt_d ps @ [10], P fn ''-zImage'' \<mapsto> pt_kernel p,
     P fn ''-ramdisk.gz'' \<mapsto> opt_bytes (pt_ramdisk p),
     P fn ''-dt.img'' \<mapsto> take (unat (bh_dt_size h)) (pad_page (unat ps) (opt_bytes (pt_second p)) @ pad_page (unat ps) (opt_bytes (pt_dt p))),
     uo_directory u @ ''/repack.sh'' \<mapsto> script))"
proof -
  let ?pp = "pad_page (unat ps)" and ?img = "boot_layout (unat ps) h p"
  let ?k = "pt_kernel p" and ?r = "opt_bytes (pt_ramdisk p)" and ?s = "opt_bytes (pt_second p)" and ?d = "opt_bytes (pt_dt p)"
  let ?tail = "?pp ?s @ ?pp ?d" and ?n = "unat (bh_dt_size h)"
  let ?path = "\<lambda>s. uo_directory u @ ''/'' @ basename fn @ s"
  have hl: "length (hdr_bytes h) = 1632" by (rule length_hdr_bytes [OF h(1)])
  have d0: "drop 0 ?img = hdr_bytes h @ replicate ((unat ps - 1632 mod unat ps) mod unat ps) 0 @ ?pp ?k @ ?pp ?r @ ?tail"
    by (simp add: boot_layout_def pad_page_def [of "unat ps" "hdr_bytes h"] hl)
  have r0: "fread (?img, 0) 1632 = (hdr_bytes h, (?img, 1632))" using fread_exact [OF d0] hl by simp
  have "drop 1632 ?img = replicate ((unat ps - unat (1632 :: u32) mod unat ps) mod unat ps) 0 @ ?pp ?k @ ?pp ?r @ ?tail"
    using drop_past [OF d0] hl by simp
  then obtain p1 where p1: "read_padding w (?img, 1632) 1632 (sint ps) = Inr (?img, p1)" "drop p1 ?img = ?pp ?k @ ?pp ?r @ ?tail"
    using read_padding_page [OF ps w] by blast
  define F0 where "F0 = (hs_files w)(?path ''-cmdline'' \<mapsto> cstr (bh_cmdline h) @ [10],
     ?path ''-base'' \<mapsto> (bytes_of ''0x'' @ fmt_08x (bh_kernel_addr h - 0x8000)) @ [10], ?path ''-pagesize'' \<mapsto> fmt_d ps @ [10])"
  define F1 where "F1 = F0(?path ''-zImage'' \<mapsto> ?k)"
  define F2 where "F2 = F1(?path ''-ramdisk.gz'' \<mapsto> ?r)"
  obtain q1 p2 where k: "dump_to_file w junk F0 (?path ''-zImage'') (bh_kernel_size h) (?img, p1) = Inr (F1, (?img, q1))"
    "read_padding w (?img, q1) (bh_kernel_size h) (sint ps) = Inr (?img, p2)" "drop p2 ?img = ?pp ?r @ ?tail"
    using dump_page [OF ps w p1(2)] h(2) unfolding parts_ok_def F1_def by blast
  obtain q2 p3 where r: "dump_to_file w junk F1 (?path ''-ramdisk.gz'') (bh_ramdisk_size h) (?img, p2) = Inr (F2, (?img, q2))"
    "read_padding w (?img, q2) (bh_ramdisk_size h) (sint ps) = Inr (?img, p3)" "drop p3 ?img = ?tail"
    using dump_page [OF ps w k(3)] h(2) unfolding parts_ok_def F2_def by blast
  have "?n \<le> length ?tail" using h(2) by (simp add: parts_ok_def pad_page_def)
  then have dl: "length (take ?n ?tail) = ?n" by simp
  have "drop p3 ?img = take ?n ?tail @ drop ?n ?tail" using r(3) by (simp only: append_take_drop_id)
  from dump_part [OF w this dl]
  have d: "dump_to_file w junk F2 (?path ''-dt.img'') (bh_dt_size h) (?img, p3) =
      Inr (F2(?path ''-dt.img'' \<mapsto> take ?n ?tail), (?img, p3 + ?n))" by blast
  obtain f' where f': "read_padding w (?img, p3 + ?n) (bh_dt_size h) (sint ps) = Inr f'" using read_padding_total [OF ps w] by blast
  have base: "basename (?path ''-zImage'') = basename fn @ ''-zImage''" "basename (?path ''-dt.img'') = basename fn @ ''-dt.img''"
    using b(1) by (intro basename_path; simp)+
  obtain script where s: "creat_repack_sricpt (basename fn @ ''-zImage'') (basename fn @ ''-dt.img'') h fn = Inr script"
    using repack_script [of h "basename fn @ ''-zImage''" "basename fn @ ''-dt.img''" fn] b(3) h ps by auto
  have hd: "hdr_of_bytes (hdr_bytes h) = h" using hdr_of_bytes_bytes [OF h(1), of "[]"] by simp
  have paths: "out_path (uo_directory u) (basename fn) s = Inr (?path s)" if "length s \<le> 11" for s
    using b(2) that by (intro out_path_ok) simp
  have rp: "out_path (uo_directory u) ''repack.sh'' [] = Inr (uo_directory u @ ''/repack.sh'')"
    using b(2) by (subst out_path_ok) simp_all
  have wn: "write_new w files pth data = Inr (files(pth \<mapsto> data))" for files pth data
    using w by (simp add: write_new_def permissive_def)
  have "unpack_files w junk u fn ?img = Inr (F2(?path ''-dt.img'' \<mapsto> take ?n ?tail, uo_directory u @ ''/repack.sh'' \<mapsto> script))"
    unfolding unpack_files_def r0 prod.case Let_def
    using u h(3,4) base p1(1) k(1,2) r(1,2) d f' s rp unfolding F0_def
    by (simp add: hl hd paths field_string_def write_string_to_file_def wn)
  then show ?thesis unfolding F2_def F1_def F0_def P_def by blast
qed

section \<open>Packing and unpacking\<close>

lemma no_clash: "s \<noteq> [] \<Longrightarrow> last s \<noteq> CHR ''h'' \<Longrightarrow> d @ ''/'' @ b @ s \<noteq> d @ ''/repack.sh''"
proof
  assume "s \<noteq> []" "last s \<noteq> CHR ''h''" "d @ ''/'' @ b @ s = d @ ''/repack.sh''"
  then have "last (b @ s) = last ''repack.sh''" by simp
  with \<open>s \<noteq> []\<close> \<open>last s \<noteq> CHR ''h''\<close> show False by simp
qed

lemma unpack_main_files:
  assumes "hs_files v fn = Some img" "hs_may_open v fn"
    "unpack_files v junk \<lparr>uo_filename = Some fn, uo_directory = dir, uo_pagesize = 0\<rparr> fn img = Inr files"
  shows "unpackbootimg_main v junk [''-i'', fn, ''-o'', dir] = Inr (0, files)"
  using assms by (simp add: unpackbootimg_main_def open_rdonly_def)

text \<open>What unpacking leaves of an image that mkbootimg has written, the second stage included.\<close>

lemma unpack_of_pack:
  assumes "ctx_ok ctx" "list_all c_str args" "mkbootimg_main w ctx args = Inr (0, files)"
    and m: "parse_args default_opts args = Inr m" "mo_bootimg m = Some out"
    and v: "hs_files v fn = files out" "hs_may_open v fn" "permissive v"
    and b: "CHR ''/'' \<notin> set (basename fn)" "length dir + length (basename fn) + 12 < PATH_MAX"
    "3 * length (basename fn) + length (mo_cmdline m) < 860"
  shows "\<exists>p files'. parts_of w m p \<and> unpackbootimg_main v junk [''-i'', fn, ''-o'', dir] = Inr (0, files') \<and>
    files' (dir @ ''/'' @ basename fn @ ''-zImage'') = Some (pt_kernel p) \<and>
    files' (dir @ ''/'' @ basename fn @ ''-ramdisk.gz'') = Some (opt_bytes (pt_ramdisk p)) \<and>
    files' (dir @ ''/'' @ basename fn @ ''-dt.img'') = Some (take (length (opt_bytes (pt_dt p)))
      (pad_page (unat (mo_pagesize m)) (opt_bytes (pt_second p)) @ pad_page (unat (mo_pagesize m)) (opt_bytes (pt_dt p)))) \<and>
    files' (dir @ ''/'' @ basename fn @ ''-cmdline'') = Some (take 511 (bytes_of (mo_cmdline m)) @ [10]) \<and>
    files' (dir @ ''/'' @ basename fn @ ''-base'') =
      Some (bytes_of ''0x'' @ fmt_08x (mo_base m + mo_kernel_offset m - 0x8000) @ [10]) \<and>
    files' (dir @ ''/'' @ basename fn @ ''-pagesize'') = Some (fmt_d (mo_pagesize m) @ [10])"
proof -
  let ?ps = "mo_pagesize m" and ?u = "\<lparr>uo_filename = Some fn, uo_directory = dir, uo_pagesize = 0\<rparr>"
  obtain h p where hp: "parts_of w m p" "hdr_for m p h" "files = (hs_files w)(out \<mapsto> boot_layout (unat ?ps) h p)"
    using mkbootimg_exit_0 [OF assms(1-3)] m by auto
  have ps: "page_ok ?ps" by (rule opts_wf(1) [OF m(1) assms(2)])
  have H: "hdr_ok h" "parts_ok h p" "bh_page_size h = ?ps" "0 \<in> set (bh_cmdline h)"
    "cstr (bh_cmdline h) = take 511 (bytes_of (mo_cmdline m))" "bh_kernel_addr h = mo_base m + mo_kernel_offset m"
    using hp(2) by (simp_all add: hdr_for_def)
  have "3 * length (basename fn) + length (cstr (bh_cmdline h)) < 860" using b(3) H(5) by simp
  from unpack_layout [OF ps v(3) H(1-4), of ?u, simplified, OF b(1,2) this]
  obtain script where s: "unpack_files v junk ?u fn (boot_layout (unat ?ps) h p) = Inr ((hs_files v)(
     dir @ ''/'' @ basename fn @ ''-cmdline'' \<mapsto> cstr (bh_cmdline h) @ [10],
     dir @ ''/'' @ basename fn @ ''-base'' \<mapsto> (bytes_of ''0x'' @ fmt_08x (bh_kernel_addr h - 0x8000)) @ [10],
     dir @ ''/'' @ basename fn @ ''-pagesize'' \<mapsto> fmt_d ?ps @ [10], dir @ ''/'' @ basename fn @ ''-zImage'' \<mapsto> pt_kernel p,
     dir @ ''/'' @ basename fn @ ''-ramdisk.gz'' \<mapsto> opt_bytes (pt_ramdisk p),
     dir @ ''/'' @ basename fn @ ''-dt.img'' \<mapsto> take (unat (bh_dt_size h))
       (pad_page (unat ?ps) (opt_bytes (pt_second p)) @ pad_page (unat ?ps) (opt_bytes (pt_dt p))),
     dir @ ''/repack.sh'' \<mapsto> script))" (is "_ = Inr ?F") by auto
  have "unpackbootimg_main v junk [''-i'', fn, ''-o'', dir] = Inr (0, ?F)"
    using v(1,2) hp(3) by (intro unpack_main_files [OF _ _ s]) simp_all
  moreover have "length (opt_bytes (pt_dt p)) = unat (bh_dt_size h)" using H(2) by (simp add: parts_ok_def)
  moreover note no_clash [of "''-zImage''" dir "basename fn"] no_clash [of "''-ramdisk.gz''" dir "basename fn"]
    no_clash [of "''-dt.img''" dir "basename fn"] no_clash [of "''-cmdline''" dir "basename fn"]
    no_clash [of "''-base''" dir "basename fn"] no_clash [of "''-pagesize''" dir "basename fn"]
  ultimately show ?thesis using hp(1) H(5,6) by (intro exI [of _ p] exI [of _ ?F]) simp
qed


text \<open>
  C38. An image with a second stage is not taken apart correctly: unpackbootimg looks for the device tree
  right behind the ramdisk, where mkbootimg has put the second stage.  The file for the device tree receives,
  in the length of the device tree, the second stage padded to whole pages and only then what follows it; when
  the device tree is no longer than the second stage, it receives the first bytes of the second stage.
\<close>

theorem unpack_ignores_second_stage:
  assumes "ctx_ok ctx" "list_all c_str args" "mkbootimg_main w ctx args = Inr (0, files)"
    and m: "parse_args default_opts args = Inr m" "mo_bootimg m = Some out" "parts_of w m p"
    and s: "pt_second p = Some s" "pt_dt p = Some d"
    and v: "hs_files v fn = files out" "hs_may_open v fn" "permissive v"
    and b: "CHR ''/'' \<notin> set (basename fn)" "length dir + length (basename fn) + 12 < PATH_MAX"
    "3 * length (basename fn) + length (mo_cmdline m) < 860"
  shows "\<exists>files' b. unpackbootimg_main v junk [''-i'', fn, ''-o'', dir] = Inr (0, files') \<and>
    files' (dir @ ''/'' @ basename fn @ ''-dt.img'') = Some b \<and>
    b = take (length d) (pad_page (unat (mo_pagesize m)) s @ pad_page (unat (mo_pagesize m)) d) \<and>
    (length d \<le> length s \<longrightarrow> b = take (length d) s)"
proof -
  have "part_of w f d \<Longrightarrow> part_of w f d' \<Longrightarrow> d = d'" for f d d' by (auto simp: part_of_def split: option.splits)
  then have same: "pt_dt q = Some d" "pt_second q = Some s" if "parts_of w m q" for q
    using that m(3) s unfolding parts_of_def by metis+
  have o: "opt_bytes (Some x) = x" for x by (simp add: opt_bytes_def)
  obtain q files' where q: "parts_of w m q" "unpackbootimg_main v junk [''-i'', fn, ''-o'', dir] = Inr (0, files')"
    "files' (dir @ ''/'' @ basename fn @ ''-dt.img'') = Some (take (length (opt_bytes (pt_dt q)))
      (pad_page (unat (mo_pagesize m)) (opt_bytes (pt_second q)) @ pad_page (unat (mo_pagesize m)) (opt_bytes (pt_dt q))))"
    using unpack_of_pack [OF assms(1-3) m(1,2) v b, of junk] by (elim exE conjE) (rule that)
  show ?thesis
    by (intro exI conjI) (rule q(2), rule q(3) [unfolded same [OF q(1)] o], rule refl, simp add: pad_page_def)
qed

definition demo_unpack :: "(string \<rightharpoonup> byte list) \<Rightarrow> host" where
  "demo_unpack files = demo_host\<lparr>hs_files := files\<rparr>"

lemma demo_unpack_ok: "permissive (demo_unpack files)" "hs_may_open (demo_unpack files) fn" "hs_files (demo_unpack files) = files"
  by (simp_all add: demo_unpack_def demo_host_def permissive_def)

lemma basename_demo: "basename ''boot.img'' = ''boot.img''"
  by (simp add: basename_def)


definition demo_args2 :: "string list" where
  "demo_args2 = [''--second'', ''s'', ''--kernel'', ''k'', ''--ramdisk'', ''r'', ''--dt'', ''d'', ''-o'', ''boot.img'']"

definition demo_opts2 :: mk_opts where
  "demo_opts2 = default_opts\<lparr>mo_second_fn := Some ''s'', mo_kernel_fn := Some ''k'', mo_ramdisk_fn := Some ''r'',
     mo_dt_fn := Some ''d'', mo_bootimg := Some ''boot.img''\<rparr>"

definition demo_parts2 :: parts where
  "demo_parts2 = \<lparr>pt_kernel = [1, 2, 3], pt_ramdisk = Some [4, 5], pt_second = Some [8, 9], pt_dt = Some [7]\<rparr>"

lemma demo2:
  "parse_args default_opts demo_args2 = Inr demo_opts2" "list_all c_str demo_args2" "smooth demo_host demo_opts2"
  "\<exists>h. fill_hdr demo_opts2 = Inr h" "parts_of demo_host demo_opts2 demo_parts2"
proof -
  show "parse_args default_opts demo_args2 = Inr demo_opts2"
    by (simp add: demo_args2_def set_opt_def demo_opts2_def default_opts_def)
  show "list_all c_str demo_args2"
    by (simp add: demo_args2_def c_str_def bytes_of_def of_char_def)
  show "smooth demo_host demo_opts2"
    by (simp add: smooth_def loadable_def demo_host_def demo_opts2_def default_opts_def ramdisk_of_def)
  show "\<exists>h. fill_hdr demo_opts2 = Inr h" by (simp add: fill_hdr_def demo_opts2_def default_opts_def Let_def)
  show "parts_of demo_host demo_opts2 demo_parts2"
    by (simp add: parts_of_def part_of_def demo_host_def demo_opts2_def demo_parts2_def ramdisk_of_def)
qed

theorem unpack_ignores_second_stage_witness:
  "\<exists>files files'. mkbootimg_main demo_host demo_ctx demo_args2 = Inr (0, files) \<and> hs_files demo_host ''d'' = Some [7] \<and>
    unpackbootimg_main (demo_unpack files) (\<lambda>_. 0) [''-i'', ''boot.img'', ''-o'', ''out''] = Inr (0, files') \<and>
    files' ''out/boot.img-dt.img'' = Some [8]"
proof -
  obtain files where f: "mkbootimg_main demo_host demo_ctx demo_args2 = Inr (0, files)"
    using mkbootimg_main_success [OF demo_ctx_ok(1) demo2(2,1) _ demo2(3)] demo2(4) by blast
  have o: "mo_bootimg demo_opts2 = Some ''boot.img''" "mo_cmdline demo_opts2 = []" "hs_files demo_host ''d'' = Some [7]"
    by (simp_all add: demo_opts2_def default_opts_def demo_host_def)
  show ?thesis
    using unpack_ignores_second_stage [OF demo_ctx_ok(1) demo2(2) f demo2(1) o(1) demo2(5), of "[8, 9]" "[7]" "demo_unpack files" "''boot.img''" "''out''" "\<lambda>_. 0"]
      f o(2,3)
    by (simp add: demo_unpack_ok basename_demo PATH_MAX_def opt_bytes_def demo_parts2_def pad_page_def)
qed

end
