(* ===== verification/Ext4_Alloc.thy ===== *)
theory Ext4_Alloc
  imports Knife_Prelude
begin

text \<open>
  The block and inode allocator of \<^verbatim>\<open>ext4_utils/allocate.c\<close> with the helpers of \<^verbatim>\<open>ext4_utils.c\<close> it relies on:
  bitmaps, block groups and their initialisation, the choice of a group by best fit, inodes.  The globals
  \<^verbatim>\<open>info\<close> and \<^verbatim>\<open>aux_info\<close> are the state.  \<^verbatim>\<open>error()\<close> leaves the program unless \<^verbatim>\<open>force\<close> is set.  What is handed to
  libsparse is recorded as the list of requests, in the order of the calls.  Allocations of memory
  succeed.
\<close>

section \<open>State\<close>

record fs_info =
  fi_len :: int
  fi_block_size :: u32
  fi_blocks_per_group :: u32
  fi_inodes_per_group :: u32
  fi_inode_size :: u32
  fi_feat_ro_compat :: u16
  fi_bg_desc_reserve_blocks :: u32

record block_group_info =
  bg_first_block :: u32
  bg_header_blocks :: u32
  bg_data_blocks_used :: u32
  bg_has_superblock :: bool
  bg_bitmaps :: "byte list"
  bg_inode_table :: bool
  bg_free_blocks :: u32
  bg_first_free_block :: u32
  bg_free_inodes :: u32
  bg_first_free_inode :: u32
  bg_flags :: u16
  bg_used_dirs :: u16

text \<open>
  What is given to libsparse: the two bitmaps of a group, its table of inodes, a numbered buffer from an
  offset on, a file from an offset on, the superblock of a group, or the group descriptors.
\<close>

datatype buffer = Bitmaps nat | Inode_Table nat | Heap_Data nat nat | File_Data string int | Super_Block nat | Group_Descriptors

record ext4 =
  ex_info :: fs_info
  ex_force :: bool
  ex_first_data_block :: u32
  ex_len_blocks :: u64
  ex_inode_table_blocks :: u32
  ex_groups :: u32
  ex_bg_desc_blocks :: u32
  ex_bgs :: "block_group_info list"
  ex_queue :: "(buffer \<times> u32 \<times> u32) list"

definition EXT4_ALLOCATE_FAILED :: u32 where
  "EXT4_ALLOCATE_FAILED = - 1"

text \<open>\<^verbatim>\<open>error(...)\<close> followed by \<open>k\<close>.\<close>

definition error :: "bool \<Rightarrow> 'a res \<Rightarrow> 'a res" where
  "error force k = (if force then k else Inl ErrorExit)"

definition get_bg :: "ext4 \<Rightarrow> nat \<Rightarrow> block_group_info res" where
  "get_bg e i = (if i < length (ex_bgs e) then Inr (ex_bgs e ! i) else Inl OutOfBounds)"

definition set_bg :: "ext4 \<Rightarrow> nat \<Rightarrow> block_group_info \<Rightarrow> ext4" where
  "set_bg e i bg = e\<lparr>ex_bgs := (ex_bgs e)[i := bg]\<rparr>"

section \<open>Superblocks\<close>

text \<open>The loop of \<^verbatim>\<open>is_power_of\<close> need not end for every base.\<close>

partial_function (option) is_power_of :: "int \<Rightarrow> int \<Rightarrow> bool option" where
  "is_power_of a b = (if a > b then (if a mod b \<noteq> 0 then Some False else is_power_of (a div b) b) else Some (a = b))"

definition of_option :: "'a option \<Rightarrow> 'a res" where
  "of_option x = (case x of None \<Rightarrow> Inl Diverges | Some v \<Rightarrow> Inr v)"

definition ext4_bg_has_super_block :: "fs_info \<Rightarrow> int \<Rightarrow> bool res" where
  "ext4_bg_has_super_block info bg =
    (if fi_feat_ro_compat info AND 1 = 0 then Inr True
     else if bg = 0 \<or> bg = 1 then Inr True
     else
       bindR (of_option (is_power_of bg 3)) (\<lambda>p3. if p3 then Inr True else
       bindR (of_option (is_power_of bg 5)) (\<lambda>p5. if p5 then Inr True else
         of_option (is_power_of bg 7))))"

definition ext4_create_fs_aux_info :: "ext4 \<Rightarrow> ext4 res" where
  "ext4_create_fs_aux_info e =
    (let info = ex_info e; bs = fi_block_size info; bpg = fi_blocks_per_group info in
     bindR (assertR (bs \<noteq> 0 \<and> bpg \<noteq> 0) DivByZero) (\<lambda>_.
     let first_data_block = (if bs > 1024 then 0 else 1 :: u32);
         len_blocks = word_of_int (if fi_len info < 0 then - (- fi_len info div uint bs) else fi_len info div uint bs) :: u64;
         inode_table_blocks = (fi_inodes_per_group info * fi_inode_size info + bs - 1) div bs;
         groups = ucast ((len_blocks - ucast first_data_block + ucast bpg - 1) div ucast bpg) :: u32;
         bg_desc_blocks = ucast ((ucast groups * 32 + ucast bs - 1) div ucast bs :: u64) :: u32;
         last_group_size = ucast (len_blocks mod ucast bpg) :: u32;
         last_header_size = 2 + inode_table_blocks
     in
     bindR (ext4_bg_has_super_block info (sint (groups - 1))) (\<lambda>super.
     let last_header_size = (if super then last_header_size + (1 + bg_desc_blocks + fi_bg_desc_reserve_blocks info) else last_header_size);
         short = (last_group_size > 0 \<and> last_group_size < last_header_size)
     in Inr (e\<lparr>ex_first_data_block := first_data_block,
               ex_len_blocks := (if short then len_blocks - ucast last_group_size else len_blocks),
               ex_inode_table_blocks := inode_table_blocks,
               ex_groups := (if short then groups - 1 else groups),
               ex_bg_desc_blocks := bg_desc_blocks\<rparr>))))"

section \<open>Bitmaps\<close>

definition bitmap_get_bit :: "byte list \<Rightarrow> u32 \<Rightarrow> bool res" where
  "bitmap_get_bit bm b =
    (let i = unat (b div 8) in
     bindR (assertR (i < length bm) OutOfBounds) (\<lambda>_. Inr (bm ! i AND push_bit (unat (b mod 8)) 1 \<noteq> 0)))"

definition bitmap_clear_bit :: "byte list \<Rightarrow> u32 \<Rightarrow> byte list res" where
  "bitmap_clear_bit bm b =
    (let i = unat (b div 8) in
     bindR (assertR (i < length bm) OutOfBounds) (\<lambda>_. Inr (bm[i := bm ! i AND NOT (push_bit (unat (b mod 8)) 1)])))"

text \<open>Setting a bit reports whether it was set before.\<close>

definition bitmap_set_bit :: "byte list \<Rightarrow> u32 \<Rightarrow> (bool \<times> byte list) res" where
  "bitmap_set_bit bm b =
    (let i = unat (b div 8) in
     bindR (assertR (i < length bm) OutOfBounds) (\<lambda>_.
       if bm ! i AND push_bit (unat (b mod 8)) 1 \<noteq> 0 then Inr (True, bm)
       else Inr (False, bm[i := bm ! i OR push_bit (unat (b mod 8)) 1])))"

definition bitmap_set_8_bits :: "byte list \<Rightarrow> u32 \<Rightarrow> (bool \<times> byte list) res" where
  "bitmap_set_8_bits bm b =
    (let i = unat (b div 8) in
     bindR (assertR (i < length bm) OutOfBounds) (\<lambda>_. Inr (bm ! i \<noteq> 0, bm[i := 0xFF])))"

text \<open>
  The loops of \<^verbatim>\<open>reserve_blocks\<close>: bit by bit (up to a byte boundary, if \<open>al\<close> is set), and byte by byte.
  The result says whether all bits were free; the counters are as the loop leaves them.
\<close>

fun bit_loop :: "nat \<Rightarrow> bool \<Rightarrow> byte list \<Rightarrow> u32 \<Rightarrow> u32 \<Rightarrow> u32 \<Rightarrow> (bool \<times> byte list \<times> u32 \<times> u32) res" where
  "bit_loop 0 al bm i b num = Inl Diverges"
| "bit_loop (Suc fuel) al bm i b num =
    (if i < num \<and> (al \<longrightarrow> b mod 8 \<noteq> 0)
     then bindR (bitmap_set_bit bm b) (\<lambda>(was, bm).
       if was then Inr (False, bm, i, b) else bit_loop fuel al bm (i + 1) (b + 1) num)
     else Inr (True, bm, i, b))"

fun byte_loop :: "nat \<Rightarrow> byte list \<Rightarrow> u32 \<Rightarrow> u32 \<Rightarrow> u32 \<Rightarrow> (bool \<times> byte list \<times> u32 \<times> u32) res" where
  "byte_loop 0 bm i b num = Inl Diverges"
| "byte_loop (Suc fuel) bm i b num =
    (if i + 8 \<le> num AND NOT 7
     then bindR (bitmap_set_8_bits bm b) (\<lambda>(was, bm).
       if was then Inr (False, bm, i, b) else byte_loop fuel bm (i + 8) (b + 8) num)
     else Inr (True, bm, i, b))"

definition reserve_bits :: "byte list \<Rightarrow> u32 \<Rightarrow> u32 \<Rightarrow> (bool \<times> byte list) res" where
  "reserve_bits bm start num =
    (let fuel = Suc (unat num) in
     bindR (bit_loop fuel True bm 0 start num) (\<lambda>(ok, bm, i, b). if \<not> ok then Inr (False, bm) else
     bindR (byte_loop fuel bm i b num) (\<lambda>(ok, bm, i, b). if \<not> ok then Inr (False, bm) else
     bindR (bit_loop fuel False bm i b num) (\<lambda>(ok, bm, i, b). Inr (ok, bm)))))"

definition reserve_blocks :: "bool \<Rightarrow> block_group_info \<Rightarrow> u32 \<Rightarrow> u32 \<Rightarrow> (int \<times> block_group_info) res" where
  "reserve_blocks force bg start num =
    (if num > bg_free_blocks bg then Inr (- 1, bg)
     else
       bindR (reserve_bits (bg_bitmaps bg) start num) (\<lambda>(ok, bm).
         if \<not> ok then error force (Inr (- 1, bg\<lparr>bg_bitmaps := bm\<rparr>))
         else Inr (0, bg\<lparr>bg_bitmaps := bm, bg_free_blocks := bg_free_blocks bg - num,
                         bg_first_free_block := (if start = bg_first_free_block bg then start + num
                                                 else bg_first_free_block bg)\<rparr>)))"

primrec clear_loop :: "nat \<Rightarrow> byte list \<Rightarrow> u32 \<Rightarrow> byte list res" where
  "clear_loop 0 bm b = Inr bm"
| "clear_loop (Suc n) bm b = bindR (bitmap_clear_bit bm b) (\<lambda>bm. clear_loop n bm (b - 1))"

definition free_blocks :: "block_group_info \<Rightarrow> u32 \<Rightarrow> block_group_info res" where
  "free_blocks bg num_blocks =
    bindR (clear_loop (unat num_blocks) (bg_bitmaps bg) (bg_first_free_block bg - 1)) (\<lambda>bm.
      Inr (bg\<lparr>bg_bitmaps := bm, bg_free_blocks := bg_free_blocks bg + num_blocks,
              bg_first_free_block := bg_first_free_block bg - num_blocks\<rparr>))"

section \<open>Block groups\<close>

definition init_bg :: "ext4 \<Rightarrow> nat \<Rightarrow> ext4 res" where
  "init_bg e i =
    (let info = ex_info e in
     bindR (get_bg e i) (\<lambda>bg.
     bindR (ext4_bg_has_super_block info (int i)) (\<lambda>super.
     let extra = 1 + ex_bg_desc_blocks e + fi_bg_desc_reserve_blocks info;
         header = 2 + ex_inode_table_blocks e + (if super then extra else 0);
         first = ex_first_data_block e + word_of_nat i * fi_blocks_per_group info;
         e = e\<lparr>ex_queue := ex_queue e @ [(Bitmaps i, 2 * fi_block_size info, if super then first + extra else first)]\<rparr>;
         bg = bg\<lparr>bg_has_superblock := super, bg_bitmaps := replicate (2 * unat (fi_block_size info)) 0,
              bg_header_blocks := header, bg_first_block := first, bg_data_blocks_used := 0,
              bg_free_blocks := fi_blocks_per_group info, bg_first_free_block := 0,
              bg_free_inodes := fi_inodes_per_group info, bg_first_free_inode := 1, bg_flags := 1\<rparr>
     in
     bindR (reserve_blocks (ex_force e) bg (bg_first_free_block bg) header) (\<lambda>(r, bg).
     bindR (if r < 0 then error (ex_force e) (Inr ()) else Inr ()) (\<lambda>_.
     if ucast (first + fi_blocks_per_group info) > ex_len_blocks e
     then
       (let overrun = ucast (ucast (first + fi_blocks_per_group info) - ex_len_blocks e) in
        bindR (reserve_blocks (ex_force e) bg (fi_blocks_per_group info - overrun) overrun) (\<lambda>(r, bg). Inr (set_bg e i bg)))
     else Inr (set_bg e i bg))))))"

primrec init_groups :: "nat \<Rightarrow> ext4 \<Rightarrow> ext4 res" where
  "init_groups 0 e = Inr e"
| "init_groups (Suc n) e = bindR (init_groups n e) (\<lambda>e. init_bg e n)"

definition zero_bg :: block_group_info where
  "zero_bg = \<lparr>bg_first_block = 0, bg_header_blocks = 0, bg_data_blocks_used = 0, bg_has_superblock = False,
     bg_bitmaps = [], bg_inode_table = False, bg_free_blocks = 0, bg_first_free_block = 0, bg_free_inodes = 0,
     bg_first_free_inode = 0, bg_flags = 0, bg_used_dirs = 0\<rparr>"

definition block_allocator_init :: "ext4 \<Rightarrow> ext4 res" where
  "block_allocator_init e = init_groups (unat (ex_groups e)) (e\<lparr>ex_bgs := replicate (unat (ex_groups e)) zero_bg\<rparr>)"

definition get_free_blocks :: "ext4 \<Rightarrow> nat \<Rightarrow> u32 res" where
  "get_free_blocks e i = bindR (get_bg e i) (\<lambda>bg. Inr (bg_free_blocks bg))"

definition ext4_allocate_blocks_from_block_group :: "ext4 \<Rightarrow> u32 \<Rightarrow> nat \<Rightarrow> (u32 \<times> ext4) res" where
  "ext4_allocate_blocks_from_block_group e len bg_num =
    bindR (get_free_blocks e bg_num) (\<lambda>fr.
    if fr < len then Inr (EXT4_ALLOCATE_FAILED, e)
    else
      bindR (get_bg e bg_num) (\<lambda>bg.
      let block = bg_first_free_block bg in
      bindR (reserve_blocks (ex_force e) bg (bg_first_free_block bg) len) (\<lambda>(r, bg).
      if r < 0 then error (ex_force e) (Inr (EXT4_ALLOCATE_FAILED, set_bg e bg_num bg))
      else
        let bg = bg\<lparr>bg_data_blocks_used := bg_data_blocks_used bg + len\<rparr> in
        Inr (bg_first_block bg + block, set_bg e bg_num bg))))"

text \<open>\<^verbatim>\<open>allocate_block\<close>: the groups from \<open>i\<close> on, \<open>n\<close> of them.\<close>

primrec allocate_block_loop :: "nat \<Rightarrow> nat \<Rightarrow> ext4 \<Rightarrow> (u32 \<times> ext4) res" where
  "allocate_block_loop 0 i e = Inr (EXT4_ALLOCATE_FAILED, e)"
| "allocate_block_loop (Suc n) i e =
    bindR (ext4_allocate_blocks_from_block_group e 1 i) (\<lambda>(b, e).
      if b \<noteq> EXT4_ALLOCATE_FAILED then Inr (b, e) else allocate_block_loop n (Suc i) e)"

definition allocate_block :: "ext4 \<Rightarrow> (u32 \<times> ext4) res" where
  "allocate_block e = allocate_block_loop (unat (ex_groups e)) 0 e"

text \<open>The search for the group that fits best: its number and the number of its free blocks.\<close>

definition better_fit :: "u32 \<Rightarrow> u32 \<Rightarrow> u32 \<Rightarrow> bool" where
  "better_fit len bg_len found \<longleftrightarrow>
     len \<le> bg_len \<and> (found = 0 \<or> bg_len < found) \<or> len > found \<and> bg_len > found"

definition best_fit_group :: "ext4 \<Rightarrow> u32 \<Rightarrow> nat \<times> u32" where
  "best_fit_group e len = foldl (\<lambda>(g, found) i.
     let bg_len = bg_free_blocks (ex_bgs e ! i) in if better_fit len bg_len found then (i, bg_len) else (g, found))
     (0, 0) [0..<unat (ex_groups e)]"

text \<open>
  \<^verbatim>\<open>ext4_allocate_best_fit_partial\<close>: block, length and group of the new region, or \<^term>\<open>None\<close> for \<^verbatim>\<open>NULL\<close>.
\<close>

definition ext4_allocate_best_fit_partial :: "ext4 \<Rightarrow> u32 \<Rightarrow> ((u32 \<times> u32 \<times> nat) option \<times> ext4) res" where
  "ext4_allocate_best_fit_partial e len =
    bindR (assertR (unat (ex_groups e) \<le> length (ex_bgs e)) OutOfBounds) (\<lambda>_.
    case best_fit_group e len of (found_bg, found_bg_len) \<Rightarrow>
    if found_bg_len \<noteq> 0
    then
      (let allocate_len = min len found_bg_len in
       bindR (ext4_allocate_blocks_from_block_group e allocate_len found_bg) (\<lambda>(block, e).
         if block = EXT4_ALLOCATE_FAILED then error (ex_force e) (Inr (None, e))
         else Inr (Some (block, allocate_len, found_bg), e)))
    else error (ex_force e) (Inr (None, e)))"

section \<open>Inodes\<close>

definition allocate_bg_inode_table :: "ext4 \<Rightarrow> nat \<Rightarrow> ext4 res" where
  "allocate_bg_inode_table e i =
    bindR (get_bg e i) (\<lambda>bg.
      if bg_inode_table bg then Inr e
      else
        let block = bg_first_block bg + 2;
            block = (if bg_has_superblock bg
                     then block + (ex_bg_desc_blocks e + fi_bg_desc_reserve_blocks (ex_info e) + 1) else block);
            e = e\<lparr>ex_queue := ex_queue e @ [(Inode_Table i, ex_inode_table_blocks e * fi_block_size (ex_info e), block)]\<rparr>
        in Inr (set_bg e i (bg\<lparr>bg_inode_table := True, bg_flags := bg_flags bg AND NOT 1\<rparr>)))"

text \<open>An inode is the group it is in and its offset in the table.\<close>

definition get_inode :: "ext4 \<Rightarrow> u32 \<Rightarrow> ((nat \<times> u32) \<times> ext4) res" where
  "get_inode e inode =
    (let ipg = fi_inodes_per_group (ex_info e); inode = inode - 1 in
     bindR (assertR (ipg \<noteq> 0) DivByZero) (\<lambda>_.
     let bg = unat (inode div ipg); inode = inode mod ipg in
     bindR (allocate_bg_inode_table e bg) (\<lambda>e. Inr ((bg, inode * fi_inode_size (ex_info e)), e))))"

definition get_free_inodes :: "ext4 \<Rightarrow> nat \<Rightarrow> u32 res" where
  "get_free_inodes e i = bindR (get_bg e i) (\<lambda>bg. Inr (bg_free_inodes bg))"

text \<open>The inode bitmap is the second half of the two bitmaps.\<close>

primrec inode_bits_loop :: "nat \<Rightarrow> u32 \<Rightarrow> byte list \<Rightarrow> u32 \<Rightarrow> byte list res" where
  "inode_bits_loop 0 bs bm inode = Inr bm"
| "inode_bits_loop (Suc n) bs bm inode =
    (let i = unat bs + unat (inode div 8) in
     bindR (assertR (i < length bm) OutOfBounds) (\<lambda>_.
       inode_bits_loop n bs (bm[i := bm ! i OR push_bit (unat (inode mod 8)) 1]) (inode + 1)))"

definition reserve_inodes :: "ext4 \<Rightarrow> nat \<Rightarrow> u32 \<Rightarrow> (u32 \<times> ext4) res" where
  "reserve_inodes e i num =
    bindR (get_bg e i) (\<lambda>bg.
      if bg_free_inodes bg < num then Inr (EXT4_ALLOCATE_FAILED, e)
      else
        bindR (inode_bits_loop (unat num) (fi_block_size (ex_info e)) (bg_bitmaps bg) (bg_first_free_inode bg - 1)) (\<lambda>bm.
        Inr (bg_first_free_inode bg,
             set_bg e i (bg\<lparr>bg_bitmaps := bm, bg_first_free_inode := bg_first_free_inode bg + num,
                            bg_free_inodes := bg_free_inodes bg - num\<rparr>))))"

primrec allocate_inode_loop :: "nat \<Rightarrow> nat \<Rightarrow> ext4 \<Rightarrow> (u32 \<times> ext4) res" where
  "allocate_inode_loop 0 bg e = Inr (EXT4_ALLOCATE_FAILED, e)"
| "allocate_inode_loop (Suc n) bg e =
    bindR (reserve_inodes e bg 1) (\<lambda>(inode, e).
      if inode \<noteq> EXT4_ALLOCATE_FAILED then Inr (word_of_nat bg * fi_inodes_per_group (ex_info e) + inode, e)
      else allocate_inode_loop n (Suc bg) e)"

definition allocate_inode :: "ext4 \<Rightarrow> (u32 \<times> ext4) res" where
  "allocate_inode e = allocate_inode_loop (unat (ex_groups e)) 0 e"

definition add_directory :: "ext4 \<Rightarrow> u32 \<Rightarrow> ext4 res" where
  "add_directory e inode =
    (let ipg = fi_inodes_per_group (ex_info e) in
     bindR (assertR (ipg \<noteq> 0) DivByZero) (\<lambda>_.
     let i = unat ((inode - 1) div ipg) in
     bindR (get_bg e i) (\<lambda>bg. Inr (set_bg e i (bg\<lparr>bg_used_dirs := bg_used_dirs bg + 1\<rparr>)))))"

definition get_directories :: "ext4 \<Rightarrow> nat \<Rightarrow> u16 res" where
  "get_directories e i = bindR (get_bg e i) (\<lambda>bg. Inr (bg_used_dirs bg))"

definition get_bg_flags :: "ext4 \<Rightarrow> nat \<Rightarrow> u16 res" where
  "get_bg_flags e i = bindR (get_bg e i) (\<lambda>bg. Inr (bg_flags bg))"

section \<open>Which groups have a superblock\<close>

lemma is_power_of_exact:
  assumes "1 < b" "0 < a"
  shows "is_power_of a b = Some (\<exists>k > 0. a = b ^ k)"
  using assms(2)
proof (induction "nat a" arbitrary: a rule: less_induct)
  case less
  consider "a \<le> b" | "b < a" "a mod b \<noteq> 0" | "b < a" "a mod b = 0" by linarith
  then show ?case
  proof cases
    case 1
    have "a = b \<longleftrightarrow> (\<exists>k > 0. a = b ^ k)"
    proof
      assume "\<exists>k > 0. a = b ^ k"
      then obtain k where k: "0 < k" "a = b ^ k" by blast
      then have "b ^ 1 \<le> a" using assms(1) by (simp only: k(2)) (intro power_increasing, simp_all)
      then show "a = b" using 1 by simp
    qed (rule exI [of _ 1], simp)
    then show ?thesis using 1 by (subst is_power_of.simps) simp
  next
    case 2
    have "a \<noteq> b ^ k" if "0 < k" for k
    proof
      assume "a = b ^ k"
      then have "a mod b = 0" using that by (cases k) simp_all
      then show False using 2(2) by simp
    qed
    then show ?thesis using 2 by (subst is_power_of.simps) auto
  next
    case 3
    then obtain q where q: "a = b * q" by (auto elim: dvdE simp: mod_eq_0_iff_dvd)
    have q0: "0 < q" using q less.prems assms(1) by (simp add: zero_less_mult_iff)
    have "q < a" using q q0 assms(1) by simp
    then have "is_power_of q b = Some (\<exists>k > 0. q = b ^ k)" using q0 by (intro less.hyps) simp_all
    moreover have "(\<exists>k > 0. q = b ^ k) \<longleftrightarrow> (\<exists>k > 0. a = b ^ k)"
    proof
      assume "\<exists>k > 0. q = b ^ k"
      then obtain k where "q = b ^ k" by blast
      then show "\<exists>k > 0. a = b ^ k" using q by (intro exI [of _ "Suc k"]) simp
    next
      assume "\<exists>k > 0. a = b ^ k"
      then obtain k where k: "0 < k" "a = b ^ k" by blast
      then obtain j where j: "k = Suc j" by (cases k) auto
      then have "q = b ^ j" using k q assms(1) by simp
      moreover from this have "0 < j" using 3(1) q by (metis gr0I less_irrefl mult.right_neutral power_0)
      ultimately show "\<exists>k > 0. q = b ^ k" by blast
    qed
    ultimately show ?thesis using 3 q assms(1) by (subst is_power_of.simps) simp
  qed
qed

lemma has_super_block_cases:
  assumes "0 \<le> bg"
  shows "ext4_bg_has_super_block info bg =
    Inr (fi_feat_ro_compat info AND 1 = 0 \<or> bg = 0 \<or> (\<exists>k. bg = 3 ^ k \<or> bg = 5 ^ k \<or> bg = 7 ^ k))"
proof -
  consider "bg = 0 \<or> bg = 1" | "1 < bg" using assms by linarith
  then show ?thesis
  proof cases
    case 1
    moreover have "\<exists>k. (1 :: int) = 3 ^ k \<or> (1 :: int) = 5 ^ k \<or> (1 :: int) = 7 ^ k" by (rule exI [of _ 0]) simp
    ultimately show ?thesis by (auto simp: ext4_bg_has_super_block_def)
  next
    case 2
    have "(\<exists>k > 0. bg = b ^ k) \<longleftrightarrow> (\<exists>k. bg = b ^ k)" for b :: int
    proof
      assume "\<exists>k. bg = b ^ k"
      then obtain k where "bg = b ^ k" by blast
      moreover from this have "k \<noteq> 0" using 2 by (metis power_0 less_irrefl)
      ultimately show "\<exists>k > 0. bg = b ^ k" by blast
    qed blast
    then show ?thesis
      using 2 by (auto simp: ext4_bg_has_super_block_def of_option_def is_power_of_exact)
  qed
qed

text \<open>
  C37. With the feature sparse_super, exactly group 0 and the groups whose number is a power of 3, 5 or 7
  (1 among them) carry a superblock; without it, every group does.  The search always ends.
\<close>

theorem has_super_block_exact:
  assumes "0 \<le> bg"
  shows "ext4_bg_has_super_block info bg =
    Inr (fi_feat_ro_compat info AND 1 = 0 \<or> bg = 0 \<or> (\<exists>k. bg = 3 ^ k \<or> bg = 5 ^ k \<or> bg = 7 ^ k))"
  by (rule has_super_block_cases [OF assms])

theorem has_super_block_exact_witness:
  "ext4_bg_has_super_block \<lparr>fi_len = 0, fi_block_size = 4096, fi_blocks_per_group = 32768, fi_inodes_per_group = 8192,
     fi_inode_size = 256, fi_feat_ro_compat = 1, fi_bg_desc_reserve_blocks = 0\<rparr> 49 = Inr True"
proof -
  have "\<exists>k. (49 :: int) = 3 ^ k \<or> (49 :: int) = 5 ^ k \<or> (49 :: int) = 7 ^ k" by (rule exI [of _ 2]) simp
  then show ?thesis by (subst has_super_block_exact) simp_all
qed

section \<open>Bitmaps as sets of bits\<close>

definition bits :: "byte list \<Rightarrow> nat \<Rightarrow> bool" where
  "bits bm n \<longleftrightarrow> n < 8 * length bm \<and> bit (bm ! (n div 8)) (n mod 8)"

lemma and_push_bit_1: "(x :: byte) AND push_bit k 1 \<noteq> 0 \<longleftrightarrow> k < 8 \<and> bit x k"
proof
  assume "x AND push_bit k 1 \<noteq> 0"
  then obtain n where "bit (x AND push_bit k 1) n" by (metis bit_eqI bit_0_eq bot_apply bot_bool_def)
  then have "bit x k" by (auto simp: bit_simps)
  then show "k < 8 \<and> bit x k" using bit_imp_le_length [of x k] by simp
next
  assume "k < 8 \<and> bit x k"
  then have "bit (x AND push_bit k 1) k" by (simp add: bit_simps)
  then show "x AND push_bit k 1 \<noteq> 0" by auto
qed

lemma and_exp_byte: "(x :: byte) AND 2 ^ k = 0 \<longleftrightarrow> \<not> (k < 8 \<and> bit x k)"
  using and_push_bit_1 [of x k] by (auto simp: push_bit_eq_mult)

lemma word_div_mod_8:
  assumes "n < 2 ^ 32"
  shows "unat ((word_of_nat n :: u32) div 8) = n div 8" "unat ((word_of_nat n :: u32) mod 8) = n mod 8"
  using assms by (simp_all add: unat_div unat_mod unat_of_nat)

lemma word_mod_8_0: "n < 2 ^ 32 \<Longrightarrow> (word_of_nat n :: u32) mod 8 = 0 \<longleftrightarrow> n mod 8 = 0"
  by (metis unat_eq_0 word_div_mod_8(2))

lemma bitmap_set_bit_bits:
  assumes "n < 8 * length bm" "n < 2 ^ 32"
  shows "\<exists>bm'. bitmap_set_bit bm (word_of_nat n) = Inr (bits bm n, bm') \<and> length bm' = length bm \<and>
    bits bm' = (\<lambda>k. k = n \<or> bits bm k)"
proof -
  have i: "n div 8 < length bm" using assms(1) by linarith
  have k: "n mod 8 < 8" by simp
  have e: "m = n \<longleftrightarrow> m div 8 = n div 8 \<and> m mod 8 = n mod 8" for m by (metis div_mult_mod_eq)
  show ?thesis
  proof (cases "bit (bm ! (n div 8)) (n mod 8)")
    case True
    then show ?thesis
      using i assms k by (auto simp: bitmap_set_bit_def Let_def word_div_mod_8 and_exp_byte bits_def fun_eq_iff)
  next
    case False
    then show ?thesis
      using i assms k
      by (auto simp: bitmap_set_bit_def Let_def word_div_mod_8 and_exp_byte bits_def fun_eq_iff e nth_list_update bit_simps)
  qed
qed

lemma bitmap_clear_bit_bits:
  assumes "n < 8 * length bm" "n < 2 ^ 32"
  shows "\<exists>bm'. bitmap_clear_bit bm (word_of_nat n) = Inr bm' \<and> length bm' = length bm \<and>
    bits bm' = (\<lambda>k. k \<noteq> n \<and> bits bm k)"
proof -
  have i: "n div 8 < length bm" using assms(1) by linarith
  have e: "m = n \<longleftrightarrow> m div 8 = n div 8 \<and> m mod 8 = n mod 8" for m by (metis div_mult_mod_eq)
  show ?thesis
    using i assms
    by (auto simp: bitmap_clear_bit_def Let_def word_div_mod_8 bits_def fun_eq_iff e nth_list_update bit_simps)
qed

lemma byte_zero_iff: "(x :: byte) = 0 \<longleftrightarrow> (\<forall>k < 8. \<not> bit x k)"
  by (auto simp: bit_eq_iff intro: bit_imp_le_length)

lemma bitmap_set_8_bits_bits:
  assumes "n < 8 * length bm" "n < 2 ^ 32" "n mod 8 = 0"
  shows "\<exists>bm'. bitmap_set_8_bits bm (word_of_nat n) = Inr (\<exists>k < 8. bits bm (n + k), bm') \<and> length bm' = length bm \<and>
    bits bm' = (\<lambda>k. n \<le> k \<and> k < n + 8 \<or> bits bm k)"
proof -
  have i: "n div 8 < length bm" using assms(1) by linarith
  obtain q where q: "n = 8 * q" using assms(3) by (auto elim: dvdE simp: mod_eq_0_iff_dvd)
  have b: "bits bm (n + k) \<longleftrightarrow> bit (bm ! q) k" if "k < 8" for k using that i q by (simp add: bits_def)
  have z: "bm ! q \<noteq> 0 \<longleftrightarrow> (\<exists>k < 8. bits bm (n + k))" unfolding byte_zero_iff using b by blast
  have ff: "bit (255 :: byte) k \<longleftrightarrow> k < 8" for k
    using bit_mask_iff [of 8 k, where ?'a = byte] by (simp add: mask_eq_exp_minus_1)
  have iq: "q < length bm" using i q by simp
  have "bits (bm[q := 255]) = (\<lambda>k. n \<le> k \<and> k < n + 8 \<or> bits bm k)"
  proof
    fix m
    have "m div 8 = q \<longleftrightarrow> n \<le> m \<and> m < n + 8" unfolding q by (auto simp: div_nat_eqI)
    moreover have "m div 8 = q \<Longrightarrow> m < 8 * length bm" using iq by linarith
    ultimately show "bits (bm[q := 255]) m \<longleftrightarrow> n \<le> m \<and> m < n + 8 \<or> bits bm m"
      using iq ff [of "m mod 8"] by (cases "m div 8 = q") (auto simp: bits_def)
  qed
  moreover have "bitmap_set_8_bits bm (word_of_nat n) = Inr (bm ! q \<noteq> 0, bm[q := 255])"
    using word_div_mod_8(1) [OF assms(2)] i q by (simp add: bitmap_set_8_bits_def Let_def)
  ultimately show ?thesis using z by simp
qed

section \<open>Reserving blocks\<close>

text \<open>The loops with \<open>K\<close> iterations to make: they succeed exactly when all the bits are free.\<close>

lemma bit_guard:
  assumes "i < 2 ^ 32" "num < 2 ^ 32" "n < 2 ^ 32"
  shows "((word_of_nat i :: u32) < word_of_nat num \<and> (al \<longrightarrow> (word_of_nat n :: u32) mod 8 \<noteq> 0)) \<longleftrightarrow>
    i < num \<and> (al \<longrightarrow> n mod 8 \<noteq> 0)"
  unfolding word_of_nat_less_u32 [OF assms(1,2)] word_mod_8_0 [OF assms(3)] ..

lemma bit_loop_run:
  assumes "\<And>j. j < K \<Longrightarrow> i + j < num \<and> (al \<longrightarrow> (n + j) mod 8 \<noteq> 0)" "\<not> (i + K < num \<and> (al \<longrightarrow> (n + K) mod 8 \<noteq> 0))"
    "n + K \<le> 8 * length bm" "n + K < 2 ^ 32" "num < 2 ^ 32" "i + K < 2 ^ 32" "K < fuel"
  shows "\<exists>ok bm' i' b'. bit_loop fuel al bm (word_of_nat i) (word_of_nat n) (word_of_nat num) = Inr (ok, bm', i', b') \<and>
    length bm' = length bm \<and> (ok \<longleftrightarrow> (\<forall>j < K. \<not> bits bm (n + j))) \<and>
    (ok \<longrightarrow> i' = word_of_nat (i + K) \<and> b' = word_of_nat (n + K) \<and> bits bm' = (\<lambda>m. n \<le> m \<and> m < n + K \<or> bits bm m))"
  using assms
proof (induction K arbitrary: i n bm fuel)
  case 0
  then obtain f where f: "fuel = Suc f" by (cases fuel) auto
  have "\<not> ((word_of_nat i :: u32) < word_of_nat num \<and> (al \<longrightarrow> (word_of_nat n :: u32) mod 8 \<noteq> 0))"
    using 0(2,4-6) by (subst bit_guard) simp_all
  then have "bit_loop fuel al bm (word_of_nat i) (word_of_nat n) (word_of_nat num) = Inr (True, bm, word_of_nat i, word_of_nat n)"
    unfolding f bit_loop.simps by (rule if_not_P)
  then show ?case by (intro exI [of _ True]) (auto simp: fun_eq_iff)
next
  case (Suc K)
  then obtain f where f: "fuel = Suc f" by (cases fuel) auto
  have "i < num \<and> (al \<longrightarrow> n mod 8 \<noteq> 0)" using Suc.prems(1) [of 0] by simp
  then have g: "(word_of_nat i :: u32) < word_of_nat num \<and> (al \<longrightarrow> (word_of_nat n :: u32) mod 8 \<noteq> 0)"
    using Suc.prems(4-6) by (subst bit_guard) simp_all
  obtain bm1 where b: "bitmap_set_bit bm (word_of_nat n) = Inr (bits bm n, bm1)" "length bm1 = length bm"
    "bits bm1 = (\<lambda>k. k = n \<or> bits bm k)"
    using bitmap_set_bit_bits [of n bm] Suc.prems(3,4) by auto
  have step: "bit_loop fuel al bm (word_of_nat i) (word_of_nat n) (word_of_nat num) =
    (if bits bm n then Inr (False, bm1, word_of_nat i, word_of_nat n)
     else bit_loop f al bm1 (word_of_nat (Suc i)) (word_of_nat (Suc n)) (word_of_nat num))"
    unfolding f bit_loop.simps if_P [OF g] b(1) by (simp add: add.commute)
  show ?case
  proof (cases "bits bm n")
    case True
    then have "\<not> (\<forall>j < Suc K. \<not> bits bm (n + j))" by (metis add.right_neutral zero_less_Suc)
    then show ?thesis using b(2) unfolding step if_P [OF True] by (intro exI [of _ False] exI [of _ bm1]) auto
  next
    case False
    have "\<exists>ok bm' i' b'. bit_loop f al bm1 (word_of_nat (Suc i)) (word_of_nat (Suc n)) (word_of_nat num) = Inr (ok, bm', i', b') \<and>
      length bm' = length bm1 \<and> (ok \<longleftrightarrow> (\<forall>j < K. \<not> bits bm1 (Suc n + j))) \<and>
      (ok \<longrightarrow> i' = word_of_nat (Suc i + K) \<and> b' = word_of_nat (Suc n + K) \<and>
        bits bm' = (\<lambda>m. Suc n \<le> m \<and> m < Suc n + K \<or> bits bm1 m))"
      using Suc.prems(1) [of "Suc _"] Suc.prems(2-7) f b(2) by (intro Suc.IH) simp_all
    moreover have "(\<forall>j < K. \<not> bits bm1 (Suc n + j)) \<longleftrightarrow> (\<forall>j < Suc K. \<not> bits bm (n + j))"
      using False by (auto simp: b(3) All_less_Suc2)
    moreover have "(\<lambda>m. Suc n \<le> m \<and> m < Suc n + K \<or> bits bm1 m) = (\<lambda>m. n \<le> m \<and> m < n + Suc K \<or> bits bm m)"
      by (auto simp: b(3) fun_eq_iff)
    ultimately show ?thesis using False b(2) unfolding step by simp
  qed
qed

lemma unat_and_not_7:
  assumes "num < 2 ^ 32"
  shows "(word_of_nat num :: u32) AND NOT 7 = word_of_nat (num - num mod 8)"
proof -
  have "unat ((word_of_nat num :: u32) AND (8 - 1)) = num mod 8"
    using unat_and_mask [of 8 3 "word_of_nat num"] assms by (simp add: unat_of_nat)
  then have "unat ((word_of_nat num :: u32) AND 7) = num mod 8" by simp
  then have "unat ((word_of_nat num :: u32) AND NOT 7) = num - num mod 8"
    unfolding and_not_eq_minus using assms by (subst unat_sub) (simp_all add: word_le_nat_alt unat_of_nat)
  then show ?thesis by (rule word_of_nat_eqI)
qed

lemma byte_loop_run:
  assumes "\<And>j. j < K \<Longrightarrow> i + 8 * j + 8 \<le> num - num mod 8" "\<not> i + 8 * K + 8 \<le> num - num mod 8" "0 < K \<longrightarrow> n mod 8 = 0"
    "n + 8 * K \<le> 8 * length bm" "n + 8 * K < 2 ^ 32" "num < 2 ^ 32" "i + 8 * K + 8 < 2 ^ 32" "K < fuel"
  shows "\<exists>ok bm' i' b'. byte_loop fuel bm (word_of_nat i) (word_of_nat n) (word_of_nat num) = Inr (ok, bm', i', b') \<and>
    length bm' = length bm \<and> (ok \<longleftrightarrow> (\<forall>j < 8 * K. \<not> bits bm (n + j))) \<and>
    (ok \<longrightarrow> i' = word_of_nat (i + 8 * K) \<and> b' = word_of_nat (n + 8 * K) \<and>
      bits bm' = (\<lambda>m. n \<le> m \<and> m < n + 8 * K \<or> bits bm m))"
  using assms
proof (induction K arbitrary: i n bm fuel)
  case 0
  then obtain f where f: "fuel = Suc f" by (cases fuel) auto
  have "\<not> (word_of_nat (i + 8) :: u32) \<le> word_of_nat num AND NOT 7"
    unfolding unat_and_not_7 [OF 0(6)] using 0 by (subst word_of_nat_le_u32) simp_all
  then have "byte_loop fuel bm (word_of_nat i) (word_of_nat n) (word_of_nat num) = Inr (True, bm, word_of_nat i, word_of_nat n)"
    unfolding f byte_loop.simps by simp
  then show ?case by (intro exI [of _ True]) (auto simp: fun_eq_iff)
next
  case (Suc K)
  then obtain f where f: "fuel = Suc f" by (cases fuel) auto
  have "i + 8 \<le> num - num mod 8" using Suc.prems(1) [of 0] by simp
  then have g: "(word_of_nat (i + 8) :: u32) \<le> word_of_nat num AND NOT 7"
    unfolding unat_and_not_7 [OF Suc.prems(6)] using Suc.prems by (subst word_of_nat_le_u32) simp_all
  then have g': "(word_of_nat i :: u32) + 8 \<le> word_of_nat num AND NOT 7" by (simp only: of_nat_add of_nat_numeral)
  obtain bm1 where b: "bitmap_set_8_bits bm (word_of_nat n) = Inr (\<exists>k < 8. bits bm (n + k), bm1)" "length bm1 = length bm"
    "bits bm1 = (\<lambda>k. n \<le> k \<and> k < n + 8 \<or> bits bm k)"
    using bitmap_set_8_bits_bits [of n bm] Suc.prems(3-5) by auto
  have step: "byte_loop fuel bm (word_of_nat i) (word_of_nat n) (word_of_nat num) =
    (if \<exists>k < 8. bits bm (n + k) then Inr (False, bm1, word_of_nat i, word_of_nat n)
     else byte_loop f bm1 (word_of_nat (i + 8)) (word_of_nat (n + 8)) (word_of_nat num))"
    unfolding f byte_loop.simps if_P [OF g'] b(1) by auto
  have split8: "(\<forall>j < 8 * Suc K. \<not> bits bm (n + j)) \<longleftrightarrow> (\<forall>k < 8. \<not> bits bm (n + k)) \<and> (\<forall>j < 8 * K. \<not> bits bm (n + 8 + j))"
  proof safe
    fix j assume a: "\<forall>k < 8. \<not> bits bm (n + k)" "\<forall>j < 8 * K. \<not> bits bm (n + 8 + j)" "j < 8 * Suc K" "bits bm (n + j)"
    show False
    proof (cases "j < 8")
      case False
      then have "j - 8 < 8 * K" "n + 8 + (j - 8) = n + j" using a(3) by simp_all
      then show False using a(2,4) by metis
    qed (use a in blast)
  qed (simp_all add: add.assoc)
  show ?case
  proof (cases "\<exists>k < 8. bits bm (n + k)")
    case True
    then show ?thesis using b(2) split8 unfolding step by auto
  next
    case False
    have "\<exists>ok bm' i' b'. byte_loop f bm1 (word_of_nat (i + 8)) (word_of_nat (n + 8)) (word_of_nat num) = Inr (ok, bm', i', b') \<and>
      length bm' = length bm1 \<and> (ok \<longleftrightarrow> (\<forall>j < 8 * K. \<not> bits bm1 (n + 8 + j))) \<and>
      (ok \<longrightarrow> i' = word_of_nat (i + 8 + 8 * K) \<and> b' = word_of_nat (n + 8 + 8 * K) \<and>
        bits bm' = (\<lambda>m. n + 8 \<le> m \<and> m < n + 8 + 8 * K \<or> bits bm1 m))"
      using Suc.prems(1) [of "Suc _"] Suc.prems(2-8) f b(2) by (intro Suc.IH) simp_all
    moreover have "(\<forall>j < 8 * K. \<not> bits bm1 (n + 8 + j)) \<longleftrightarrow> (\<forall>j < 8 * K. \<not> bits bm (n + 8 + j))"
      by (simp add: b(3))
    moreover have "(\<lambda>m. n + 8 \<le> m \<and> m < n + 8 + 8 * K \<or> bits bm1 m) = (\<lambda>m. n \<le> m \<and> m < n + 8 * Suc K \<or> bits bm m)"
      by (auto simp: b(3) fun_eq_iff)
    moreover have "i + 8 + 8 * K = i + 8 * Suc K" "n + 8 + 8 * K = n + 8 * Suc K" by simp_all
    ultimately show ?thesis using False b(2) split8 unfolding step by auto
  qed
qed

lemma interval_parts:
  fixes s :: nat
  assumes "a + b + c = n"
  shows "(\<forall>j < n. P (s + j)) \<longleftrightarrow> (\<forall>j < a. P (s + j)) \<and> (\<forall>j < b. P (s + a + j)) \<and> (\<forall>j < c. P (s + a + b + j))"
proof safe
  fix j assume h: "\<forall>j < a. P (s + j)" "\<forall>j < b. P (s + a + j)" "\<forall>j < c. P (s + a + b + j)" "j < n"
  consider "j < a" | "a \<le> j" "j < a + b" | "a + b \<le> j" by linarith
  then show "P (s + j)"
  proof cases
    case 2
    then show ?thesis using h(2) [rule_format, of "j - a"] by simp
  next
    case 3
    then show ?thesis using h(3) [rule_format, of "j - a - b"] h(4) assms by simp
  qed (use h in blast)
qed (use assms in \<open>simp_all add: add.assoc\<close>)

text \<open>How many steps the three loops take.\<close>

lemma byte_boundary:
  fixes start :: nat
  shows "\<exists>g < 8. (start + g) mod 8 = 0 \<and> (\<forall>j < g. (start + j) mod 8 \<noteq> 0)"
proof -
  define s where "s = start mod 8"
  define q where "q = start div 8"
  have st: "start = 8 * q + s" and s8: "s < 8" by (simp_all add: s_def q_def)
  have m: "(8 * q + r) mod 8 = r" if "r < 8" for r using that by simp
  show ?thesis
  proof (cases "s = 0")
    case True
    then show ?thesis using st by (intro exI [of _ 0]) simp
  next
    case False
    have "(start + j) mod 8 \<noteq> 0" if "j < 8 - s" for j
      using m [of "s + j"] that False by (simp add: st add.assoc)
    moreover have "start + (8 - s) = 8 * Suc q" using st s8 by simp
    then have "(start + (8 - s)) mod 8 = 0" by (simp only: mod_mult_self1_is_0)
    ultimately show ?thesis using False s8 by (intro exI [of _ "8 - s"]) auto
  qed
qed

lemma reserve_plan:
  fixes start num :: nat
  shows "\<exists>a b c. a + 8 * b + c = num \<and> ((start + a) mod 8 = 0 \<or> a = num) \<and> (\<forall>j < a. (start + j) mod 8 \<noteq> 0) \<and>
    (\<forall>j < b. a + 8 * j + 8 \<le> num - num mod 8) \<and> \<not> a + 8 * b + 8 \<le> num - num mod 8 \<and> (0 < b \<longrightarrow> (start + a) mod 8 = 0)"
proof -
  obtain g where g: "g < 8" "(start + g) mod 8 = 0" "\<forall>j < g. (start + j) mod 8 \<noteq> 0"
    using byte_boundary [of start] by metis
  define a where "a = min num g"
  define e where "e = num - num mod 8"
  define d where "d = e - a"
  have a: "a \<le> num" "(start + a) mod 8 = 0 \<or> a = num" "\<forall>j < a. (start + j) mod 8 \<noteq> 0"
    using g unfolding a_def by (cases "num \<le> g"; simp add: min_def)+
  have d: "8 * (d div 8) \<le> d" "d < 8 * (d div 8) + 8" by linarith+
  have e: "e \<le> num" by (simp add: e_def)
  have "a + 8 * (d div 8) \<le> num" using d(1) e a(1) d_def by linarith
  moreover have "a + 8 * j + 8 \<le> e" if "j < d div 8" for j using that d(1) d_def by linarith
  moreover have "\<not> a + 8 * (d div 8) + 8 \<le> e" using d(2) d_def by linarith
  moreover have "(start + a) mod 8 = 0" if "0 < d div 8"
  proof -
    have "a \<noteq> num" using that d(1) d_def e by linarith
    then show ?thesis using a(2) by blast
  qed
  ultimately show ?thesis
    using a(2,3) unfolding e_def [symmetric]
    by (intro exI [of _ a] exI [of _ "d div 8"] exI [of _ "num - a - 8 * (d div 8)"]) simp
qed

declare bit_loop.simps [simp del] byte_loop.simps [simp del]

lemma bit_loop_obtain:
  assumes "\<And>j. j < K \<Longrightarrow> i + j < num \<and> (al \<longrightarrow> (n + j) mod 8 \<noteq> 0)" "\<not> (i + K < num \<and> (al \<longrightarrow> (n + K) mod 8 \<noteq> 0))"
    "n + K \<le> 8 * length bm" "n + K < 2 ^ 32" "num < 2 ^ 32" "i + K < 2 ^ 32" "K < fuel"
  obtains ok bm' i' b' where "bit_loop fuel al bm (word_of_nat i) (word_of_nat n) (word_of_nat num) = Inr (ok, bm', i', b')"
    "length bm' = length bm" "ok \<longleftrightarrow> (\<forall>j < K. \<not> bits bm (n + j))" "ok \<longrightarrow> i' = word_of_nat (i + K)"
    "ok \<longrightarrow> b' = word_of_nat (n + K)" "ok \<longrightarrow> bits bm' = (\<lambda>m. n \<le> m \<and> m < n + K \<or> bits bm m)"
  by (rule bit_loop_run [OF _ assms(2-7), THEN exE], erule assms(1), elim exE conjE, erule that, assumption+, simp_all)

lemma byte_loop_obtain:
  assumes "\<And>j. j < K \<Longrightarrow> i + 8 * j + 8 \<le> num - num mod 8" "\<not> i + 8 * K + 8 \<le> num - num mod 8" "0 < K \<longrightarrow> n mod 8 = 0"
    "n + 8 * K \<le> 8 * length bm" "n + 8 * K < 2 ^ 32" "num < 2 ^ 32" "i + 8 * K + 8 < 2 ^ 32" "K < fuel"
  obtains ok bm' i' b' where "byte_loop fuel bm (word_of_nat i) (word_of_nat n) (word_of_nat num) = Inr (ok, bm', i', b')"
    "length bm' = length bm" "ok \<longleftrightarrow> (\<forall>j < 8 * K. \<not> bits bm (n + j))" "ok \<longrightarrow> i' = word_of_nat (i + 8 * K)"
    "ok \<longrightarrow> b' = word_of_nat (n + 8 * K)" "ok \<longrightarrow> bits bm' = (\<lambda>m. n \<le> m \<and> m < n + 8 * K \<or> bits bm m)"
  by (rule byte_loop_run [OF _ assms(2-8), THEN exE], erule assms(1), elim exE conjE, erule that, assumption+, simp_all)

text \<open>The three loops together: the byte-wise reservation sets the same bits as a bit-wise one.\<close>

lemma reserve_bits_run:
  assumes "start + num \<le> 8 * length bm" "start + num + 8 < 2 ^ 32"
  shows "\<exists>bm'. reserve_bits bm (word_of_nat start) (word_of_nat num) = Inr (\<forall>j < num. \<not> bits bm (start + j), bm') \<and>
    length bm' = length bm \<and>
    ((\<forall>j < num. \<not> bits bm (start + j)) \<longrightarrow> bits bm' = (\<lambda>m. start \<le> m \<and> m < start + num \<or> bits bm m))"
proof -
  have n: "unat (word_of_nat num :: u32) = num" using assms(2) by (intro unat_of_nat_u32) linarith
  obtain a b c where sum: "a + 8 * b + c = num" and al: "(start + a) mod 8 = 0 \<or> a = num"
    and nal: "\<And>j. j < a \<Longrightarrow> (start + j) mod 8 \<noteq> 0" and bj: "\<And>j. j < b \<Longrightarrow> a + 8 * j + 8 \<le> num - num mod 8"
    and be: "\<not> a + 8 * b + 8 \<le> num - num mod 8" and b0: "0 < b \<longrightarrow> (start + a) mod 8 = 0"
    using reserve_plan [of num start] by metis
  obtain ok1 bm1 i1 b1 where 1: "bit_loop (Suc num) True bm (word_of_nat 0) (word_of_nat start) (word_of_nat num) = Inr (ok1, bm1, i1, b1)"
    "length bm1 = length bm" "ok1 \<longleftrightarrow> (\<forall>j < a. \<not> bits bm (start + j))" "ok1 \<longrightarrow> i1 = word_of_nat (0 + a)"
    "ok1 \<longrightarrow> b1 = word_of_nat (start + a)" "ok1 \<longrightarrow> bits bm1 = (\<lambda>m. start \<le> m \<and> m < start + a \<or> bits bm m)"
    by (rule bit_loop_obtain [of a 0 num True start bm "Suc num"]) (use al nal assms sum in auto)
  obtain ok2 bm2 i2 b2 where 2: "byte_loop (Suc num) bm1 (word_of_nat a) (word_of_nat (start + a)) (word_of_nat num) = Inr (ok2, bm2, i2, b2)"
    "length bm2 = length bm1" "ok2 \<longleftrightarrow> (\<forall>j < 8 * b. \<not> bits bm1 (start + a + j))" "ok2 \<longrightarrow> i2 = word_of_nat (a + 8 * b)"
    "ok2 \<longrightarrow> b2 = word_of_nat (start + a + 8 * b)"
    "ok2 \<longrightarrow> bits bm2 = (\<lambda>m. start + a \<le> m \<and> m < start + a + 8 * b \<or> bits bm1 m)"
    by (rule byte_loop_obtain [of b a num "start + a" bm1 "Suc num", OF bj be b0]) (use sum assms 1(2) in auto)
  obtain ok3 bm3 i3 b3 where 3: "bit_loop (Suc num) False bm2 (word_of_nat (a + 8 * b)) (word_of_nat (start + a + 8 * b)) (word_of_nat num) = Inr (ok3, bm3, i3, b3)"
    "length bm3 = length bm2" "ok3 \<longleftrightarrow> (\<forall>j < c. \<not> bits bm2 (start + a + 8 * b + j))"
    "ok3 \<longrightarrow> bits bm3 = (\<lambda>m. start + a + 8 * b \<le> m \<and> m < start + a + 8 * b + c \<or> bits bm2 m)"
    by (rule bit_loop_obtain [of c "a + 8 * b" num False "start + a + 8 * b" bm2 "Suc num"]) (use sum assms 1(2) 2(2) in auto)
  define okm where "okm = (if \<not> ok1 then (False, bm1) else if \<not> ok2 then (False, bm2) else (ok3, bm3))"
  have run: "reserve_bits bm (word_of_nat start) (word_of_nat num) = Inr okm"
    using 1(1,4,5) 2(1,4,5) 3(1) unfolding reserve_bits_def okm_def Let_def n
    by (cases ok1; cases ok2) simp_all
  have parts: "(\<forall>j < num. \<not> bits bm (start + j)) \<longleftrightarrow> (\<forall>j < a. \<not> bits bm (start + j)) \<and>
      (\<forall>j < 8 * b. \<not> bits bm (start + a + j)) \<and> (\<forall>j < c. \<not> bits bm (start + a + 8 * b + j))"
    by (rule interval_parts [OF sum, of "\<lambda>m. \<not> bits bm m"])
  have "ok2 \<longleftrightarrow> (\<forall>j < 8 * b. \<not> bits bm (start + a + j))" if ok1 using that 1(6) 2(3) by simp
  moreover have "ok3 \<longleftrightarrow> (\<forall>j < c. \<not> bits bm (start + a + 8 * b + j))" if ok1 ok2 using that 1(6) 2(6) 3(3) by simp
  ultimately have ok: "fst okm \<longleftrightarrow> (\<forall>j < num. \<not> bits bm (start + j))"
    unfolding parts okm_def using 1(3) by (cases ok1; cases ok2) simp_all
  have "bits (snd okm) = (\<lambda>m. start \<le> m \<and> m < start + num \<or> bits bm m)" if "fst okm"
  proof
    fix m
    have "ok1" "ok2" "ok3" using that by (simp_all add: okm_def split: if_splits)
    then have "bits (snd okm) m \<longleftrightarrow> start + a + 8 * b \<le> m \<and> m < start + a + 8 * b + c \<or>
        start + a \<le> m \<and> m < start + a + 8 * b \<or> start \<le> m \<and> m < start + a \<or> bits bm m"
      using 1(6) 2(6) 3(4) by (simp add: okm_def)
    also have "\<dots> \<longleftrightarrow> start \<le> m \<and> m < start + num \<or> bits bm m" using sum by linarith
    finally show "bits (snd okm) m \<longleftrightarrow> start \<le> m \<and> m < start + num \<or> bits bm m" .
  qed
  moreover have "length (snd okm) = length bm" using 1(2) 2(2) 3(2) by (simp add: okm_def)
  moreover have "okm = (\<forall>j < num. \<not> bits bm (start + j), snd okm)" using ok by (simp add: prod_eq_iff)
  ultimately show ?thesis using run ok by (intro exI [of _ "snd okm"]) simp
qed

lemma reserve_blocks_cases:
  assumes "unat start + unat num \<le> 8 * length (bg_bitmaps bg)" "unat start + unat num + 8 < 2 ^ 32"
  shows "if num > bg_free_blocks bg then reserve_blocks force bg start num = Inr (- 1, bg)
    else if \<forall>j < unat num. \<not> bits (bg_bitmaps bg) (unat start + j)
    then \<exists>bm. reserve_blocks force bg start num =
        Inr (0, bg\<lparr>bg_bitmaps := bm, bg_free_blocks := bg_free_blocks bg - num,
                   bg_first_free_block := (if start = bg_first_free_block bg then start + num else bg_first_free_block bg)\<rparr>) \<and>
        length bm = length (bg_bitmaps bg) \<and>
        bits bm = (\<lambda>m. unat start \<le> m \<and> m < unat start + unat num \<or> bits (bg_bitmaps bg) m)
    else if force then \<exists>bm. reserve_blocks force bg start num = Inr (- 1, bg\<lparr>bg_bitmaps := bm\<rparr>)
    else reserve_blocks force bg start num = Inl ErrorExit"
proof -
  obtain bm where "reserve_bits (bg_bitmaps bg) start num = Inr (\<forall>j < unat num. \<not> bits (bg_bitmaps bg) (unat start + j), bm)"
    "length bm = length (bg_bitmaps bg)"
    "(\<forall>j < unat num. \<not> bits (bg_bitmaps bg) (unat start + j)) \<longrightarrow>
       bits bm = (\<lambda>m. unat start \<le> m \<and> m < unat start + unat num \<or> bits (bg_bitmaps bg) m)"
    using reserve_bits_run [OF assms] by auto
  then show ?thesis by (auto simp: reserve_blocks_def error_def)
qed

text \<open>
  C18. Reserving a run of blocks of a group that lies within its bitmap: refused without effect when more
  blocks are asked for than the group counts as free; otherwise it succeeds exactly when every block of
  the run is free, and then the bitmap gains exactly the run, the count of free blocks drops by its
  length and the first free block moves behind it if the run began there.  A run that is not free is
  reported by leaving the program, or by -1 where errors are forced.
\<close>

theorem reserve_blocks_exact:
  assumes "unat start + unat num \<le> 8 * length (bg_bitmaps bg)" "unat start + unat num + 8 < 2 ^ 32"
  shows "if num > bg_free_blocks bg then reserve_blocks force bg start num = Inr (- 1, bg)
    else if \<forall>j < unat num. \<not> bits (bg_bitmaps bg) (unat start + j)
    then \<exists>bm. reserve_blocks force bg start num =
        Inr (0, bg\<lparr>bg_bitmaps := bm, bg_free_blocks := bg_free_blocks bg - num,
                   bg_first_free_block := (if start = bg_first_free_block bg then start + num else bg_first_free_block bg)\<rparr>) \<and>
        length bm = length (bg_bitmaps bg) \<and>
        bits bm = (\<lambda>m. unat start \<le> m \<and> m < unat start + unat num \<or> bits (bg_bitmaps bg) m)
    else if force then \<exists>bm. reserve_blocks force bg start num = Inr (- 1, bg\<lparr>bg_bitmaps := bm\<rparr>)
    else reserve_blocks force bg start num = Inl ErrorExit"
  by (rule reserve_blocks_cases [OF assms])

definition demo_group :: block_group_info where
  "demo_group = zero_bg\<lparr>bg_bitmaps := [0x07, 0, 0, 0], bg_free_blocks := 29, bg_first_free_block := 3\<rparr>"

lemma demo_group_bits: "bits (bg_bitmaps demo_group) n \<longleftrightarrow> n < 3"
proof -
  have "bit (7 :: byte) k \<longleftrightarrow> k < 3" for k
    using bit_mask_iff [of 3 k, where ?'a = byte] by (simp add: mask_eq_exp_minus_1) linarith
  moreover have "[0x07, 0, 0, 0 :: byte] ! (n div 8) = 0" if "8 \<le> n" "n < 32"
  proof -
    have "n div 8 = 1 \<or> n div 8 = 2 \<or> n div 8 = 3" using that by linarith
    then show ?thesis by auto
  qed
  ultimately show ?thesis by (cases "n < 8") (auto simp: bits_def demo_group_def)
qed

theorem reserve_blocks_exact_witness:
  "\<exists>bm. reserve_blocks False demo_group 3 20 =
      Inr (0, demo_group\<lparr>bg_bitmaps := bm, bg_free_blocks := 9, bg_first_free_block := 23\<rparr>) \<and>
    bits bm = (\<lambda>m. m < 23)"
proof -
  have "\<forall>j < 20. \<not> bits (bg_bitmaps demo_group) (3 + j)" by (simp add: demo_group_bits)
  moreover have "length (bg_bitmaps demo_group) = 4" "bg_free_blocks demo_group = 29" "bg_first_free_block demo_group = 3"
    by (simp_all add: demo_group_def)
  moreover have "(\<lambda>m :: nat. 3 \<le> m \<and> m < 23 \<or> m < 3) = (\<lambda>m. m < 23)" by (auto simp: fun_eq_iff)
  ultimately show ?thesis
    using reserve_blocks_exact [of 3 20 demo_group False] by (simp add: demo_group_bits) blast
qed

section \<open>The invariant of a block group\<close>

text \<open>
  A group of \<open>N\<close> blocks keeps its free blocks in one run, which begins at the first free block; every other
  block is marked as used.
\<close>

definition bg_ok :: "nat \<Rightarrow> block_group_info \<Rightarrow> bool" where
  "bg_ok N bg \<longleftrightarrow> N \<le> 8 * length (bg_bitmaps bg) \<and> N + 8 < 2 ^ 32 \<and>
     unat (bg_first_free_block bg) + unat (bg_free_blocks bg) \<le> N \<and>
     (\<forall>n < N. bits (bg_bitmaps bg) n \<longleftrightarrow>
       \<not> (unat (bg_first_free_block bg) \<le> n \<and> n < unat (bg_first_free_block bg) + unat (bg_free_blocks bg)))"

lemma unat_sub_le: "(b :: u32) \<le> a \<Longrightarrow> unat (a - b) = unat a - unat b"
  by (simp add: unat_sub)

lemma reserve_first_free:
  assumes "bg_ok N bg" "num \<le> bg_free_blocks bg"
  shows "\<exists>bm. reserve_blocks force bg (bg_first_free_block bg) num =
      Inr (0, bg\<lparr>bg_bitmaps := bm, bg_free_blocks := bg_free_blocks bg - num,
                 bg_first_free_block := bg_first_free_block bg + num\<rparr>) \<and>
    length bm = length (bg_bitmaps bg) \<and>
    bg_ok N (bg\<lparr>bg_bitmaps := bm, bg_free_blocks := bg_free_blocks bg - num,
                bg_first_free_block := bg_first_free_block bg + num\<rparr>) \<and>
    unat (bg_first_free_block bg + num) = unat (bg_first_free_block bg) + unat num"
proof -
  let ?ff = "unat (bg_first_free_block bg)" and ?fr = "unat (bg_free_blocks bg)" and ?n = "unat num"
  have b: "N \<le> 8 * length (bg_bitmaps bg)" "N + 8 < 2 ^ 32" "?ff + ?fr \<le> N" "?n \<le> ?fr"
    "\<And>n. n < N \<Longrightarrow> bits (bg_bitmaps bg) n \<longleftrightarrow> \<not> (?ff \<le> n \<and> n < ?ff + ?fr)"
    using assms by (auto simp: bg_ok_def word_le_nat_alt)
  have nl: "\<not> num > bg_free_blocks bg" using assms(2) by simp
  have free: "\<forall>j < ?n. \<not> bits (bg_bitmaps bg) (?ff + j)" using b by auto
  obtain bm where bm: "reserve_blocks force bg (bg_first_free_block bg) num =
      Inr (0, bg\<lparr>bg_bitmaps := bm, bg_free_blocks := bg_free_blocks bg - num,
                 bg_first_free_block := bg_first_free_block bg + num\<rparr>)" "length bm = length (bg_bitmaps bg)"
      "bits bm = (\<lambda>m. ?ff \<le> m \<and> m < ?ff + ?n \<or> bits (bg_bitmaps bg) m)"
    using reserve_blocks_cases [of "bg_first_free_block bg" num bg force] b(1-4) unfolding if_not_P [OF nl] if_P [OF free] by auto
  have ff: "unat (bg_first_free_block bg + num) = ?ff + ?n" using b(2-4) by (intro unat_add_u32) simp
  have fr: "unat (bg_free_blocks bg - num) = ?fr - ?n" using assms(2) by (rule unat_sub_le)
  have "bits bm n \<longleftrightarrow> \<not> (?ff + ?n \<le> n \<and> n < ?ff + ?n + (?fr - ?n))" if "n < N" for n
    unfolding bm(3) b(5) [OF that] using b(4) by linarith
  then have "bg_ok N (bg\<lparr>bg_bitmaps := bm, bg_free_blocks := bg_free_blocks bg - num,
                bg_first_free_block := bg_first_free_block bg + num\<rparr>)"
    using b bm(2) by (simp add: bg_ok_def ff fr)
  then show ?thesis using bm(1,2) ff by blast
qed

lemma clear_loop_run:
  assumes "k \<le> m" "m \<le> 8 * length bm" "m < 2 ^ 32"
  shows "\<exists>bm'. clear_loop k bm (word_of_nat m - 1) = Inr bm' \<and> length bm' = length bm \<and>
    bits bm' = (\<lambda>n. \<not> (m - k \<le> n \<and> n < m) \<and> bits bm n)"
  using assms
proof (induction k arbitrary: m bm)
  case 0
  then show ?case by (auto simp: fun_eq_iff)
next
  case (Suc k)
  then obtain j where j: "m = Suc j" by (cases m) auto
  have w: "(word_of_nat m - 1 :: u32) = word_of_nat j" by (simp add: j)
  obtain bm1 where b: "bitmap_clear_bit bm (word_of_nat j) = Inr bm1" "length bm1 = length bm" "bits bm1 = (\<lambda>n. n \<noteq> j \<and> bits bm n)"
    using bitmap_clear_bit_bits [of j bm] Suc.prems j by auto
  obtain bm2 where "clear_loop k bm1 (word_of_nat j - 1) = Inr bm2" "length bm2 = length bm1"
    "bits bm2 = (\<lambda>n. \<not> (j - k \<le> n \<and> n < j) \<and> bits bm1 n)"
    using Suc.IH [of j bm1] Suc.prems j b(2) by auto
  moreover have "(\<lambda>n. \<not> (j - k \<le> n \<and> n < j) \<and> bits bm1 n) = (\<lambda>n. \<not> (m - Suc k \<le> n \<and> n < m) \<and> bits bm n)"
    unfolding b(3) j using Suc.prems(1) j by (auto simp: fun_eq_iff less_Suc_eq)
  ultimately show ?case unfolding clear_loop.simps w b(1) using b(2) by simp
qed

lemma free_blocks_run:
  assumes "bg_ok N bg" "num \<le> bg_first_free_block bg"
  shows "\<exists>bm. free_blocks bg num = Inr (bg\<lparr>bg_bitmaps := bm, bg_free_blocks := bg_free_blocks bg + num,
              bg_first_free_block := bg_first_free_block bg - num\<rparr>) \<and> length bm = length (bg_bitmaps bg) \<and>
    bg_ok N (bg\<lparr>bg_bitmaps := bm, bg_free_blocks := bg_free_blocks bg + num,
              bg_first_free_block := bg_first_free_block bg - num\<rparr>) \<and>
    unat (bg_free_blocks bg + num) = unat (bg_free_blocks bg) + unat num"
proof -
  let ?ff = "unat (bg_first_free_block bg)" and ?fr = "unat (bg_free_blocks bg)" and ?n = "unat num"
  have b: "N \<le> 8 * length (bg_bitmaps bg)" "N + 8 < 2 ^ 32" "?ff + ?fr \<le> N" "?n \<le> ?ff"
    "\<And>n. n < N \<Longrightarrow> bits (bg_bitmaps bg) n \<longleftrightarrow> \<not> (?ff \<le> n \<and> n < ?ff + ?fr)"
    using assms by (auto simp: bg_ok_def word_le_nat_alt)
  obtain bm where bm: "clear_loop ?n (bg_bitmaps bg) (bg_first_free_block bg - 1) = Inr bm" "length bm = length (bg_bitmaps bg)"
    "bits bm = (\<lambda>n. \<not> (?ff - ?n \<le> n \<and> n < ?ff) \<and> bits (bg_bitmaps bg) n)"
    using clear_loop_run [of ?n ?ff "bg_bitmaps bg"] b by auto
  have fr: "unat (bg_free_blocks bg + num) = ?fr + ?n" using b(2-4) by (intro unat_add_u32) simp
  have ff: "unat (bg_first_free_block bg - num) = ?ff - ?n" using assms(2) by (rule unat_sub_le)
  have "bits bm n \<longleftrightarrow> \<not> (?ff - ?n \<le> n \<and> n < ?ff - ?n + (?fr + ?n))" if "n < N" for n
    unfolding bm(3) b(5) [OF that] using b(4) by linarith
  then have "bg_ok N (bg\<lparr>bg_bitmaps := bm, bg_free_blocks := bg_free_blocks bg + num,
              bg_first_free_block := bg_first_free_block bg - num\<rparr>)"
    using b bm(2) by (simp add: bg_ok_def ff fr)
  then show ?thesis using bm fr by (auto simp: free_blocks_def)
qed

end
