(* ===== verification/Ext4_Groups.thy ===== *)
theory Ext4_Groups
  imports Ext4_Alloc
begin

text \<open>
  The block groups of a file system together: the invariant \<open>fs_ok\<close> that the allocator keeps, the set of
  free blocks, the group that best fit picks, and what taking blocks from one group does to all of them.
\<close>

section \<open>The invariant of the block groups\<close>

text \<open>\<open>N\<close> blocks per group, the groups do not overlap, and no block has the number that stands for failure.\<close>

definition fs_ok :: "nat \<Rightarrow> ext4 \<Rightarrow> bool" where
  "fs_ok N e \<longleftrightarrow> unat (ex_groups e) = length (ex_bgs e) \<and>
     (\<forall>i < length (ex_bgs e). bg_ok N (ex_bgs e ! i) \<and> unat (bg_first_block (ex_bgs e ! i)) + N < 2 ^ 32) \<and>
     (\<forall>i < length (ex_bgs e). \<forall>j < length (ex_bgs e). i < j \<longrightarrow>
        unat (bg_first_block (ex_bgs e ! i)) + N \<le> unat (bg_first_block (ex_bgs e ! j)))"

text \<open>The blocks whose bit is not set in the bitmap of their group.\<close>

definition bg_free :: "nat \<Rightarrow> block_group_info \<Rightarrow> nat set" where
  "bg_free N bg = {unat (bg_first_block bg) + n | n. n < N \<and> \<not> bits (bg_bitmaps bg) n}"

definition fs_free :: "nat \<Rightarrow> ext4 \<Rightarrow> nat set" where
  "fs_free N e = (\<Union>i < length (ex_bgs e). bg_free N (ex_bgs e ! i))"

definition total_free :: "ext4 \<Rightarrow> nat" where
  "total_free e = (\<Sum>i < length (ex_bgs e). unat (bg_free_blocks (ex_bgs e ! i)))"

definition bg_start :: "block_group_info \<Rightarrow> nat" where
  "bg_start bg = unat (bg_first_block bg) + unat (bg_first_free_block bg)"

lemma bg_free_range:
  assumes "bg_ok N bg"
  shows "bg_free N bg = {bg_start bg ..< bg_start bg + unat (bg_free_blocks bg)}"
proof -
  have "(n < N \<and> \<not> bits (bg_bitmaps bg) n) \<longleftrightarrow>
      unat (bg_first_free_block bg) \<le> n \<and> n < unat (bg_first_free_block bg) + unat (bg_free_blocks bg)" for n
    using assms by (auto simp: bg_ok_def)
  then have "bg_free N bg = {unat (bg_first_block bg) + n | n. unat (bg_first_free_block bg) \<le> n \<and>
      n < unat (bg_first_free_block bg) + unat (bg_free_blocks bg)}" by (simp add: bg_free_def)
  also have "\<dots> = {bg_start bg ..< bg_start bg + unat (bg_free_blocks bg)}"
  proof (rule set_eqI)
    fix x
    show "x \<in> {unat (bg_first_block bg) + n | n. unat (bg_first_free_block bg) \<le> n \<and>
        n < unat (bg_first_free_block bg) + unat (bg_free_blocks bg)} \<longleftrightarrow>
      x \<in> {bg_start bg ..< bg_start bg + unat (bg_free_blocks bg)}"
      by (auto simp: bg_start_def) (rule exI [of _ "x - unat (bg_first_block bg)"], linarith)
  qed
  finally show ?thesis .
qed

lemma bg_free_within: "x \<in> bg_free N bg \<Longrightarrow> unat (bg_first_block bg) \<le> x \<and> x < unat (bg_first_block bg) + N"
  by (auto simp: bg_free_def)

lemma finite_fs_free [simp]: "finite (fs_free N e)"
  by (simp add: fs_free_def bg_free_def)

lemma fs_ok_groups_disjoint:
  assumes "fs_ok N e" "i < length (ex_bgs e)" "j < length (ex_bgs e)" "i \<noteq> j"
  shows "bg_free N (ex_bgs e ! i) \<inter> bg_free N (ex_bgs e ! j) = {}"
proof -
  have "unat (bg_first_block (ex_bgs e ! i)) + N \<le> unat (bg_first_block (ex_bgs e ! j)) \<or>
        unat (bg_first_block (ex_bgs e ! j)) + N \<le> unat (bg_first_block (ex_bgs e ! i))"
    using assms unfolding fs_ok_def by (meson linorder_neqE_nat)
  then show ?thesis by (fastforce dest!: bg_free_within)
qed

lemma card_fs_free:
  assumes "fs_ok N e"
  shows "card (fs_free N e) = total_free e"
proof -
  have ok: "bg_ok N (ex_bgs e ! i)" if "i < length (ex_bgs e)" for i using assms that by (simp add: fs_ok_def)
  have "card (fs_free N e) = (\<Sum>i < length (ex_bgs e). card (bg_free N (ex_bgs e ! i)))"
    unfolding fs_free_def using assms
    by (intro card_UN_disjoint) (auto simp: bg_free_range ok dest: fs_ok_groups_disjoint)
  also have "\<dots> = total_free e" unfolding total_free_def by (intro sum.cong) (simp_all add: bg_free_range ok)
  finally show ?thesis .
qed

section \<open>Replacing one group\<close>

lemma fs_ok_set_bg:
  assumes "fs_ok N e" "i < length (ex_bgs e)" "bg_ok N bg" "bg_first_block bg = bg_first_block (ex_bgs e ! i)"
  shows "fs_ok N (set_bg e i bg)"
proof -
  have "bg_first_block (ex_bgs (set_bg e i bg) ! j) = bg_first_block (ex_bgs e ! j)" if "j < length (ex_bgs e)" for j
    using that assms(2,4) by (simp add: set_bg_def nth_list_update)
  then show ?thesis using assms by (simp add: fs_ok_def) (simp add: set_bg_def nth_list_update)
qed

lemma total_free_set_bg:
  assumes "i < length (ex_bgs e)"
  shows "total_free (set_bg e i bg) + unat (bg_free_blocks (ex_bgs e ! i)) = total_free e + unat (bg_free_blocks bg)"
proof -
  let ?f = "\<lambda>g j. unat (bg_free_blocks (ex_bgs g ! j))" and ?n = "length (ex_bgs e)"
  have *: "sum (?f g) {..<?n} = ?f g i + sum (?f g) ({..<?n} - {i})" for g using assms by (intro sum.remove) simp_all
  have "sum (?f (set_bg e i bg)) ({..<?n} - {i}) = sum (?f e) ({..<?n} - {i})"
    by (intro sum.cong) (auto simp: set_bg_def)
  then show ?thesis using * [of e] * [of "set_bg e i bg"] assms by (simp add: total_free_def) (simp add: set_bg_def)
qed

lemma fs_free_set_bg:
  assumes "fs_ok N e" "i < length (ex_bgs e)" "bg_free N bg = bg_free N (ex_bgs e ! i) - A" "A \<subseteq> bg_free N (ex_bgs e ! i)"
  shows "fs_free N (set_bg e i bg) = fs_free N e - A"
proof -
  have "bg_free N (ex_bgs (set_bg e i bg) ! j) = bg_free N (ex_bgs e ! j) - A" if "j < length (ex_bgs e)" for j
    using assms(2,3) that fs_ok_groups_disjoint [OF assms(1,2) that] assms(4)
    by (cases "i = j") (auto simp: set_bg_def)
  then show ?thesis by (simp add: fs_free_def) (auto simp: set_bg_def)
qed

text \<open>Blocks that come back to a group.\<close>

lemma fs_free_set_bg_add:
  assumes "i < length (ex_bgs e)" "bg_free N bg = bg_free N (ex_bgs e ! i) \<union> A"
  shows "fs_free N (set_bg e i bg) = fs_free N e \<union> A"
proof -
  have "bg_free N (ex_bgs (set_bg e i bg) ! j) = bg_free N (ex_bgs e ! j) \<union> (if j = i then A else {})" if "j < length (ex_bgs e)" for j
    using assms that by (simp add: set_bg_def)
  then have "fs_free N (set_bg e i bg) = (\<Union>j < length (ex_bgs e). bg_free N (ex_bgs e ! j) \<union> (if j = i then A else {}))"
    by (simp add: fs_free_def) (simp add: set_bg_def)
  also have "\<dots> = fs_free N e \<union> A" using assms(1) by (auto simp: fs_free_def split: if_splits)
  finally show ?thesis .
qed

section \<open>Taking blocks from one group\<close>

lemma take_from_group:
  assumes "fs_ok N e" "i < length (ex_bgs e)" "len \<le> bg_free_blocks (ex_bgs e ! i)" "0 < len"
  defines "bg \<equiv> ex_bgs e ! i"
  shows "\<exists>b bg'. ext4_allocate_blocks_from_block_group e len i = Inr (b, set_bg e i bg') \<and> unat b = bg_start bg \<and>
    b \<noteq> EXT4_ALLOCATE_FAILED \<and> fs_ok N (set_bg e i bg') \<and> {bg_start bg ..< bg_start bg + unat len} \<subseteq> fs_free N e \<and>
    fs_free N (set_bg e i bg') = fs_free N e - {bg_start bg ..< bg_start bg + unat len} \<and>
    total_free (set_bg e i bg') + unat len = total_free e \<and>
    bg_first_free_block bg' = bg_first_free_block bg + len \<and>
    unat (bg_first_free_block bg') = unat (bg_first_free_block bg) + unat len \<and>
    bg_first_block bg' = bg_first_block bg \<and> bg_free_blocks bg' = bg_free_blocks bg - len"
proof -
  have ok: "bg_ok N bg" "unat (bg_first_block bg) + N < 2 ^ 32" using assms(1,2) by (simp_all add: fs_ok_def bg_def)
  obtain bm where r: "reserve_blocks (ex_force e) bg (bg_first_free_block bg) len =
      Inr (0, bg\<lparr>bg_bitmaps := bm, bg_free_blocks := bg_free_blocks bg - len, bg_first_free_block := bg_first_free_block bg + len\<rparr>)"
    "bg_ok N (bg\<lparr>bg_bitmaps := bm, bg_free_blocks := bg_free_blocks bg - len, bg_first_free_block := bg_first_free_block bg + len\<rparr>)"
    "unat (bg_first_free_block bg + len) = unat (bg_first_free_block bg) + unat len"
    using reserve_first_free [OF ok(1), of len "ex_force e"] assms(3) by (auto simp: bg_def)
  define bg' where "bg' = bg\<lparr>bg_bitmaps := bm, bg_free_blocks := bg_free_blocks bg - len,
      bg_first_free_block := bg_first_free_block bg + len, bg_data_blocks_used := bg_data_blocks_used bg + len\<rparr>"
  have ok': "bg_ok N bg'" using r(2) by (simp add: bg'_def bg_ok_def)
  have fr: "unat (bg_free_blocks bg') = unat (bg_free_blocks bg) - unat len" "unat len \<le> unat (bg_free_blocks bg)" "0 < unat len"
    using assms(3,4) by (simp_all add: bg'_def bg_def unat_sub_le word_le_nat_alt word_less_nat_alt)
  have lt: "unat (bg_first_free_block bg) < N" using ok(1) fr(2,3) by (simp add: bg_ok_def)
  have st: "unat (bg_first_block bg + bg_first_free_block bg) = bg_start bg"
    using ok(2) lt by (simp add: bg_start_def unat_add_u32)
  have nf: "bg_first_block bg + bg_first_free_block bg \<noteq> EXT4_ALLOCATE_FAILED"
  proof
    assume "bg_first_block bg + bg_first_free_block bg = EXT4_ALLOCATE_FAILED"
    then have "bg_start bg = 2 ^ 32 - 1" using st by (simp add: EXT4_ALLOCATE_FAILED_def unsigned_minus_1_eq_mask mask_eq_exp_minus_1)
    then show False using ok(2) lt by (simp add: bg_start_def)
  qed
  have st': "bg_start bg' = bg_start bg + unat len" using r(3) by (simp add: bg_start_def bg'_def)
  have free: "bg_free N bg' = bg_free N bg - {bg_start bg ..< bg_start bg + unat len}"
    "{bg_start bg ..< bg_start bg + unat len} \<subseteq> bg_free N bg"
    using fr(1,2) by (auto simp: bg_free_range ok(1) ok' st')
  have run: "ext4_allocate_blocks_from_block_group e len i = Inr (bg_first_block bg + bg_first_free_block bg, set_bg e i bg')"
    using assms(2) leD [OF assms(3)] r(1)
    by (simp add: ext4_allocate_blocks_from_block_group_def get_free_blocks_def get_bg_def bg_def bg'_def Let_def)
  have fok: "fs_ok N (set_bg e i bg')" using assms(1,2) ok' by (intro fs_ok_set_bg) (simp_all add: bg'_def bg_def)
  have ff: "fs_free N (set_bg e i bg') = fs_free N e - {bg_start bg ..< bg_start bg + unat len}"
    using assms(1,2) free unfolding bg_def by (intro fs_free_set_bg)
  have sub: "{bg_start bg ..< bg_start bg + unat len} \<subseteq> fs_free N e"
    using free(2) assms(2) unfolding fs_free_def bg_def by blast
  have tot: "total_free (set_bg e i bg') + unat len = total_free e"
    using total_free_set_bg [OF assms(2), of bg'] fr by (simp add: bg_def)
  show ?thesis using run st nf fok ff sub tot r(3) by (intro exI conjI) (assumption | simp add: bg'_def)+
qed

section \<open>Best fit\<close>

definition fit_step :: "ext4 \<Rightarrow> u32 \<Rightarrow> nat \<times> u32 \<Rightarrow> nat \<Rightarrow> nat \<times> u32" where
  "fit_step e len = (\<lambda>(g, found) i. let bg_len = bg_free_blocks (ex_bgs e ! i) in
     if better_fit len bg_len found then (i, bg_len) else (g, found))"

text \<open>What the scan knows of the first \<open>n\<close> groups, \<open>f i\<close> blocks free in the \<open>i\<close>-th.\<close>

definition fit_inv :: "(nat \<Rightarrow> u32) \<Rightarrow> u32 \<Rightarrow> nat \<Rightarrow> nat \<times> u32 \<Rightarrow> bool" where
  "fit_inv f len n p \<longleftrightarrow> (snd p \<noteq> 0 \<longrightarrow> fst p < n \<and> f (fst p) = snd p) \<and>
     (len \<le> snd p \<longrightarrow> (\<forall>i < n. len \<le> f i \<longrightarrow> snd p \<le> f i)) \<and> (snd p < len \<longrightarrow> (\<forall>i < n. f i \<le> snd p))"

lemma fit_inv_step:
  assumes "0 < len" "fit_inv f len n (g, found)"
  shows "fit_inv f len (Suc n) (if better_fit len (f n) found then (n, f n) else (g, found))"
proof (cases "better_fit len (f n) found")
  case True
  have "f n \<le> f i" if "len \<le> f n" "i < n" "len \<le> f i" for i
  proof (cases "len \<le> found")
    case True
    then have "found \<le> f i" using assms(2) that by (simp add: fit_inv_def)
    moreover have "f n < found" using \<open>better_fit len (f n) found\<close> True assms(1) by (auto simp: better_fit_def)
    ultimately show ?thesis by simp
  next
    case False
    then have "f i \<le> found" using assms(2) that by (simp add: fit_inv_def)
    then show ?thesis using False that(3) by simp
  qed
  moreover have "f i \<le> f n" if "f n < len" "i < n" for i
  proof -
    have "found < len" "found < f n" using True that by (auto simp: better_fit_def)
    then show ?thesis using assms(2) that(2) by (force simp: fit_inv_def)
  qed
  ultimately show ?thesis using True by (auto simp: fit_inv_def less_Suc_eq)
next
  case False
  have "found \<le> f n" if "len \<le> found" "len \<le> f n" using that False by (auto simp: better_fit_def)
  moreover have "f n \<le> found" if "found < len" using that False by (auto simp: better_fit_def)
  ultimately show ?thesis using False assms(2) by (auto simp: fit_inv_def less_Suc_eq)
qed

lemma best_fit_scan:
  assumes "0 < len"
  shows "fit_inv (\<lambda>i. bg_free_blocks (ex_bgs e ! i)) len n (foldl (fit_step e len) (0, 0) [0..<n])"
proof (induction n)
  case 0
  then show ?case using assms by (simp add: fit_inv_def)
next
  case (Suc n)
  obtain g found where p: "foldl (fit_step e len) (0, 0) [0..<n] = (g, found)" by (rule prod.exhaust)
  have "fit_step e len (g, found) n =
      (if better_fit len (bg_free_blocks (ex_bgs e ! n)) found then (n, bg_free_blocks (ex_bgs e ! n)) else (g, found))"
    by (simp add: fit_step_def Let_def)
  then show ?case using fit_inv_step [OF assms Suc [unfolded p]] by (simp add: p)
qed

lemma best_fit_group_spec:
  assumes "best_fit_group e len = (g, found)" "0 < len"
  shows "found \<noteq> 0 \<Longrightarrow> g < unat (ex_groups e) \<and> bg_free_blocks (ex_bgs e ! g) = found"
    and "len \<le> found \<Longrightarrow> i < unat (ex_groups e) \<Longrightarrow> len \<le> bg_free_blocks (ex_bgs e ! i) \<Longrightarrow>
      found \<le> bg_free_blocks (ex_bgs e ! i)"
    and "found < len \<Longrightarrow> i < unat (ex_groups e) \<Longrightarrow> bg_free_blocks (ex_bgs e ! i) \<le> found"
  using best_fit_scan [OF assms(2), of e "unat (ex_groups e)"] assms(1)
  by (simp_all add: best_fit_group_def fit_step_def [symmetric] fit_inv_def)

lemma no_fit_none_free:
  assumes "fs_ok N e" "best_fit_group e len = (g, 0)" "0 < len"
  shows "total_free e = 0"
proof -
  have "bg_free_blocks (ex_bgs e ! i) = 0" if "i < length (ex_bgs e)" for i
    using best_fit_group_spec(3) [OF assms(2,3) assms(3)] that assms(1) by (simp add: fs_ok_def)
  then show ?thesis by (simp add: total_free_def)
qed

end
