(* ===== verification/Ext4_Init.thy ===== *)
theory Ext4_Init
  imports Ext4_Groups
begin

text \<open>
  The block groups that \<^verbatim>\<open>block_allocator_init\<close> of \<^verbatim>\<open>ext4_utils/allocate.c\<close> sets up: the invariant of the allocator
  holds, and the free blocks are those behind the headers of the groups and within the image.
\<close>

definition group_size :: "ext4 \<Rightarrow> nat" where
  "group_size e = unat (fi_blocks_per_group (ex_info e))"

definition group_first :: "ext4 \<Rightarrow> nat \<Rightarrow> nat" where
  "group_first e i = unat (ex_first_data_block e) + i * group_size e"

text \<open>Two bitmaps and the table of inodes, and with a superblock the superblock and the group descriptors.\<close>

definition group_header :: "ext4 \<Rightarrow> nat \<Rightarrow> nat" where
  "group_header e i = 2 + unat (ex_inode_table_blocks e) +
     (if ext4_bg_has_super_block (ex_info e) (int i) = Inr True
      then 1 + unat (ex_bg_desc_blocks e) + unat (fi_bg_desc_reserve_blocks (ex_info e)) else 0)"

definition group_end :: "ext4 \<Rightarrow> nat \<Rightarrow> nat" where
  "group_end e i = min (group_first e i + group_size e) (unat (ex_len_blocks e))"

text \<open>A bitmap of one block has a bit for every block of a group, headers fit, and block numbers have 32 bits.\<close>

definition geometry_ok :: "ext4 \<Rightarrow> bool" where
  "geometry_ok e \<longleftrightarrow> group_size e \<le> 8 * unat (fi_block_size (ex_info e)) \<and> group_size e + 8 < 2 ^ 32 \<and>
     group_first e (unat (ex_groups e)) < 2 ^ 32 \<and>
     (\<forall>i < unat (ex_groups e). group_first e i + group_header e i \<le> group_end e i)"

section \<open>One group\<close>

definition fresh_bg :: "ext4 \<Rightarrow> nat \<Rightarrow> block_group_info \<Rightarrow> bool" where
  "fresh_bg e i bg \<longleftrightarrow> bg_ok (group_size e) bg \<and> unat (bg_first_block bg) = group_first e i \<and>
     bg_free (group_size e) bg = {group_first e i + group_header e i ..< group_end e i}"

lemma bits_replicate_0 [simp]: "\<not> bits (replicate n 0) k"
  by (auto simp: bits_def nth_append)

lemma reserve_header:
  assumes "bg_bitmaps bg = replicate (2 * bs) 0" "bg_free_blocks bg = n" "bg_first_free_block bg = 0" "num \<le> n"
    "unat n \<le> 8 * bs" "unat n + 8 < 2 ^ 32"
  shows "\<exists>bm. reserve_blocks force bg 0 num =
      Inr (0, bg\<lparr>bg_bitmaps := bm, bg_free_blocks := n - num, bg_first_free_block := num\<rparr>) \<and>
    length bm = 2 * bs \<and> bits bm = (\<lambda>m. m < unat num)"
proof -
  have le: "unat num \<le> unat n" using assms(4) by (simp add: word_le_nat_alt)
  have nl: "\<not> num > bg_free_blocks bg" using assms(2,4) by simp
  have fr: "\<forall>j < unat num. \<not> bits (bg_bitmaps bg) (unat (0 :: u32) + j)" by (simp add: assms(1))
  show ?thesis using reserve_blocks_cases [of 0 num bg force] le assms(5,6) unfolding if_not_P [OF nl] if_P [OF fr]
    by (auto simp: assms(1-3))
qed

text \<open>The blocks beyond the end of the image are reserved at the end of the last group.\<close>

lemma reserve_overrun:
  assumes "bits (bg_bitmaps bg) = (\<lambda>m. m < h)" "length (bg_bitmaps bg) = 2 * bs" "unat n \<le> 8 * bs" "unat n + 8 < 2 ^ 32"
    "unat (bg_first_free_block bg) = h" "unat (bg_free_blocks bg) = unat n - h" "h + unat ov \<le> unat n"
  shows "\<exists>bg'. reserve_blocks force bg (n - ov) ov = Inr (0, bg') \<and> bg_ok (unat n) bg' \<and>
    bg_first_block bg' = bg_first_block bg \<and>
    bg_free (unat n) bg' = {unat (bg_first_block bg) + h ..< unat (bg_first_block bg) + unat n - unat ov}"
proof -
  have st: "unat (n - ov) = unat n - unat ov" using assms(7) by (intro unat_sub_le) (simp add: word_le_nat_alt)
  have nl: "\<not> ov > bg_free_blocks bg" using assms(6,7) by (simp add: word_less_nat_alt)
  have fr: "\<forall>j < unat ov. \<not> bits (bg_bitmaps bg) (unat (n - ov) + j)" using assms(1,7) st by auto
  obtain bm where bm: "reserve_blocks force bg (n - ov) ov = Inr (0, bg\<lparr>bg_bitmaps := bm, bg_free_blocks := bg_free_blocks bg - ov,
      bg_first_free_block := (if n - ov = bg_first_free_block bg then n - ov + ov else bg_first_free_block bg)\<rparr>)"
    "length bm = 2 * bs" "bits bm = (\<lambda>m. unat n - unat ov \<le> m \<and> m < unat n - unat ov + unat ov \<or> m < h)"
    using reserve_blocks_cases [of "n - ov" ov bg force, unfolded if_not_P [OF nl] if_P [OF fr], unfolded st] assms(1-4,7) by auto
  define bg' where "bg' = bg\<lparr>bg_bitmaps := bm, bg_free_blocks := bg_free_blocks bg - ov,
      bg_first_free_block := (if n - ov = bg_first_free_block bg then n - ov + ov else bg_first_free_block bg)\<rparr>"
  have fb: "unat (bg_free_blocks bg') = unat n - h - unat ov"
    using nl assms(6) by (simp add: bg'_def unat_sub_le not_less)
  have eq: "n - ov = bg_first_free_block bg \<longleftrightarrow> h + unat ov = unat n"
  proof -
    have "n - ov = bg_first_free_block bg \<longleftrightarrow> unat (n - ov) = unat (bg_first_free_block bg)" by (simp add: word_unat_eq_iff)
    then show ?thesis unfolding st assms(5) using assms(7) by linarith
  qed
  then have ff: "unat (bg_first_free_block bg') = (if h + unat ov = unat n then unat n else h)"
    using assms(5) by (simp add: bg'_def)
  have bits': "bits (bg_bitmaps bg') = (\<lambda>m. unat n - unat ov \<le> m \<and> m < unat n - unat ov + unat ov \<or> m < h)"
    "length (bg_bitmaps bg') = 2 * bs" using bm(2,3) by (simp_all add: bg'_def)
  have ok: "bg_ok (unat n) bg'" unfolding bg_ok_def bits' fb ff using assms(3,4,7) by auto
  have "bg_free (unat n) bg' = {unat (bg_first_block bg) + h ..< unat (bg_first_block bg) + unat n - unat ov}"
    unfolding bg_free_range [OF ok] using assms(7) by (auto simp: bg_start_def fb ff) (auto simp: bg'_def)
  then show ?thesis using bm(1) ok by (auto simp: bg'_def)
qed

lemma unat_ucast_u64: "unat (ucast (w :: u32) :: u64) = unat w"
proof -
  have "unat w < 2 ^ 64" using unat_less_u32 [of w] by simp
  then show ?thesis by (simp add: unsigned_ucast_eq take_bit_nat_eq_self)
qed

lemma unat_ucast_u32: "unat (w :: u64) < 2 ^ 32 \<Longrightarrow> unat (ucast w :: u32) = unat w"
  by (simp add: unsigned_ucast_eq take_bit_nat_eq_self)

lemma header_group:
  assumes "bits (bg_bitmaps bg) = (\<lambda>m. m < h)" "length (bg_bitmaps bg) = 2 * bs" "n \<le> 8 * bs" "n + 8 < 2 ^ 32"
    "unat (bg_first_free_block bg) = h" "unat (bg_free_blocks bg) = n - h" "h \<le> n"
  shows "bg_ok n bg" "bg_free n bg = {unat (bg_first_block bg) + h ..< unat (bg_first_block bg) + n}"
proof -
  show ok: "bg_ok n bg" using assms by (simp add: bg_ok_def) auto
  show "bg_free n bg = {unat (bg_first_block bg) + h ..< unat (bg_first_block bg) + n}"
    unfolding bg_free_range [OF ok] using assms(5-7) by (simp add: bg_start_def)
qed

lemma group_first_le:
  assumes "i < n"
  shows "group_first e i + group_size e \<le> group_first e n"
proof -
  have "Suc i * group_size e \<le> n * group_size e" using assms by (intro mult_le_mono1) simp
  then show ?thesis by (simp add: group_first_def)
qed

lemma unat_group_first:
  assumes "geometry_ok e" "i < unat (ex_groups e)"
  shows "unat (ex_first_data_block e + word_of_nat i * fi_blocks_per_group (ex_info e)) = group_first e i"
    and "unat (ex_first_data_block e + word_of_nat i * fi_blocks_per_group (ex_info e) + fi_blocks_per_group (ex_info e)) =
      group_first e i + group_size e"
proof -
  have lt: "group_first e i + group_size e < 2 ^ 32"
    using assms group_first_le [OF assms(2), of e] by (simp add: geometry_ok_def)
  have i: "unat (word_of_nat i :: u32) = i" using assms(2) unat_less_u32 [of "ex_groups e"] by (simp add: unat_of_nat_u32)
  have m: "unat (word_of_nat i * fi_blocks_per_group (ex_info e)) = i * group_size e"
    using lt by (simp add: unat_mult_u32 i group_first_def group_size_def)
  show f: "unat (ex_first_data_block e + word_of_nat i * fi_blocks_per_group (ex_info e)) = group_first e i"
    using lt by (simp add: unat_add_u32 m group_first_def)
  show "unat (ex_first_data_block e + word_of_nat i * fi_blocks_per_group (ex_info e) + fi_blocks_per_group (ex_info e)) =
      group_first e i + group_size e"
    using lt f by (subst unat_add_u32) (simp_all add: group_size_def)
qed

lemma unat_group_header:
  assumes "ext4_bg_has_super_block (ex_info e) (int i) = Inr s" "group_header e i < 2 ^ 32"
  shows "unat (2 + ex_inode_table_blocks e + (if s then 1 + ex_bg_desc_blocks e + fi_bg_desc_reserve_blocks (ex_info e) else 0)) =
    group_header e i"
proof -
  have 2: "unat (2 + ex_inode_table_blocks e) = 2 + unat (ex_inode_table_blocks e)"
    using assms(2) by (subst unat_add_u32) (simp_all add: group_header_def)
  show ?thesis
  proof (cases s)
    case True
    have 1: "unat (1 + ex_bg_desc_blocks e) = 1 + unat (ex_bg_desc_blocks e)"
      using assms True by (subst unat_add_u32) (simp_all add: group_header_def)
    have "unat (1 + ex_bg_desc_blocks e + fi_bg_desc_reserve_blocks (ex_info e)) =
        1 + unat (ex_bg_desc_blocks e) + unat (fi_bg_desc_reserve_blocks (ex_info e))"
      using assms True by (subst unat_add_u32) (simp_all add: group_header_def 1)
    then show ?thesis using assms True by (simp add: unat_add_u32 2 group_header_def)
  next
    case False
    then show ?thesis using assms 2 by (simp add: group_header_def)
  qed
qed

lemma init_bg_run:
  assumes "geometry_ok e" "i < unat (ex_groups e)" "length (ex_bgs e) = unat (ex_groups e)"
  shows "\<exists>bg q. init_bg e i = Inr (set_bg (e\<lparr>ex_queue := q\<rparr>) i bg) \<and> fresh_bg e i bg"
proof -
  let ?n = "fi_blocks_per_group (ex_info e)" and ?bs = "unat (fi_block_size (ex_info e))"
  define first where "first = ex_first_data_block e + word_of_nat i * ?n"
  obtain s where s: "ext4_bg_has_super_block (ex_info e) (int i) = Inr s" using has_super_block_cases [of "int i"] by auto
  define h where "h = 2 + ex_inode_table_blocks e + (if s then 1 + ex_bg_desc_blocks e + fi_bg_desc_reserve_blocks (ex_info e) else 0)"
  have g: "group_size e \<le> 8 * ?bs" "group_size e + 8 < 2 ^ 32" "group_first e i + group_header e i \<le> group_end e i"
    using assms(1,2) by (simp_all add: geometry_ok_def)
  have hN: "group_header e i \<le> group_size e" "group_first e i + group_header e i \<le> unat (ex_len_blocks e)"
    using g(3) by (simp_all add: group_end_def)
  have uh: "unat h = group_header e i" unfolding h_def using hN(1) g(2) by (intro unat_group_header [OF s]) simp
  have uf: "unat first = group_first e i" "unat (first + ?n) = group_first e i + group_size e"
    unfolding first_def by (rule unat_group_first [OF assms(1,2)])+
  define bg0 where "bg0 = (ex_bgs e ! i)\<lparr>bg_has_superblock := s, bg_bitmaps := replicate (2 * ?bs) 0,
      bg_header_blocks := h, bg_first_block := first, bg_data_blocks_used := 0, bg_free_blocks := ?n, bg_first_free_block := 0,
      bg_free_inodes := fi_inodes_per_group (ex_info e), bg_first_free_inode := 1, bg_flags := 1\<rparr>"
  have hn: "h \<le> ?n" using uh hN(1) by (simp add: word_le_nat_alt group_size_def)
  then obtain bm where bm: "reserve_blocks (ex_force e) bg0 0 h =
      Inr (0, bg0\<lparr>bg_bitmaps := bm, bg_free_blocks := ?n - h, bg_first_free_block := h\<rparr>)" "length bm = 2 * ?bs" "bits bm = (\<lambda>m. m < unat h)"
    using reserve_header [of bg0 ?bs ?n h "ex_force e"] g(1,2) by (auto simp: bg0_def group_size_def)
  define bg1 where "bg1 = bg0\<lparr>bg_bitmaps := bm, bg_free_blocks := ?n - h, bg_first_free_block := h\<rparr>"
  define q where "q = ex_queue e @ [(Bitmaps i, 2 * fi_block_size (ex_info e),
      if s then first + (1 + ex_bg_desc_blocks e + fi_bg_desc_reserve_blocks (ex_info e)) else first)]"
  have run: "init_bg e i = (if ucast (first + ?n) > ex_len_blocks e
      then let overrun = ucast (ucast (first + ?n) - ex_len_blocks e) in
        bindR (reserve_blocks (ex_force e) bg1 (?n - overrun) overrun) (\<lambda>(r, bg). Inr (set_bg (e\<lparr>ex_queue := q\<rparr>) i bg))
      else Inr (set_bg (e\<lparr>ex_queue := q\<rparr>) i bg1))"
    using assms(2,3) bm(1) s
    by (simp add: init_bg_def get_bg_def Let_def bg1_def bg0_def h_def q_def first_def set_bg_def)
  have b1: "bits (bg_bitmaps bg1) = (\<lambda>m. m < group_header e i)" "length (bg_bitmaps bg1) = 2 * ?bs"
    "unat (bg_first_free_block bg1) = group_header e i" "unat (bg_free_blocks bg1) = group_size e - group_header e i"
    "unat (bg_first_block bg1) = group_first e i"
    using bm(2,3) uh uf(1) unat_sub_le [OF hn] by (simp_all add: bg1_def bg0_def group_size_def)
  have u64: "unat (ucast (first + ?n) :: u64) = group_first e i + group_size e" using uf(2) by (simp only: unat_ucast_u64)
  show ?thesis
  proof (cases "ucast (first + ?n) > ex_len_blocks e")
    case False
    then have "group_end e i = group_first e i + group_size e" using u64 by (simp add: group_end_def word_less_nat_alt)
    then have "fresh_bg e i bg1" using header_group [OF b1(1,2) g(1,2) b1(3,4) hN(1)] b1(5) by (simp add: fresh_bg_def)
    then show ?thesis using run False by auto
  next
    case True
    define ov where "ov = (ucast (ucast (first + ?n) - ex_len_blocks e) :: u32)"
    have lt: "unat (ex_len_blocks e) < group_first e i + group_size e" using True u64 by (simp add: word_less_nat_alt)
    have "unat (ucast (first + ?n) - ex_len_blocks e) = group_first e i + group_size e - unat (ex_len_blocks e)"
      using True u64 by (simp add: unat_sub less_imp_le)
    then have uov: "unat ov = group_first e i + group_size e - unat (ex_len_blocks e)"
      unfolding ov_def using uf(2) unat_less_u32 [of "first + ?n"] by (subst unat_ucast_u32) simp_all
    have le: "group_header e i + unat ov \<le> group_size e" using uov lt hN by linarith
    obtain bg' where bg': "reserve_blocks (ex_force e) bg1 (?n - ov) ov = Inr (0, bg')" "bg_ok (group_size e) bg'"
      "bg_first_block bg' = bg_first_block bg1"
      "bg_free (group_size e) bg' = {group_first e i + group_header e i ..< group_first e i + group_size e - unat ov}"
      using reserve_overrun [OF b1(1,2), of ?n ov "ex_force e"] g(1,2) b1(3-5) le by (auto simp: group_size_def)
    have "group_first e i + group_size e - unat ov = group_end e i" using uov lt by (simp add: group_end_def)
    then have "fresh_bg e i bg'" using bg' b1(5) by (simp add: fresh_bg_def)
    then show ?thesis using run True bg'(1) by (auto simp: ov_def [symmetric] Let_def)
  qed
qed

section \<open>All groups\<close>

text \<open>What the groups take from the state: everything but the groups themselves and the queue of buffers.\<close>

definition same_geometry :: "ext4 \<Rightarrow> ext4 \<Rightarrow> bool" where
  "same_geometry e e' \<longleftrightarrow> ex_info e' = ex_info e \<and> ex_force e' = ex_force e \<and> ex_first_data_block e' = ex_first_data_block e \<and>
     ex_len_blocks e' = ex_len_blocks e \<and> ex_inode_table_blocks e' = ex_inode_table_blocks e \<and> ex_groups e' = ex_groups e \<and>
     ex_bg_desc_blocks e' = ex_bg_desc_blocks e"

lemma same_geometry_simps:
  assumes "same_geometry e e'"
  shows "group_size e' = group_size e" "group_first e' = group_first e" "group_header e' = group_header e"
    "group_end e' = group_end e" "geometry_ok e' = geometry_ok e" "fresh_bg e' = fresh_bg e" "ex_groups e' = ex_groups e"
proof -
  show s: "group_size e' = group_size e" using assms by (simp add: same_geometry_def group_size_def)
  show f: "group_first e' = group_first e" using assms s by (simp add: same_geometry_def group_first_def fun_eq_iff)
  show h: "group_header e' = group_header e" using assms by (simp add: same_geometry_def group_header_def fun_eq_iff)
  show n: "group_end e' = group_end e" using assms s f by (simp add: same_geometry_def group_end_def fun_eq_iff)
  show g: "ex_groups e' = ex_groups e" using assms by (simp add: same_geometry_def)
  show "geometry_ok e' = geometry_ok e" using assms by (simp add: geometry_ok_def s f h n g) (simp add: same_geometry_def)
  show "fresh_bg e' = fresh_bg e" by (simp add: fresh_bg_def s f h n fun_eq_iff)
qed

lemma init_groups_run:
  assumes "geometry_ok e" "length (ex_bgs e) = unat (ex_groups e)" "n \<le> unat (ex_groups e)"
  shows "\<exists>e'. init_groups n e = Inr e' \<and> same_geometry e e' \<and> length (ex_bgs e') = unat (ex_groups e) \<and>
    (\<forall>i < n. fresh_bg e i (ex_bgs e' ! i))"
  using assms(3)
proof (induction n)
  case 0
  then show ?case using assms(2) by (simp add: same_geometry_def)
next
  case (Suc n)
  then obtain e1 where e1: "init_groups n e = Inr e1" "same_geometry e e1" "length (ex_bgs e1) = unat (ex_groups e)"
    "\<forall>i < n. fresh_bg e i (ex_bgs e1 ! i)" by auto
  note sg = same_geometry_simps [OF e1(2)]
  obtain bg q where b: "init_bg e1 n = Inr (set_bg (e1\<lparr>ex_queue := q\<rparr>) n bg)" "fresh_bg e1 n bg"
    using init_bg_run [of e1 n] assms(1) Suc.prems e1(3) by (auto simp: sg)
  have "same_geometry e (set_bg (e1\<lparr>ex_queue := q\<rparr>) n bg)" using e1(2) by (simp add: same_geometry_def set_bg_def)
  moreover have "\<forall>i < Suc n. fresh_bg e i (ex_bgs (set_bg (e1\<lparr>ex_queue := q\<rparr>) n bg) ! i)"
    using e1(3,4) b(2) Suc.prems by (auto simp: set_bg_def sg less_Suc_eq nth_list_update)
  ultimately show ?case using e1(1,3) b(1) by (simp add: set_bg_def)
qed

lemma fresh_groups:
  assumes "geometry_ok e" "same_geometry e e'" "length (ex_bgs e') = unat (ex_groups e)"
    "\<forall>i < unat (ex_groups e). fresh_bg e i (ex_bgs e' ! i)"
  shows "fs_ok (group_size e) e'"
    and "fs_free (group_size e) e' = (\<Union>i < unat (ex_groups e). {group_first e i + group_header e i ..< group_end e i})"
proof -
  have first: "unat (bg_first_block (ex_bgs e' ! i)) = group_first e i" "bg_ok (group_size e) (ex_bgs e' ! i)"
    "group_first e i + group_size e < 2 ^ 32" if "i < unat (ex_groups e)" for i
    using assms(1,4) that group_first_le [OF that, of e] by (auto simp: fresh_bg_def geometry_ok_def)
  have "group_first e i + group_size e \<le> group_first e j" if "i < j" for i j by (rule group_first_le [OF that])
  then show "fs_ok (group_size e) e'"
    using assms(2,3) first by (auto simp: fs_ok_def same_geometry_def)
  show "fs_free (group_size e) e' = (\<Union>i < unat (ex_groups e). {group_first e i + group_header e i ..< group_end e i})"
    unfolding fs_free_def assms(3) using assms(4) by (intro SUP_cong) (auto simp: fresh_bg_def)
qed

lemma block_allocator_init_run:
  assumes "geometry_ok e"
  shows "\<exists>e'. block_allocator_init e = Inr e' \<and> same_geometry e e' \<and> fs_ok (group_size e) e' \<and>
    fs_free (group_size e) e' = (\<Union>i < unat (ex_groups e). {group_first e i + group_header e i ..< group_end e i})"
proof -
  let ?e = "e\<lparr>ex_bgs := replicate (unat (ex_groups e)) zero_bg\<rparr>"
  have sg: "same_geometry e ?e" by (simp add: same_geometry_def)
  note sgs = same_geometry_simps [OF sg]
  obtain e' where e': "init_groups (unat (ex_groups e)) ?e = Inr e'" "same_geometry ?e e'" "length (ex_bgs e') = unat (ex_groups e)"
    "\<forall>i < unat (ex_groups e). fresh_bg e i (ex_bgs e' ! i)"
    using init_groups_run [of ?e "unat (ex_groups e)"] assms by (auto simp: sgs)
  have "same_geometry e e'" using e'(2) by (simp add: same_geometry_def)
  then show ?thesis using fresh_groups [OF assms _ e'(3,4)] e'(1) by (simp add: block_allocator_init_def)
qed

text \<open>
  C10. For a geometry in which the headers of the groups fit, \<^verbatim>\<open>block_allocator_init\<close> reports no error and builds
  groups that satisfy the invariant of the allocator.  The free blocks are exactly those of each group from the
  end of its header to its end or the end of the image, whichever comes first.
\<close>

theorem block_allocator_init_exact:
  assumes "geometry_ok e"
  shows "\<exists>e'. block_allocator_init e = Inr e' \<and> fs_ok (group_size e) e' \<and>
    fs_free (group_size e) e' = (\<Union>i < unat (ex_groups e). {group_first e i + group_header e i ..< group_end e i})"
  using block_allocator_init_run [OF assms] by blast

text \<open>Two groups of 32 blocks of 1024 bytes with a table of two blocks of inodes, of an image of 60 blocks.\<close>

definition demo_geometry :: ext4 where
  "demo_geometry = \<lparr>ex_info = \<lparr>fi_len = 61440, fi_block_size = 1024, fi_blocks_per_group = 32, fi_inodes_per_group = 8, fi_inode_size = 256,
      fi_feat_ro_compat = 1, fi_bg_desc_reserve_blocks = 3\<rparr>,
    ex_force = False, ex_first_data_block = 1, ex_len_blocks = 60, ex_inode_table_blocks = 2, ex_groups = 2, ex_bg_desc_blocks = 1,
    ex_bgs = [], ex_queue = []\<rparr>"

lemma demo_geometry_header: "group_header demo_geometry 0 = 9" "group_header demo_geometry 1 = 9"
proof -
  have "ext4_bg_has_super_block (ex_info demo_geometry) 0 = Inr True" "ext4_bg_has_super_block (ex_info demo_geometry) 1 = Inr True"
    by code_simp+
  then show "group_header demo_geometry 0 = 9" "group_header demo_geometry 1 = 9"
    by (simp_all add: group_header_def) (simp_all add: demo_geometry_def)
qed

lemma demo_geometry_simps:
  "unat (ex_groups demo_geometry) = 2" "group_size demo_geometry = 32" "unat (fi_block_size (ex_info demo_geometry)) = 1024"
  "group_first demo_geometry i = 1 + i * 32" "group_end demo_geometry i = min (1 + i * 32 + 32) 60"
  by (simp_all add: demo_geometry_def group_size_def group_first_def group_end_def)

lemma demo_geometry_ok: "geometry_ok demo_geometry"
  by (auto simp: geometry_ok_def demo_geometry_simps demo_geometry_header demo_geometry_header(2) [simplified] less_2_cases_iff)

theorem block_allocator_init_exact_witness:
  "\<exists>e'. block_allocator_init demo_geometry = Inr e' \<and> fs_free 32 e' = {10 ..< 33} \<union> {42 ..< 60}"
proof -
  have g: "{..< 2 :: nat} = {0, 1}" by auto
  obtain e' where "block_allocator_init demo_geometry = Inr e'"
    "fs_free 32 e' = (\<Union>i < 2. {1 + i * 32 + group_header demo_geometry i ..< min (1 + i * 32 + 32) 60})"
    using block_allocator_init_exact [OF demo_geometry_ok] unfolding demo_geometry_simps by blast
  then show ?thesis unfolding g by (simp add: demo_geometry_header demo_geometry_header(2) [simplified])
qed

end
