(* ===== verification/Ext4_Layout.thy ===== *)
theory Ext4_Layout
  imports Ext4_Init
begin

text \<open>
  The parameters of a new file system: the \<^verbatim>\<open>compute_\<close> functions of \<^verbatim>\<open>ext4_utils/make_ext4fs.c\<close> and the part of
  \<^verbatim>\<open>make_ext4fs_internal\<close> that fills in \<^verbatim>\<open>info\<close>, up to the start of the allocator.  Lengths are positive where the
  code divides them, so signed division is \<^term>\<open>(div)\<close>.
\<close>

section \<open>Parameters\<close>

text \<open>\<^verbatim>\<open>struct fs_info\<close>: what the allocator reads of it, and the other numbers.\<close>

record fs_opts =
  fo_info :: fs_info
  fo_inodes :: u32
  fo_journal_blocks :: u32
  fo_feat_compat :: u16
  fo_feat_incompat :: u16
  fo_no_journal :: bool

text \<open>\<^verbatim>\<open>DIV_ROUND_UP\<close> and \<^verbatim>\<open>EXT4_ALIGN\<close> at 32 bits.\<close>

definition DIV_ROUND_UP :: "'a::len word \<Rightarrow> 'a word \<Rightarrow> 'a word res" where
  "DIV_ROUND_UP x y = bindR (assertR (y \<noteq> 0) DivByZero) (\<lambda>_. Inr ((x + y - 1) div y))"

definition EXT4_ALIGN :: "'a::len word \<Rightarrow> 'a word \<Rightarrow> 'a word res" where
  "EXT4_ALIGN x y = bindR (DIV_ROUND_UP x y) (\<lambda>n. Inr (y * n))"

text \<open>\<^verbatim>\<open>DIV_ROUND_UP(info.len, info.block_size)\<close>, of which the first operand is signed and has 64 bits.\<close>

definition len_round_up :: "fs_info \<Rightarrow> int res" where
  "len_round_up info = bindR (assertR (fi_block_size info \<noteq> 0) DivByZero) (\<lambda>_.
     Inr ((fi_len info + uint (fi_block_size info) - 1) div uint (fi_block_size info)))"

definition compute_block_size :: u32 where
  "compute_block_size = 4096"

definition compute_journal_blocks :: "fs_info \<Rightarrow> u32 res" where
  "compute_journal_blocks info = bindR (len_round_up info) (\<lambda>n.
    let journal_blocks = word_of_int (n div 64);
        journal_blocks = (if journal_blocks < 1024 then 1024 else journal_blocks)
    in Inr (if journal_blocks > 32768 then 32768 else journal_blocks))"

definition compute_blocks_per_group :: "fs_info \<Rightarrow> u32" where
  "compute_blocks_per_group info = fi_block_size info * 8"

definition compute_inodes :: "fs_info \<Rightarrow> u32 res" where
  "compute_inodes info = bindR (len_round_up info) (\<lambda>n. Inr (word_of_int (n div 4)))"

text \<open>The inodes of a group, and all of them.\<close>

definition compute_inodes_per_group :: "fs_info \<Rightarrow> u32 \<Rightarrow> (u32 \<times> u32) res" where
  "compute_inodes_per_group info info_inodes = bindR (len_round_up info) (\<lambda>n.
    bindR (DIV_ROUND_UP (word_of_int n) (fi_blocks_per_group info)) (\<lambda>block_groups.
    bindR (DIV_ROUND_UP info_inodes block_groups) (\<lambda>inodes.
    bindR (assertR (fi_inode_size info \<noteq> 0) DivByZero) (\<lambda>_.
    bindR (EXT4_ALIGN inodes (fi_block_size info div fi_inode_size info)) (\<lambda>inodes.
      Inr (inodes, inodes * block_groups))))))"

definition compute_bg_desc_reserve_blocks :: "fs_info \<Rightarrow> u32 res" where
  "compute_bg_desc_reserve_blocks info = bindR (len_round_up info) (\<lambda>n.
    bindR (DIV_ROUND_UP (word_of_int n) (fi_blocks_per_group info)) (\<lambda>block_groups.
    bindR (DIV_ROUND_UP (ucast block_groups * 32) (ucast (fi_block_size info) :: u64)) (\<lambda>d.
    bindR (DIV_ROUND_UP (ucast (block_groups * 1024) * 32) (ucast (fi_block_size info) :: u64)) (\<lambda>r.
    let bg_desc_reserve_blocks = ucast (r - ucast (ucast d :: u32)) :: u32 in
    Inr (if bg_desc_reserve_blocks > fi_block_size info div 4 then fi_block_size info div 4 else bg_desc_reserve_blocks)))))"

text \<open>
  \<^verbatim>\<open>make_ext4fs_internal\<close> up to \<^verbatim>\<open>ext4_create_fs_aux_info\<close>; \<open>file_size\<close> is what \<^verbatim>\<open>get_file_size\<close> returns, and \<^term>\<open>None\<close> is
  the failure for want of a size.
\<close>

definition ext4fs_parameters :: "int \<Rightarrow> fs_opts \<Rightarrow> fs_opts option res" where
  "ext4fs_parameters file_size opts =
    (let info = fo_info opts; info = (if fi_len info \<le> 0 then info\<lparr>fi_len := file_size\<rparr> else info) in
     if fi_len info \<le> 0 then Inr None
     else
       let info = (if fi_block_size info = 0 then info\<lparr>fi_block_size := compute_block_size\<rparr> else info);
           info = info\<lparr>fi_len := sint ((word_of_int (fi_len info) :: u64) AND NOT (ucast (fi_block_size info) - 1))\<rparr>
       in
       bindR (if fo_journal_blocks opts = 0 then compute_journal_blocks info else Inr (fo_journal_blocks opts)) (\<lambda>journal_blocks.
       let feat_compat = (if fo_no_journal opts then fo_feat_compat opts else 4);
           journal_blocks = (if fo_no_journal opts then 0 else journal_blocks);
           info = (if fi_blocks_per_group info = 0 then info\<lparr>fi_blocks_per_group := compute_blocks_per_group info\<rparr> else info)
       in
       bindR (if fo_inodes opts = 0 then compute_inodes info else Inr (fo_inodes opts)) (\<lambda>inodes.
       let info = (if fi_inode_size info = 0 then info\<lparr>fi_inode_size := 256\<rparr> else info) in
       bindR (compute_inodes_per_group info inodes) (\<lambda>(ipg, inodes).
       let info = info\<lparr>fi_inodes_per_group := ipg, fi_feat_ro_compat := fi_feat_ro_compat info OR (1 OR 2 OR 0x10)\<rparr> in
       bindR (compute_bg_desc_reserve_blocks info) (\<lambda>reserve.
         Inr (Some \<lparr>fo_info = info\<lparr>fi_bg_desc_reserve_blocks := reserve\<rparr>, fo_inodes = inodes, fo_journal_blocks = journal_blocks,
           fo_feat_compat = feat_compat OR (0x10 OR 8), fo_feat_incompat = fo_feat_incompat opts OR (0x40 OR 2),
           fo_no_journal = fo_no_journal opts\<rparr>))))))"

text \<open>The parameters, what follows from them, and the allocator over them.\<close>

definition ext4fs_layout :: "int \<Rightarrow> fs_opts \<Rightarrow> (fs_opts \<times> ext4) option res" where
  "ext4fs_layout file_size opts = bindR (ext4fs_parameters file_size opts) (\<lambda>opts.
    case opts of None \<Rightarrow> Inr None
    | Some opts \<Rightarrow>
      bindR (ext4_create_fs_aux_info \<lparr>ex_info = fo_info opts, ex_force = False, ex_first_data_block = 0, ex_len_blocks = 0,
        ex_inode_table_blocks = 0, ex_groups = 0, ex_bg_desc_blocks = 0, ex_bgs = [], ex_queue = []\<rparr>) (\<lambda>e.
      bindR (block_allocator_init e) (\<lambda>e. Inr (Some (opts, e)))))"

section \<open>Rounding up\<close>

lemma unat_round_up:
  fixes x y :: "'a::len word"
  assumes "0 < unat y" "unat x + unat y < 2 ^ LENGTH('a)"
  shows "unat ((x + y - 1) div y) = (unat x + unat y - 1) div unat y"
proof -
  have s: "unat (x + y) = unat x + unat y" using assms(2) by (simp add: unat_add_lem [THEN iffD1])
  then have "1 \<le> x + y" using assms(1) by (simp add: word_le_nat_alt)
  then have "unat (x + y - 1) = unat x + unat y - 1" by (simp add: unat_sub s)
  then show ?thesis by (simp add: unat_div)
qed

lemma DIV_ROUND_UP_run:
  assumes "0 < unat y" "unat x + unat y < 2 ^ LENGTH('a)"
  shows "\<exists>z. DIV_ROUND_UP (x :: 'a::len word) y = Inr z \<and> unat z = (unat x + unat y - 1) div unat y"
proof -
  have "y \<noteq> 0" using assms(1) by auto
  then show ?thesis using unat_round_up [OF assms] by (simp add: DIV_ROUND_UP_def)
qed

section \<open>What follows from the parameters\<close>

definition round_up_div :: "nat \<Rightarrow> nat \<Rightarrow> nat" where
  "round_up_div x y = (x + y - 1) div y"

lemma round_up_div_cases:
  assumes "0 < N"
  shows "round_up_div B N = (if B mod N = 0 then B div N else Suc (B div N))"
proof -
  have B: "B = B div N * N + B mod N" by simp
  show ?thesis
  proof (cases "B mod N = 0")
    case True
    then have "B + N - 1 = (N - 1) + B div N * N" using B assms by simp
    then have "round_up_div B N = B div N + (N - 1) div N"
      unfolding round_up_div_def using assms by (simp only: div_mult_self1 [OF less_imp_neq [symmetric]])
    then show ?thesis using True assms by simp
  next
    case False
    then have "B + N - 1 = (B mod N - 1) + Suc (B div N) * N" using B assms by simp
    then have "round_up_div B N = Suc (B div N) + (B mod N - 1) div N"
      unfolding round_up_div_def using assms by (simp only: div_mult_self1 [OF less_imp_neq [symmetric]])
    moreover have "(B mod N - 1) div N = 0" using assms by (simp add: less_imp_diff_less)
    ultimately show ?thesis using False by simp
  qed
qed

lemma round_up_div_le: "0 < y \<Longrightarrow> x \<le> k * y \<Longrightarrow> round_up_div x y \<le> k"
  by (auto simp: round_up_div_cases Suc_le_eq less_mult_imp_div_less div_le_mono dest: div_le_mono [of _ _ y])
    (metis div_mult_mod_eq less_mult_imp_div_less mod_mult_self2_is_0 mult.commute nat_less_le)

lemma last_group:
  assumes "0 < N" "0 < B"
  shows "0 < round_up_div B N" "(round_up_div B N - 1) * N < B" "B \<le> round_up_div B N * N"
    "B mod N \<noteq> 0 \<Longrightarrow> B = (round_up_div B N - 1) * N + B mod N" "B mod N = 0 \<Longrightarrow> B = round_up_div B N * N"
proof -
  have B: "B = B div N * N + B mod N" by simp
  show "0 < round_up_div B N" using assms B by (cases "B div N") (auto simp: round_up_div_cases)
  show "B mod N \<noteq> 0 \<Longrightarrow> B = (round_up_div B N - 1) * N + B mod N" "B mod N = 0 \<Longrightarrow> B = round_up_div B N * N"
    using assms(1) by (auto simp: round_up_div_cases)
  show "(round_up_div B N - 1) * N < B"
    using assms B by (cases "B mod N = 0"; cases "B div N") (auto simp: round_up_div_cases)
  have "B \<le> N + B div N * N" using mod_less_divisor [OF assms(1), of B] B by linarith
  then show "B \<le> round_up_div B N * N" using assms(1) B by (auto simp: round_up_div_cases)
qed

text \<open>The numbers of blocks, groups and descriptor blocks, free of wrap-around.\<close>

lemma aux_info_numbers:
  fixes bs bpg :: u32 and len :: int
  defines "L \<equiv> word_of_int (len div uint bs) :: u64" and "B \<equiv> nat len div unat bs" and "N \<equiv> unat bpg"
  defines "g \<equiv> ucast ((L - ucast (0 :: u32) + ucast bpg - 1) div ucast bpg) :: u32"
  assumes "32 \<le> unat bs" "0 \<le> len" "0 < B" "B + N + 8 < 2 ^ 32" "0 < N"
  shows "unat L = B" "unat g = round_up_div B N" "unat (ucast (L mod ucast bpg) :: u32) = B mod N"
    "unat (ucast ((ucast g * 32 + ucast bs - 1) div ucast bs :: u64) :: u32) = round_up_div (round_up_div B N * 32) (unat bs)"
proof -
  have "len div uint bs = int B" using assms(6) unfolding B_def by (simp add: zdiv_int)
  then show L: "unat L = B" using assms(8) by (simp add: L_def unat_of_nat)
  have G: "round_up_div B N \<le> B" using assms(7,9) last_group(2) [of N B] 
    by (intro round_up_div_le) simp_all
  have "unat ((L + ucast bpg - 1) div ucast bpg) = round_up_div B N"
    using assms(8,9) by (subst unat_round_up) (simp_all add: L unat_ucast_u64 round_up_div_def N_def)
  then show g: "unat g = round_up_div B N" using G assms(8) by (simp add: g_def unat_ucast_u32)
  have "unat (L mod ucast bpg) = B mod N" by (simp add: unat_mod L unat_ucast_u64 N_def)
  then show "unat (ucast (L mod ucast bpg) :: u32) = B mod N"
    using mod_less_eq_dividend [of B N] assms(8) unat_ucast_u32 [of "L mod ucast bpg"] by linarith
  have m: "unat (ucast g * 32 :: u64) = round_up_div B N * 32"
    using G assms(8) g unat_ucast_u64 [of g] by (subst unat_mult_lem [THEN iffD1]) simp_all
  have "unat ((ucast g * 32 + ucast bs - 1) div ucast bs :: u64) = round_up_div (round_up_div B N * 32) (unat bs)"
    using m G assms(5,8) unat_less_u32 [of bs] by (subst unat_round_up) (simp_all add: unat_ucast_u64 round_up_div_def)
  moreover have "round_up_div (round_up_div B N * 32) (unat bs) \<le> round_up_div B N"
    using assms(5) by (intro round_up_div_le) simp_all
  ultimately show "unat (ucast ((ucast g * 32 + ucast bs - 1) div ucast bs :: u64) :: u32) = round_up_div (round_up_div B N * 32) (unat bs)"
    using G assms(8) by (simp add: unat_ucast_u32)
qed

text \<open>All groups but the last are whole; the last is left out when its header does not fit.\<close>

lemma geometry_from_parts:
  assumes "group_size e = N" "0 < N" "N \<le> 8 * unat (fi_block_size (ex_info e))" "N + 8 < 2 ^ 32" "G * N < 2 ^ 32" "0 < G"
    "ex_first_data_block e = 0" "\<And>i. group_header e i \<le> N" "group_header e (G - 1) = h"
    "(G - 1) * N < B" "B mod N \<noteq> 0 \<Longrightarrow> B = (G - 1) * N + B mod N" "B mod N = 0 \<Longrightarrow> B = G * N"
    "unat (ex_groups e) = (if 0 < B mod N \<and> B mod N < h then G - 1 else G)"
    "unat (ex_len_blocks e) = (if 0 < B mod N \<and> B mod N < h then B - B mod N else B)"
  shows "geometry_ok e \<and> unat (ex_len_blocks e) \<le> B"
proof -
  have whole: "group_first e i + group_header e i \<le> min (group_first e i + N) ((G - 1) * N)" if i: "i < G - 1" for i
  proof -
    have "Suc i * N \<le> (G - 1) * N" using i by (intro mult_le_mono1) simp
    then show ?thesis using assms(1,7,8) by (simp add: group_first_def)
  qed
  have le: "unat (ex_groups e) \<le> G" "unat (ex_len_blocks e) \<le> B" using assms(13,14) by simp_all
  have "unat (ex_groups e) * N \<le> G * N" using le(1) by (rule mult_le_mono1)
  then have "unat (ex_groups e) * N < 2 ^ 32" using assms(5) by (rule le_less_trans)
  then have first: "group_first e (unat (ex_groups e)) < 2 ^ 32" using assms(1,7) by (simp add: group_first_def)
  have "group_first e i + group_header e i \<le> group_end e i" if i: "i < unat (ex_groups e)" for i
  proof (cases "i < G - 1")
    case True
    have "(G - 1) * N \<le> unat (ex_len_blocks e)" using assms(10,11,14) by (auto split: if_splits)
    then show ?thesis using whole [OF True] assms(1) by (simp add: group_end_def)
  next
    case False
    then have G: "i = G - 1" "\<not> (0 < B mod N \<and> B mod N < h)" using i assms(13) by (auto split: if_splits)
    have "(G - 1) * N + N = G * N" using assms(6) by (cases G) simp_all
    then have "(G - 1) * N + h \<le> B" using G(2) assms(8) [of "G - 1"] assms(9,11,12) by (cases "B mod N = 0") auto
    moreover have "unat (ex_len_blocks e) = B" using G(2) assms(14) by (simp only: if_False)
    moreover have "h \<le> N" using assms(8) [of "G - 1"] assms(9) by simp
    ultimately show ?thesis using G(1) assms(1,7,9) by (simp add: group_first_def group_end_def)
  qed
  then show ?thesis using assms(1,3,4) first le(2) by (simp add: geometry_ok_def)
qed

lemma aux_info_geometry:
  fixes e :: ext4
  defines "bs \<equiv> fi_block_size (ex_info e)" and "N \<equiv> unat (fi_blocks_per_group (ex_info e))"
    and "t \<equiv> unat ((fi_inodes_per_group (ex_info e) * fi_inode_size (ex_info e) + fi_block_size (ex_info e) - 1) div fi_block_size (ex_info e))"
    and "B \<equiv> nat (fi_len (ex_info e)) div unat (fi_block_size (ex_info e))"
  assumes "1024 < bs" "0 \<le> fi_len (ex_info e)" "0 < B" "B + N + 8 < 2 ^ 32" "N \<le> 8 * unat bs"
    "3 + t + round_up_div (round_up_div B N * 32) (unat bs) + unat (fi_bg_desc_reserve_blocks (ex_info e)) \<le> N"
  shows "\<exists>e'. ext4_create_fs_aux_info e = Inr e' \<and> geometry_ok e' \<and> ex_info e' = ex_info e \<and> unat (ex_len_blocks e') \<le> B"
proof -
  let ?info = "ex_info e"
  have N: "0 < N" using assms(10) by simp
  have b0: "32 \<le> unat bs" using assms(5) by (simp add: word_less_nat_alt)
  define L where "L = (word_of_int (fi_len ?info div uint bs) :: u64)"
  define g where "g = (ucast ((L - ucast (0 :: u32) + ucast (fi_blocks_per_group ?info) - 1) div ucast (fi_blocks_per_group ?info)) :: u32)"
  define d where "d = (ucast ((ucast g * 32 + ucast bs - 1) div ucast bs :: u64) :: u32)"
  define l where "l = (ucast (L mod ucast (fi_blocks_per_group ?info)) :: u32)"
  define G where "G = round_up_div B N"
  have num: "unat L = B" "unat g = G" "unat l = B mod N" "unat d = round_up_div (G * 32) (unat bs)"
    using aux_info_numbers [of bs "fi_len ?info" "fi_blocks_per_group ?info"] b0 assms(6-8) N
    by (simp_all add: L_def g_def d_def l_def G_def bs_def N_def B_def)
  define tb where "tb = (fi_inodes_per_group ?info * fi_inode_size ?info + bs - 1) div bs"
  have t: "unat tb = t" by (simp add: tb_def t_def bs_def)
  note lg = last_group [OF N assms(7), folded G_def]
  have "(G - 1) * 3 \<le> (G - 1) * N" using assms(10) by (intro mult_le_mono2) simp
  then have "(G - 1) * 3 < B" using lg(2) by (rule le_less_trans)
  then have G: "G - 1 < 2 ^ 31" using assms(8) by simp
  have g1: "unat (g - 1) = G - 1" using lg(1) by (simp add: unat_sub_le word_le_nat_alt num(2))
  then have "sint (g - 1) = int (G - 1)" using G by (simp add: sint_small_u32)
  then have super: "ext4_bg_has_super_block ?info (sint (g - 1)) = ext4_bg_has_super_block ?info (int (G - 1))" by simp
  obtain S where S: "ext4_bg_has_super_block ?info (int (G - 1)) = Inr S" using has_super_block_cases [of "int (G - 1)" ?info] by simp
  define h where "h = (if S then 2 + tb + (1 + d + fi_bg_desc_reserve_blocks ?info) else 2 + tb)"
  have h: "unat h = 2 + t + (if S then 1 + round_up_div (G * 32) (unat bs) + unat (fi_bg_desc_reserve_blocks ?info) else 0)"
    using assms(8,10) t num(4) unfolding G_def [symmetric] by (simp add: h_def unat_add_u32)
  let ?short = "l > 0 \<and> l < h"
  let ?e = "e\<lparr>ex_first_data_block := 0, ex_len_blocks := (if ?short then L - ucast l else L), ex_inode_table_blocks := tb,
               ex_groups := (if ?short then g - 1 else g), ex_bg_desc_blocks := d\<rparr>"
  have nz: "bs \<noteq> 0 \<and> fi_blocks_per_group ?info \<noteq> 0" "\<not> fi_len ?info < 0" using b0 N assms(6) by (auto simp: N_def)
  have "ext4_create_fs_aux_info e = Inr ?e"
    unfolding ext4_create_fs_aux_info_def Let_def bs_def [symmetric] if_P [OF assms(5)] if_not_P [OF nz(2)]
      L_def [symmetric] g_def [symmetric] l_def [symmetric] tb_def [symmetric] d_def [symmetric] super S
    using nz(1) by (simp add: h_def)
  moreover have "geometry_ok ?e \<and> unat (ex_len_blocks ?e) \<le> B"
  proof (rule geometry_from_parts [where N = N and G = G and h = "unat h"])
    show "group_size ?e = N" "N \<le> 8 * unat (fi_block_size (ex_info ?e))" "N + 8 < 2 ^ 32"
      using assms(7-9) by (simp_all add: group_size_def N_def bs_def)
    show "ex_first_data_block ?e = 0" by simp
    have "(G - 1) * N + N = G * N" using lg(1) by (cases G) simp_all
    then show "G * N < 2 ^ 32" using lg(2) assms(8) by linarith
    have hd: "group_header ?e i = 2 + t + (if ext4_bg_has_super_block ?info (int i) = Inr True
        then 1 + round_up_div (G * 32) (unat bs) + unat (fi_bg_desc_reserve_blocks ?info) else 0)" for i
      by (simp add: group_header_def t num(4))
    show "group_header ?e i \<le> N" for i unfolding hd using assms(10) by (simp add: G_def)
    show "group_header ?e (G - 1) = unat h" unfolding hd h S by simp
    have short: "l > 0 \<and> l < h \<longleftrightarrow> 0 < B mod N \<and> B mod N < unat h" by (simp add: word_less_nat_alt num(3))
    show "unat (ex_groups ?e) = (if 0 < B mod N \<and> B mod N < unat h then G - 1 else G)"
      unfolding short by (simp add: num(2) g1)
    have "unat (L - ucast l) = B - B mod N" by (subst unat_sub) (simp_all add: word_le_nat_alt unat_ucast_u64 num)
    then show "unat (ex_len_blocks ?e) = (if 0 < B mod N \<and> B mod N < unat h then B - B mod N else B)"
      unfolding short by (simp add: num(1))
  qed (use N lg in simp_all)
  ultimately show ?thesis by (intro exI [of _ ?e]) simp
qed

section \<open>The default parameters\<close>

lemma round_down_4096:
  assumes "0 < len" "len < 2 ^ 43"
  shows "sint ((word_of_int len :: u64) AND NOT (ucast (4096 :: u32) - 1)) = int (nat len div 4096 * 4096)"
proof -
  let ?x = "word_of_int len :: u64"
  have "(ucast (4096 :: u32) - 1 :: u64) = mask 12" by (simp add: mask_eq_exp_minus_1)
  then have e: "?x AND NOT (ucast (4096 :: u32) - 1) = ?x - take_bit 12 ?x" by (simp add: and_not_eq_minus take_bit_eq_mask)
  have "?x = word_of_nat (nat len)" using assms(1) by simp
  then have x: "unat ?x = nat len" using assms(2) by (simp only: unat_of_nat) simp
  have t: "unat (take_bit 12 ?x) = nat len mod 4096" using x by (simp add: take_bit_eq_mod unat_mod)
  have "unat (?x - take_bit 12 ?x) = nat len - nat len mod 4096"
    by (subst unat_sub) (simp_all add: word_le_nat_alt t x)
  then have u: "unat (?x - take_bit 12 ?x) = nat len div 4096 * 4096" by (simp add: minus_mod_eq_div_mult)
  then have "uint (?x - take_bit 12 ?x) = int (nat len div 4096 * 4096)" by (metis of_nat_unat)
  moreover have "nat len div 4096 * 4096 \<le> nat len" by simp
  then have "int (nat len div 4096 * 4096) \<le> len" using assms(1) by linarith
  then have "int (nat len div 4096 * 4096) < 2 ^ 63" using assms(2) by simp
  ultimately show ?thesis unfolding e by (simp add: sint_uint signed_take_bit_int_eq_self)
qed

lemma len_round_up_default:
  assumes "fi_len info = int B * 4096" "fi_block_size info = 4096"
  shows "len_round_up info = Inr (int B)"
  using assms by (simp add: len_round_up_def)

lemma inodes_per_group_default:
  assumes "fi_len info = int B * 4096" "fi_block_size info = 4096" "fi_blocks_per_group info = 32768" "fi_inode_size info = 256"
    "0 < B" "B < 2 ^ 31" "inodes = word_of_int (int B div 4)"
  shows "\<exists>ipg all. compute_inodes_per_group info inodes = Inr (ipg, all) \<and> unat ipg \<le> 8192 \<and> 16 dvd unat ipg"
proof -
  define G where "G = round_up_div B 32768"
  have G: "0 < G" "B \<le> G * 32768" "G \<le> 65536"
    using last_group [of 32768 B] assms(5,6) round_up_div_le [of 32768 B 65536] by (simp_all add: G_def)
  have u: "unat (word_of_int (int B) :: u32) = B" "unat inodes = B div 4"
    using assms(6) unat_of_nat_u32 [of B] unat_of_nat_u32 [of "B div 4"] unfolding assms(7)
    by (simp_all add: zdiv_int [of B 4, simplified, symmetric])
  obtain g where g: "DIV_ROUND_UP (word_of_int (int B)) (32768 :: u32) = Inr g" "unat g = G"
    using DIV_ROUND_UP_run [of "32768 :: u32" "word_of_int (int B)"] u assms(6) by (auto simp: G_def round_up_div_def)
  obtain q where q: "DIV_ROUND_UP inodes g = Inr q" "unat q = round_up_div (B div 4) G"
  proof -
    have "B div 4 \<le> B" by simp
    then have "unat inodes + unat g < 2 ^ LENGTH(32)" using u(2) g(2) G(3) assms(6) by simp
    then show ?thesis using DIV_ROUND_UP_run [of g inodes] that u(2) g(2) G(1) by (auto simp: round_up_div_def)
  qed
  have q': "unat q \<le> 8192" unfolding q(2) using G by (intro round_up_div_le) simp_all
  obtain a where a: "DIV_ROUND_UP q (16 :: u32) = Inr a" "unat a = round_up_div (unat q) 16"
    using DIV_ROUND_UP_run [of "16 :: u32" q] q' by (auto simp: round_up_div_def)
  have a': "unat a \<le> 512" unfolding a(2) using q' by (intro round_up_div_le) simp_all
  then have "unat (16 * a) = 16 * unat a" by (simp add: unat_mult_u32)
  then show ?thesis using a' g q a assms(2-4) by (simp add: compute_inodes_per_group_def len_round_up_default [OF assms(1,2)] EXT4_ALIGN_def)
qed

lemma reserve_blocks_default:
  assumes "fi_len info = int B * 4096" "fi_block_size info = 4096" "fi_blocks_per_group info = 32768" "B < 2 ^ 31"
  shows "\<exists>r. compute_bg_desc_reserve_blocks info = Inr r \<and> unat r \<le> 1024"
proof -
  have "\<not> 1024 < x \<longrightarrow> unat x \<le> 1024" for x :: u32 by (simp add: word_le_nat_alt not_less)
  then show ?thesis
    using assms(2,3) by (simp add: compute_bg_desc_reserve_blocks_def len_round_up_default [OF assms(1,2)] DIV_ROUND_UP_def Let_def)
qed

lemma ext4fs_parameters_default:
  assumes "fi_block_size (fo_info opts) = 0" "fi_blocks_per_group (fo_info opts) = 0" "fi_inode_size (fo_info opts) = 0" "fo_inodes opts = 0"
    "fi_len (fo_info opts) = len" "4096 \<le> len" "len < 2 ^ 43"
  shows "\<exists>opts'. ext4fs_parameters file_size opts = Inr (Some opts') \<and> fi_len (fo_info opts') = int (nat len div 4096 * 4096) \<and>
    fi_block_size (fo_info opts') = 4096 \<and> fi_blocks_per_group (fo_info opts') = 32768 \<and> fi_inode_size (fo_info opts') = 256 \<and>
    unat (fi_inodes_per_group (fo_info opts')) \<le> 8192 \<and> 16 dvd unat (fi_inodes_per_group (fo_info opts')) \<and>
    unat (fi_bg_desc_reserve_blocks (fo_info opts')) \<le> 1024"
proof -
  define B where "B = nat len div 4096"
  have B: "0 < B" "B < 2 ^ 31" using assms(6,7) by (simp_all add: B_def)
  let ?i1 = "(fo_info opts)\<lparr>fi_block_size := 4096, fi_len := int B * 4096\<rparr>"
  let ?i2 = "?i1\<lparr>fi_blocks_per_group := 32768, fi_inode_size := 256\<rparr>"
  have lr: "len_round_up (?i1\<lparr>fi_blocks_per_group := n\<rparr>) = Inr (int B)" "len_round_up ?i1 = Inr (int B)" for n
    by (simp_all add: len_round_up_default)
  obtain ipg k where i: "compute_inodes_per_group ?i2 (word_of_int (int B div 4)) = Inr (ipg, k)" "unat ipg \<le> 8192" "16 dvd unat ipg"
    using inodes_per_group_default [of ?i2 B, OF _ _ _ _ B refl] by auto
  define i3 where "i3 = ?i2\<lparr>fi_inodes_per_group := ipg, fi_feat_ro_compat := fi_feat_ro_compat (fo_info opts) OR (1 OR 2 OR 0x10)\<rparr>"
  obtain r where r: "compute_bg_desc_reserve_blocks i3 = Inr r" "unat r \<le> 1024"
    using reserve_blocks_default [of i3 B] B(2) by (auto simp: i3_def)
  have rd: "sint ((word_of_int len :: u64) AND NOT (ucast (4096 :: u32) - 1)) = int B * 4096"
    using round_down_4096 [of len] assms(6,7) by (simp add: B_def)
  obtain j where j: "(if fo_journal_blocks opts = 0 then compute_journal_blocks ?i1 else Inr (fo_journal_blocks opts)) = Inr j"
    by (cases "fo_journal_blocks opts = 0") (simp_all add: compute_journal_blocks_def lr Let_def)
  have "\<not> fi_len (fo_info opts) \<le> 0" using assms(5,6) by simp
  then have "ext4fs_parameters file_size opts = Inr (Some \<lparr>fo_info = i3\<lparr>fi_bg_desc_reserve_blocks := r\<rparr>, fo_inodes = k,
      fo_journal_blocks = (if fo_no_journal opts then 0 else j), fo_feat_compat = (if fo_no_journal opts then fo_feat_compat opts else 4) OR (0x10 OR 8),
      fo_feat_incompat = fo_feat_incompat opts OR (0x40 OR 2), fo_no_journal = fo_no_journal opts\<rparr>)"
    using assms(1-5) rd j i(1) r(1) lr(1)
    by (cases "fo_journal_blocks opts = 0")
      (simp_all add: ext4fs_parameters_def Let_def compute_block_size_def compute_blocks_per_group_def compute_inodes_def i3_def)
  then show ?thesis using i(2,3) r(2) by (simp add: i3_def B_def)
qed

lemma ext4fs_layout_run:
  assumes "fi_block_size (fo_info opts) = 0" "fi_blocks_per_group (fo_info opts) = 0" "fi_inode_size (fo_info opts) = 0" "fo_inodes opts = 0"
    "4096 \<le> fi_len (fo_info opts)" "fi_len (fo_info opts) < 2 ^ 43"
  shows "\<exists>opts' e. ext4fs_layout file_size opts = Inr (Some (opts', e)) \<and> fs_ok 32768 e \<and>
    fs_free 32768 e \<subseteq> {..< nat (fi_len (fo_info opts)) div 4096} \<and>
    unat (fi_inodes_per_group (fo_info opts')) \<le> 8192 \<and> 16 dvd unat (fi_inodes_per_group (fo_info opts'))"
proof -
  obtain o' where o': "ext4fs_parameters file_size opts = Inr (Some o')" "fi_len (fo_info o') = int (nat (fi_len (fo_info opts)) div 4096 * 4096)"
    "fi_block_size (fo_info o') = 4096" "fi_blocks_per_group (fo_info o') = 32768" "fi_inode_size (fo_info o') = 256"
    "unat (fi_inodes_per_group (fo_info o')) \<le> 8192" "16 dvd unat (fi_inodes_per_group (fo_info o'))"
    "unat (fi_bg_desc_reserve_blocks (fo_info o')) \<le> 1024"
    using ext4fs_parameters_default [OF assms(1-4) refl assms(5,6)] by blast
  let ?e = "\<lparr>ex_info = fo_info o', ex_force = False, ex_first_data_block = 0, ex_len_blocks = 0,
        ex_inode_table_blocks = 0, ex_groups = 0, ex_bg_desc_blocks = 0, ex_bgs = [], ex_queue = []\<rparr>"
  define B where "B = nat (fi_len (fo_info opts)) div 4096"
  have B: "0 < B" "B < 2 ^ 31" "nat (fi_len (fo_info o')) div unat (fi_block_size (fo_info o')) = B"
    using assms(5,6) by (simp_all add: B_def o'(2,3))
  have t: "unat ((fi_inodes_per_group (fo_info o') * 256 + 4096 - 1) div 4096) \<le> 512"
  proof -
    have m: "unat (fi_inodes_per_group (fo_info o') * 256) = unat (fi_inodes_per_group (fo_info o')) * 256"
      using o'(6) by (simp add: unat_mult_u32)
    then have "unat ((fi_inodes_per_group (fo_info o') * 256 + 4096 - 1) div 4096) = round_up_div (unat (fi_inodes_per_group (fo_info o')) * 256) 4096"
      using o'(6) by (subst unat_round_up) (simp_all add: round_up_div_def)
    also have "\<dots> \<le> 512" using o'(6) by (intro round_up_div_le) simp_all
    finally show ?thesis .
  qed
  have d: "round_up_div (round_up_div B 32768 * 32) 4096 \<le> 512"
    using round_up_div_le [of 32768 B 65536] B(2) by (intro round_up_div_le) simp_all
  obtain e' where e': "ext4_create_fs_aux_info ?e = Inr e'" "geometry_ok e'" "ex_info e' = fo_info o'" "unat (ex_len_blocks e') \<le> B"
    using aux_info_geometry [of ?e] B t d o'(2-8) by (auto simp: word_less_nat_alt)
  obtain e2 where e2: "block_allocator_init e' = Inr e2" "fs_ok 32768 e2"
    "fs_free 32768 e2 = (\<Union>i < unat (ex_groups e'). {group_first e' i + group_header e' i ..< group_end e' i})"
    using block_allocator_init_run [OF e'(2)] e'(3) o'(4) by (auto simp: group_size_def)
  have "fs_free 32768 e2 \<subseteq> {..< B}" unfolding e2(3) using e'(4) by (auto simp: group_end_def)
  then show ?thesis using o' e' e2 by (simp add: ext4fs_layout_def B_def)
qed

lemma ext4fs_tiny_run:
  assumes "fi_block_size (fo_info opts) = 0" "fi_blocks_per_group (fo_info opts) = 0" "0 < fi_len (fo_info opts)" "fi_len (fo_info opts) < 4096"
  shows "ext4fs_layout file_size opts = Inl DivByZero"
proof -
  let ?i = "(fo_info opts)\<lparr>fi_block_size := 4096, fi_len := 0\<rparr>"
  have rd: "sint ((word_of_int (fi_len (fo_info opts)) :: u64) AND NOT (ucast (4096 :: u32) - 1)) = 0"
    using round_down_4096 [OF assms(3)] assms(4) by simp
  have lr: "len_round_up (i\<lparr>fi_block_size := 4096, fi_len := 0\<rparr>) = Inr 0" "len_round_up (i\<lparr>fi_block_size := 4096, fi_len := 0, fi_blocks_per_group := n\<rparr>) = Inr 0"
    "len_round_up (i\<lparr>fi_block_size := 4096, fi_len := 0, fi_blocks_per_group := n, fi_inode_size := k\<rparr>) = Inr 0" for i n k
    by (simp_all add: len_round_up_def)
  have "\<not> fi_len (fo_info opts) \<le> 0" using assms(3) by simp
  then show ?thesis
    using assms(1,2) rd lr
    by (cases "fo_journal_blocks opts = 0"; cases "fo_inodes opts = 0"; cases "fi_inode_size (fo_info opts) = 0")
      (simp_all add: ext4fs_layout_def ext4fs_parameters_def Let_def compute_block_size_def compute_blocks_per_group_def compute_inodes_def
        compute_journal_blocks_def compute_inodes_per_group_def DIV_ROUND_UP_def)
qed

section \<open>Properties\<close>

text \<open>
  C9. With no parameter given, an image of any length from one block up to 8 TiB is laid out without an error: the
  allocator starts in a state that satisfies its invariant, no block beyond the end of the image is ever free,
  and every group has at most 8192 inodes, a multiple of the 16 that fit into a block.
\<close>

theorem default_layout_ok:
  assumes "fi_block_size (fo_info opts) = 0" "fi_blocks_per_group (fo_info opts) = 0" "fi_inode_size (fo_info opts) = 0" "fo_inodes opts = 0"
    "4096 \<le> fi_len (fo_info opts)" "fi_len (fo_info opts) < 2 ^ 43"
  shows "\<exists>opts' e. ext4fs_layout file_size opts = Inr (Some (opts', e)) \<and> fs_ok 32768 e \<and>
    fs_free 32768 e \<subseteq> {..< nat (fi_len (fo_info opts)) div 4096} \<and>
    unat (fi_inodes_per_group (fo_info opts')) \<le> 8192 \<and> 16 dvd unat (fi_inodes_per_group (fo_info opts'))"
  by (rule ext4fs_layout_run [OF assms])

definition no_opts :: "int \<Rightarrow> fs_opts" where
  "no_opts len = \<lparr>fo_info = \<lparr>fi_len = len, fi_block_size = 0, fi_blocks_per_group = 0, fi_inodes_per_group = 0, fi_inode_size = 0,
      fi_feat_ro_compat = 0, fi_bg_desc_reserve_blocks = 0\<rparr>,
    fo_inodes = 0, fo_journal_blocks = 0, fo_feat_compat = 0, fo_feat_incompat = 0, fo_no_journal = False\<rparr>"

theorem default_layout_ok_witness:
  "\<exists>opts e. ext4fs_layout 0 (no_opts 1073741824) = Inr (Some (opts, e)) \<and> fs_ok 32768 e \<and> fs_free 32768 e \<subseteq> {..< 262144}"
  using default_layout_ok [of "no_opts 1073741824" 0] by (simp add: no_opts_def) blast

text \<open>
  C17. An image shorter than one block is rounded down to no blocks at all, and the number of inodes of a group is
  then computed by a division by the number of groups, which is zero.
\<close>

theorem tiny_image_divides_by_zero:
  assumes "fi_block_size (fo_info opts) = 0" "fi_blocks_per_group (fo_info opts) = 0" "0 < fi_len (fo_info opts)" "fi_len (fo_info opts) < 4096"
  shows "ext4fs_layout file_size opts = Inl DivByZero"
  by (rule ext4fs_tiny_run [OF assms])

theorem tiny_image_divides_by_zero_witness: "ext4fs_layout 0 (no_opts 1000) = Inl DivByZero"
  using tiny_image_divides_by_zero [of "no_opts 1000" 0] by (simp add: no_opts_def)

end
