(* ===== verification/Ext4_Regions.thy ===== *)
theory Ext4_Regions
  imports Ext4_Groups
begin

text \<open>
  The lists of regions of \<^verbatim>\<open>ext4_utils/allocate.c\<close>: allocation of blocks by best fit into a linked list, the
  cursor that walks over an allocation, splitting off blocks for indirect or extent blocks, and giving
  blocks back.  Regions are cells of a heap with their two links, so that dangling and missing links are
  visible.  A loop over a list ends after as many steps as cells were ever made, or it never ends.
\<close>

section \<open>Regions in memory\<close>

record region =
  rg_block :: u32
  rg_len :: u32
  rg_bg :: nat
  rg_next :: ptr
  rg_prev :: ptr

record rmem =
  rm_cells :: "addr \<rightharpoonup> region"
  rm_fresh :: addr

definition get_reg :: "rmem \<Rightarrow> ptr \<Rightarrow> region res" where
  "get_reg m p = (case p of None \<Rightarrow> Inl NullDeref
     | Some a \<Rightarrow> (case rm_cells m a of None \<Rightarrow> Inl UseAfterFree | Some r \<Rightarrow> Inr r))"

definition put_reg :: "rmem \<Rightarrow> ptr \<Rightarrow> (region \<Rightarrow> region) \<Rightarrow> rmem res" where
  "put_reg m p f = bindR (get_reg m p) (\<lambda>r. Inr (m\<lparr>rm_cells := (rm_cells m)(the p \<mapsto> f r)\<rparr>))"

definition new_reg :: "rmem \<Rightarrow> region \<Rightarrow> ptr \<times> rmem" where
  "new_reg m r = (Some (rm_fresh m), m\<lparr>rm_cells := (rm_cells m)(rm_fresh m \<mapsto> r), rm_fresh := Suc (rm_fresh m)\<rparr>)"

definition free_reg :: "rmem \<Rightarrow> ptr \<Rightarrow> rmem res" where
  "free_reg m p = (case p of None \<Rightarrow> Inr m
     | Some a \<Rightarrow> if rm_cells m a = None then Inl DoubleFree else Inr (m\<lparr>rm_cells := (rm_cells m)(a := None)\<rparr>))"

record region_list =
  rl_first :: ptr
  rl_last :: ptr
  rl_iter :: ptr
  rl_partial :: u32

record block_allocation =
  ba_list :: region_list
  ba_oob :: region_list
  ba_filename :: "string option"
  ba_next :: ptr

definition empty_list :: region_list where
  "empty_list = \<lparr>rl_first = None, rl_last = None, rl_iter = None, rl_partial = 0\<rparr>"

definition create_allocation :: block_allocation where
  "create_allocation = \<lparr>ba_list = empty_list, ba_oob = empty_list, ba_filename = None, ba_next = None\<rparr>"

section \<open>List operations\<close>

definition region_list_remove :: "rmem \<Rightarrow> region_list \<Rightarrow> ptr \<Rightarrow> (region_list \<times> rmem) res" where
  "region_list_remove m l reg =
    bindR (get_reg m reg) (\<lambda>r.
    bindR (if rg_prev r \<noteq> None then put_reg m (rg_prev r) (\<lambda>q. q\<lparr>rg_next := rg_next r\<rparr>) else Inr m) (\<lambda>m.
    bindR (get_reg m reg) (\<lambda>r.
    bindR (if rg_next r \<noteq> None then put_reg m (rg_next r) (\<lambda>q. q\<lparr>rg_prev := rg_prev r\<rparr>) else Inr m) (\<lambda>m.
    bindR (get_reg m reg) (\<lambda>r.
    let l = (if rl_first l = reg then l\<lparr>rl_first := rg_next r\<rparr> else l);
        l = (if rl_last l = reg then l\<lparr>rl_last := rg_prev r\<rparr> else l)
    in bindR (put_reg m reg (\<lambda>q. q\<lparr>rg_next := None, rg_prev := None\<rparr>)) (\<lambda>m. Inr (l, m)))))))"

definition region_list_append :: "rmem \<Rightarrow> region_list \<Rightarrow> ptr \<Rightarrow> (region_list \<times> rmem) res" where
  "region_list_append m l reg =
    bindR (if rl_first l = None
           then bindR (put_reg m reg (\<lambda>q. q\<lparr>rg_prev := None\<rparr>)) (\<lambda>m.
                  Inr (\<lparr>rl_first = reg, rl_last = reg, rl_iter = reg, rl_partial = 0\<rparr>, m))
           else bindR (put_reg m (rl_last l) (\<lambda>q. q\<lparr>rg_next := reg\<rparr>)) (\<lambda>m.
                bindR (put_reg m reg (\<lambda>q. q\<lparr>rg_prev := rl_last l\<rparr>)) (\<lambda>m. Inr (l\<lparr>rl_last := reg\<rparr>, m))))
    (\<lambda>(l, m). bindR (put_reg m reg (\<lambda>q. q\<lparr>rg_next := None\<rparr>)) (\<lambda>m. Inr (l, m)))"

definition append_region :: "rmem \<Rightarrow> block_allocation \<Rightarrow> u32 \<Rightarrow> u32 \<Rightarrow> nat \<Rightarrow> (block_allocation \<times> rmem) res" where
  "append_region m alloc block len bg_num =
    (case new_reg m \<lparr>rg_block = block, rg_len = len, rg_bg = bg_num, rg_next = None, rg_prev = None\<rparr> of (reg, m) \<Rightarrow>
      bindR (region_list_append m (ba_list alloc) reg) (\<lambda>(l, m). Inr (alloc\<lparr>ba_list := l\<rparr>, m)))"

text \<open>\<^verbatim>\<open>reduce_allocation\<close>: one step of its loop returns what is left to free.\<close>

definition give_back_step :: "ext4 \<Rightarrow> rmem \<Rightarrow> block_allocation \<Rightarrow> u32 \<Rightarrow> (u32 \<times> block_allocation \<times> rmem \<times> ext4) res" where
  "give_back_step e m alloc len =
    bindR (get_reg m (rl_last (ba_list alloc))) (\<lambda>r.
    bindR (get_bg e (rg_bg r)) (\<lambda>bg.
    if rg_len r > len
    then
      bindR (free_blocks bg len) (\<lambda>bg.
      bindR (put_reg m (rl_last (ba_list alloc)) (\<lambda>q. q\<lparr>rg_len := rg_len q - len\<rparr>)) (\<lambda>m.
        Inr (0, alloc, m, set_bg e (rg_bg r) bg)))
    else
      bindR (free_blocks bg (rg_len r)) (\<lambda>bg.
      bindR (if rg_prev r \<noteq> None
             then bindR (put_reg m (rg_prev r) (\<lambda>q. q\<lparr>rg_next := None\<rparr>)) (\<lambda>m. Inr (alloc, m))
             else Inr (alloc\<lparr>ba_list := empty_list\<rparr>, m)) (\<lambda>(alloc', m).
      bindR (free_reg m (rl_last (ba_list alloc))) (\<lambda>m.
        Inr (len - rg_len r, alloc', m, set_bg e (rg_bg r) bg))))))"

fun give_back_loop :: "nat \<Rightarrow> ext4 \<Rightarrow> rmem \<Rightarrow> block_allocation \<Rightarrow> u32 \<Rightarrow> (block_allocation \<times> rmem \<times> ext4) res" where
  "give_back_loop fuel e m alloc len =
    (if len = 0 then Inr (alloc, m, e)
     else case fuel of 0 \<Rightarrow> Inl Diverges
     | Suc fuel \<Rightarrow> bindR (give_back_step e m alloc len) (\<lambda>(len, alloc, m, e). give_back_loop fuel e m alloc len))"

declare give_back_loop.simps [simp del]

definition reduce_allocation :: "ext4 \<Rightarrow> rmem \<Rightarrow> block_allocation \<Rightarrow> u32 \<Rightarrow> (block_allocation \<times> rmem \<times> ext4) res" where
  "reduce_allocation e m alloc len = give_back_loop (Suc (rm_fresh m)) e m alloc len"

section \<open>Allocation\<close>

fun best_fit_loop :: "nat \<Rightarrow> ext4 \<Rightarrow> rmem \<Rightarrow> u32 \<Rightarrow> ptr \<Rightarrow> ptr \<Rightarrow> (ptr \<times> rmem \<times> ext4) res" where
  "best_fit_loop fuel e m len first_reg prev_reg =
    (if len = 0 then Inr (first_reg, m, e)
     else case fuel of 0 \<Rightarrow> Inl Diverges
     | Suc fuel \<Rightarrow>
       bindR (ext4_allocate_best_fit_partial e len) (\<lambda>(r, e).
         case r of None \<Rightarrow> Inr (None, m, e)
         | Some (block, l, bg) \<Rightarrow>
            (case new_reg m \<lparr>rg_block = block, rg_len = l, rg_bg = bg, rg_next = None, rg_prev = None\<rparr> of (reg, m) \<Rightarrow>
             bindR (if prev_reg \<noteq> None
                    then bindR (put_reg m prev_reg (\<lambda>q. q\<lparr>rg_next := reg\<rparr>)) (\<lambda>m. put_reg m reg (\<lambda>q. q\<lparr>rg_prev := prev_reg\<rparr>))
                    else Inr m) (\<lambda>m.
               best_fit_loop fuel e m (len - l) (if first_reg = None then reg else first_reg) reg))))"

declare best_fit_loop.simps [simp del]

text \<open>Every step takes at least one block, so that \<open>len\<close> steps are enough.\<close>

definition ext4_allocate_best_fit :: "ext4 \<Rightarrow> rmem \<Rightarrow> u32 \<Rightarrow> (ptr \<times> rmem \<times> ext4) res" where
  "ext4_allocate_best_fit e m len = best_fit_loop (unat len) e m len None None"

definition allocate_blocks :: "ext4 \<Rightarrow> rmem \<Rightarrow> u32 \<Rightarrow> (block_allocation option \<times> rmem \<times> ext4) res" where
  "allocate_blocks e m len =
    bindR (ext4_allocate_best_fit e m len) (\<lambda>(reg, m, e).
      if reg = None then Inr (None, m, e)
      else Inr (Some (create_allocation\<lparr>ba_list := \<lparr>rl_first = reg, rl_last = reg, rl_iter = reg, rl_partial = 0\<rparr>\<rparr>), m, e))"

section \<open>Walking over an allocation\<close>

fun count_regions :: "nat \<Rightarrow> rmem \<Rightarrow> ptr \<Rightarrow> u32 \<Rightarrow> u32 res" where
  "count_regions fuel m reg i =
    (case reg of None \<Rightarrow> Inr i
     | Some _ \<Rightarrow> (case fuel of 0 \<Rightarrow> Inl Diverges | Suc fuel \<Rightarrow> bindR (get_reg m reg) (\<lambda>r. count_regions fuel m (rg_next r) (i + 1))))"

fun count_blocks :: "nat \<Rightarrow> rmem \<Rightarrow> ptr \<Rightarrow> u32 \<Rightarrow> u32 res" where
  "count_blocks fuel m reg i =
    (case reg of None \<Rightarrow> Inr i
     | Some _ \<Rightarrow> (case fuel of 0 \<Rightarrow> Inl Diverges | Suc fuel \<Rightarrow> bindR (get_reg m reg) (\<lambda>r. count_blocks fuel m (rg_next r) (i + rg_len r))))"

fun block_loop :: "nat \<Rightarrow> rmem \<Rightarrow> ptr \<Rightarrow> u32 \<Rightarrow> u32 res" where
  "block_loop fuel m reg block =
    (case reg of None \<Rightarrow> Inr EXT4_ALLOCATE_FAILED
     | Some _ \<Rightarrow> (case fuel of 0 \<Rightarrow> Inl Diverges
        | Suc fuel \<Rightarrow> bindR (get_reg m reg) (\<lambda>r.
            if block < rg_len r then Inr (rg_block r + block) else block_loop fuel m (rg_next r) (block - rg_len r))))"

declare count_regions.simps [simp del] count_blocks.simps [simp del] block_loop.simps [simp del]

definition block_allocation_num_regions :: "rmem \<Rightarrow> block_allocation \<Rightarrow> u32 res" where
  "block_allocation_num_regions m alloc = count_regions (rm_fresh m) m (rl_first (ba_list alloc)) 0"

definition block_allocation_len :: "rmem \<Rightarrow> block_allocation \<Rightarrow> u32 res" where
  "block_allocation_len m alloc = count_blocks (rm_fresh m) m (rl_first (ba_list alloc)) 0"

definition get_block :: "rmem \<Rightarrow> block_allocation \<Rightarrow> u32 \<Rightarrow> u32 res" where
  "get_block m alloc block = block_loop (rm_fresh m) m (rl_iter (ba_list alloc)) (block + rl_partial (ba_list alloc))"

definition get_oob_block :: "rmem \<Rightarrow> block_allocation \<Rightarrow> u32 \<Rightarrow> u32 res" where
  "get_oob_block m alloc block = block_loop (rm_fresh m) m (rl_iter (ba_oob alloc)) (block + rl_partial (ba_oob alloc))"

definition get_region :: "rmem \<Rightarrow> block_allocation \<Rightarrow> (u32 \<times> u32) res" where
  "get_region m alloc = bindR (get_reg m (rl_iter (ba_list alloc))) (\<lambda>r. Inr (rg_block r, rg_len r - rl_partial (ba_list alloc)))"

definition get_next_region :: "rmem \<Rightarrow> block_allocation \<Rightarrow> block_allocation res" where
  "get_next_region m alloc = bindR (get_reg m (rl_iter (ba_list alloc))) (\<lambda>r.
     Inr (alloc\<lparr>ba_list := (ba_list alloc)\<lparr>rl_iter := rg_next r, rl_partial := 0\<rparr>\<rparr>))"

definition last_region :: "block_allocation \<Rightarrow> bool" where
  "last_region alloc \<longleftrightarrow> rl_iter (ba_list alloc) = None"

definition rewind_alloc :: "block_allocation \<Rightarrow> block_allocation" where
  "rewind_alloc alloc = alloc\<lparr>ba_list := (ba_list alloc)\<lparr>rl_iter := rl_first (ba_list alloc), rl_partial := 0\<rparr>\<rparr>"

text \<open>
  \<^verbatim>\<open>advance_list_ptr\<close>: the loop walks with a pointer of its own; only the offset of the list is written.
\<close>

fun advance_loop :: "nat \<Rightarrow> rmem \<Rightarrow> region_list \<Rightarrow> ptr \<Rightarrow> int \<Rightarrow> (int \<times> region_list) res" where
  "advance_loop fuel m l reg blocks =
    (if reg \<noteq> None \<and> blocks > 0
     then (case fuel of 0 \<Rightarrow> Inl Diverges
       | Suc fuel \<Rightarrow> bindR (get_reg m reg) (\<lambda>r.
           if rg_len r > rl_partial l + word_of_int blocks then Inr (0, l\<lparr>rl_partial := rl_partial l + word_of_int blocks\<rparr>)
           else advance_loop fuel m (l\<lparr>rl_partial := 0\<rparr>) (rg_next r)
             (sint (word_of_int blocks - (rg_len r - rl_partial l) :: u32))))
     else Inr (if blocks > 0 then - 1 else 0, l))"

declare advance_loop.simps [simp del]

definition advance_list_ptr :: "rmem \<Rightarrow> region_list \<Rightarrow> int \<Rightarrow> (int \<times> region_list) res" where
  "advance_list_ptr m l blocks = advance_loop (rm_fresh m) m l (rl_iter l) blocks"

definition advance_blocks :: "rmem \<Rightarrow> block_allocation \<Rightarrow> int \<Rightarrow> (int \<times> block_allocation) res" where
  "advance_blocks m alloc blocks = bindR (advance_list_ptr m (ba_list alloc) blocks) (\<lambda>(r, l). Inr (r, alloc\<lparr>ba_list := l\<rparr>))"

definition advance_oob_blocks :: "rmem \<Rightarrow> block_allocation \<Rightarrow> int \<Rightarrow> (int \<times> block_allocation) res" where
  "advance_oob_blocks m alloc blocks = bindR (advance_list_ptr m (ba_oob alloc) blocks) (\<lambda>(r, l). Inr (r, alloc\<lparr>ba_oob := l\<rparr>))"

section \<open>Splitting\<close>

fun split_loop :: "nat \<Rightarrow> rmem \<Rightarrow> ptr \<Rightarrow> u32 \<Rightarrow> (ptr \<times> u32) res" where
  "split_loop fuel m reg len =
    (case reg of None \<Rightarrow> Inr (None, len)
     | Some _ \<Rightarrow> bindR (get_reg m reg) (\<lambda>r.
         if len \<ge> rg_len r
         then (case fuel of 0 \<Rightarrow> Inl Diverges | Suc fuel \<Rightarrow> split_loop fuel m (rg_next r) (len - rg_len r))
         else Inr (reg, len)))"

declare split_loop.simps [simp del]

definition do_split_allocation :: "rmem \<Rightarrow> block_allocation \<Rightarrow> u32 \<Rightarrow> (ptr \<times> block_allocation \<times> rmem) res" where
  "do_split_allocation m alloc len =
    bindR (split_loop (rm_fresh m) m (rl_iter (ba_list alloc)) len) (\<lambda>(reg, len).
    if reg = None \<and> len > 0 then Inr (None, alloc, m)
    else if len > 0
    then
      bindR (get_reg m reg) (\<lambda>r.
      case new_reg m \<lparr>rg_block = rg_block r + len, rg_len = rg_len r - len, rg_bg = rg_bg r, rg_next = rg_next r, rg_prev = reg\<rparr> of (new, m) \<Rightarrow>
      bindR (put_reg m reg (\<lambda>q. q\<lparr>rg_next := new, rg_len := len\<rparr>)) (\<lambda>m.
        Inr (rl_iter (ba_list alloc), alloc\<lparr>ba_list := (ba_list alloc)\<lparr>rl_iter := new\<rparr>\<rparr>, m)))
    else Inr (reg, alloc, m))"

definition split_allocation :: "rmem \<Rightarrow> block_allocation \<Rightarrow> u32 \<Rightarrow> (ptr \<times> block_allocation \<times> rmem) res" where
  "split_allocation m alloc len =
    bindR (do_split_allocation m alloc (rl_partial (ba_list alloc))) (\<lambda>(_, alloc, m).
    bindR (do_split_allocation m alloc len) (\<lambda>(middle, alloc, m).
      Inr (middle, alloc\<lparr>ba_list := (ba_list alloc)\<lparr>rl_partial := 0\<rparr>\<rparr>, m)))"

fun move_oob_loop :: "nat \<Rightarrow> rmem \<Rightarrow> block_allocation \<Rightarrow> ptr \<Rightarrow> (block_allocation \<times> rmem) res" where
  "move_oob_loop fuel m alloc oob =
    (if oob \<noteq> None \<and> oob \<noteq> rl_iter (ba_list alloc)
     then (case fuel of 0 \<Rightarrow> Inl Diverges
       | Suc fuel \<Rightarrow>
         bindR (get_reg m oob) (\<lambda>r.
         bindR (region_list_remove m (ba_list alloc) oob) (\<lambda>(l, m).
         bindR (region_list_append m (ba_oob alloc) oob) (\<lambda>(o', m).
           move_oob_loop fuel m (alloc\<lparr>ba_list := l, ba_oob := o'\<rparr>) (rg_next r)))))
     else Inr (alloc, m))"

declare move_oob_loop.simps [simp del]

definition reserve_oob_blocks :: "rmem \<Rightarrow> block_allocation \<Rightarrow> u32 \<Rightarrow> (int \<times> block_allocation \<times> rmem) res" where
  "reserve_oob_blocks m alloc blocks =
    bindR (split_allocation m alloc blocks) (\<lambda>(oob, alloc, m).
      if oob = None then Inr (- 1, alloc, m)
      else bindR (move_oob_loop (rm_fresh m) m alloc oob) (\<lambda>(alloc, m). Inr (0, alloc, m)))"

fun append_oob_loop :: "nat \<Rightarrow> rmem \<Rightarrow> region_list \<Rightarrow> ptr \<Rightarrow> (region_list \<times> rmem) res" where
  "append_oob_loop fuel m l reg =
    (case reg of None \<Rightarrow> Inr (l, m)
     | Some _ \<Rightarrow> (case fuel of 0 \<Rightarrow> Inl Diverges
        | Suc fuel \<Rightarrow> bindR (region_list_append m l reg) (\<lambda>(l, m). bindR (get_reg m reg) (\<lambda>r. append_oob_loop fuel m l (rg_next r)))))"

declare append_oob_loop.simps [simp del]

definition append_oob_allocation :: "ext4 \<Rightarrow> rmem \<Rightarrow> block_allocation \<Rightarrow> u32 \<Rightarrow> (int \<times> block_allocation \<times> rmem \<times> ext4) res" where
  "append_oob_allocation e m alloc len =
    bindR (ext4_allocate_best_fit e m len) (\<lambda>(reg, m, e).
      if reg = None then error (ex_force e) (Inr (- 1, alloc, m, e))
      else bindR (append_oob_loop (rm_fresh m) m (ba_oob alloc) reg) (\<lambda>(o', m). Inr (0, alloc\<lparr>ba_oob := o'\<rparr>, m, e)))"

fun free_loop :: "nat \<Rightarrow> rmem \<Rightarrow> ptr \<Rightarrow> rmem res" where
  "free_loop fuel m reg =
    (case reg of None \<Rightarrow> Inr m
     | Some _ \<Rightarrow> (case fuel of 0 \<Rightarrow> Inl Diverges
        | Suc fuel \<Rightarrow> bindR (get_reg m reg) (\<lambda>r. bindR (free_reg m reg) (\<lambda>m. free_loop fuel m (rg_next r)))))"

declare free_loop.simps [simp del]

definition free_alloc :: "rmem \<Rightarrow> block_allocation \<Rightarrow> rmem res" where
  "free_alloc m alloc =
    bindR (free_loop (rm_fresh m) m (rl_first (ba_list alloc))) (\<lambda>m. free_loop (rm_fresh m) m (rl_first (ba_oob alloc)))"

section \<open>Chains of regions\<close>

lemmas reg_simps = get_reg_def put_reg_def new_reg_def free_reg_def

text \<open>\<open>dchain m q p as\<close>: from \<open>p\<close> the cells \<open>as\<close> follow each other by their links, \<open>q\<close> before the first.\<close>

primrec dchain :: "rmem \<Rightarrow> ptr \<Rightarrow> ptr \<Rightarrow> addr list \<Rightarrow> bool" where
  "dchain m q p [] \<longleftrightarrow> p = None"
| "dchain m q p (a # as) \<longleftrightarrow> p = Some a \<and> (case rm_cells m a of None \<Rightarrow> False
     | Some r \<Rightarrow> rg_prev r = q \<and> dchain m (Some a) (rg_next r) as)"

text \<open>The links forward alone, which is what the loops that read an allocation follow.\<close>

primrec nchain :: "rmem \<Rightarrow> ptr \<Rightarrow> addr list \<Rightarrow> bool" where
  "nchain m p [] \<longleftrightarrow> p = None"
| "nchain m p (a # as) \<longleftrightarrow> p = Some a \<and> (case rm_cells m a of None \<Rightarrow> False | Some r \<Rightarrow> nchain m (rg_next r) as)"

lemma dchain_nchain: "dchain m q p as \<Longrightarrow> nchain m p as"
  by (induction as arbitrary: q p) (auto split: option.splits)

lemma nchain_cong: "(\<And>a. a \<in> set as \<Longrightarrow> rm_cells m a = rm_cells m' a) \<Longrightarrow> nchain m p as = nchain m' p as"
  by (induction as arbitrary: p) (auto split: option.splits)

definition reg_blocks :: "region \<Rightarrow> nat list" where
  "reg_blocks r = [unat (rg_block r) ..< unat (rg_block r) + unat (rg_len r)]"

definition cell_blocks :: "rmem \<Rightarrow> addr \<Rightarrow> nat list" where
  "cell_blocks m a = (case rm_cells m a of None \<Rightarrow> [] | Some r \<Rightarrow> reg_blocks r)"

definition chain_blocks :: "rmem \<Rightarrow> addr list \<Rightarrow> nat list" where
  "chain_blocks m as = concat (map (cell_blocks m) as)"

definition built :: "rmem \<Rightarrow> ptr \<Rightarrow> addr list \<Rightarrow> bool" where
  "built m p as \<longleftrightarrow> dchain m None p as \<and> distinct as \<and> set as \<subseteq> {..<rm_fresh m}"

definition last_ptr :: "addr list \<Rightarrow> ptr" where
  "last_ptr as = (if as = [] then None else Some (last as))"

lemma chain_blocks_simps [simp]:
  "chain_blocks m [] = []"
  "chain_blocks m (a # as) = cell_blocks m a @ chain_blocks m as"
  "chain_blocks m (as @ bs) = chain_blocks m as @ chain_blocks m bs"
  by (simp_all add: chain_blocks_def)

lemma length_reg_blocks [simp]: "length (reg_blocks r) = unat (rg_len r)"
  by (simp add: reg_blocks_def)

lemma dchain_cong: "(\<And>a. a \<in> set as \<Longrightarrow> rm_cells m a = rm_cells m' a) \<Longrightarrow> dchain m q p as = dchain m' q p as"
  by (induction as arbitrary: q p) (auto split: option.splits)

lemma dchain_mapped: "dchain m q p as \<Longrightarrow> a \<in> set as \<Longrightarrow> \<exists>r. rm_cells m a = Some r"
  by (induction as arbitrary: q p) (auto split: option.splits)

lemma built_length:
  assumes "built m p as"
  shows "length as \<le> rm_fresh m"
proof -
  have "card (set as) \<le> card {..<rm_fresh m}" using assms by (intro card_mono) (auto simp: built_def)
  then show ?thesis using assms by (simp add: built_def distinct_card)
qed

lemma chain_blocks_cong:
  "(\<And>a. a \<in> set as \<Longrightarrow> cell_blocks m a = cell_blocks m' a) \<Longrightarrow> chain_blocks m as = chain_blocks m' as"
  by (induction as) simp_all

lemma dchain_snoc:
  assumes "dchain m q p as" "as \<noteq> []" "distinct as" "a \<notin> set as" "rm_cells m (last as) = Some z"
    "rm_cells m' a = Some r" "rg_prev r = Some (last as)" "rg_next r = None"
    "\<And>x. x \<in> set as \<Longrightarrow> x \<noteq> last as \<Longrightarrow> rm_cells m' x = rm_cells m x"
    "rm_cells m' (last as) = Some (z\<lparr>rg_next := Some a\<rparr>)"
  shows "dchain m' q p (as @ [a])"
  using assms
proof (induction as arbitrary: q p)
  case (Cons b as)
  show ?case
  proof (cases "as = []")
    case True
    then show ?thesis using Cons.prems by (simp split: option.splits)
  next
    case False
    then have "b \<noteq> last as" using Cons.prems(3) last_in_set by fastforce
    then have b: "rm_cells m' b = rm_cells m b" using Cons.prems(9) [of b] False by simp
    obtain rb where rb: "rm_cells m b = Some rb" "p = Some b" "rg_prev rb = q" "dchain m (Some b) (rg_next rb) as"
      using Cons.prems(1) by (auto split: option.splits)
    have "dchain m' (Some b) (rg_next rb) (as @ [a])"
      using Cons.prems False rb(4) by (intro Cons.IH) simp_all
    then show ?thesis using b rb by simp
  qed
qed simp

lemma built_snoc:
  assumes "built m first as" "rg_next r = None" "rg_prev r = None"
  defines "m1 \<equiv> snd (new_reg m r)" and "reg \<equiv> fst (new_reg m r)"
  shows "\<exists>m2. (if last_ptr as \<noteq> None
      then bindR (put_reg m1 (last_ptr as) (\<lambda>q. q\<lparr>rg_next := reg\<rparr>)) (\<lambda>m. put_reg m reg (\<lambda>q. q\<lparr>rg_prev := last_ptr as\<rparr>))
      else Inr m1) = Inr m2 \<and>
    built m2 (if first = None then reg else first) (as @ [rm_fresh m]) \<and>
    rm_cells m2 (rm_fresh m) = Some (r\<lparr>rg_prev := last_ptr as\<rparr>) \<and>
    (\<forall>x \<in> set as. \<exists>q n. rm_cells m x = Some q \<and> rm_cells m2 x = Some (q\<lparr>rg_next := n\<rparr>)) \<and> reg = Some (rm_fresh m)"
proof (cases "as = []")
  case True
  then show ?thesis using assms by (simp add: last_ptr_def built_def new_reg_def)
next
  case False
  let ?a = "rm_fresh m" and ?z = "last as"
  have b: "dchain m None first as" "distinct as" "set as \<subseteq> {..<?a}" using assms(1) by (simp_all add: built_def)
  obtain z where z: "rm_cells m ?z = Some z" using dchain_mapped [OF b(1)] False by force
  have ne: "?z \<in> set as" "?a \<notin> set as" using b(3) False by auto
  then have za: "?z \<noteq> ?a" by metis
  define m2 where "m2 = m\<lparr>rm_cells := (rm_cells m)(?a \<mapsto> r\<lparr>rg_prev := Some ?z\<rparr>, ?z \<mapsto> z\<lparr>rg_next := Some ?a\<rparr>), rm_fresh := Suc ?a\<rparr>"
  have run: "bindR (put_reg m1 (Some ?z) (\<lambda>q. q\<lparr>rg_next := reg\<rparr>)) (\<lambda>m. put_reg m reg (\<lambda>q. q\<lparr>rg_prev := Some ?z\<rparr>)) = Inr m2"
    using z za by (simp add: m1_def reg_def reg_simps m2_def fun_upd_twist)
  have ch: "dchain m2 None first (as @ [?a])"
    using b(1) False b(2) ne(2) z by (rule dchain_snoc [where r = "r\<lparr>rg_prev := Some ?z\<rparr>"]) (use ne za assms(2) in \<open>auto simp: m2_def\<close>)
  have first: "first = Some (hd as)" using b(1) False by (cases as) auto
  have old: "\<exists>q n. rm_cells m x = Some q \<and> rm_cells m2 x = Some (q\<lparr>rg_next := n\<rparr>)" if x: "x \<in> set as" for x
  proof -
    obtain q where q: "rm_cells m x = Some q" using dchain_mapped [OF b(1) x] by blast
    have "x \<noteq> ?a" using x ne(2) by blast
    then have "rm_cells m2 x = Some (q\<lparr>rg_next := if x = ?z then Some ?a else rg_next q\<rparr>)" using q z by (auto simp: m2_def)
    then show ?thesis using q by blast
  qed
  have bu: "built m2 first (as @ [?a])" using ch b ne(2) by (auto simp: built_def m2_def)
  have lp: "last_ptr as = Some ?z" and cell: "rm_cells m2 ?a = Some (r\<lparr>rg_prev := Some ?z\<rparr>)" and reg: "reg = Some ?a"
    using False za by (auto simp: last_ptr_def m2_def reg_def new_reg_def)
  show ?thesis unfolding lp using run bu [unfolded first] cell old reg by (intro exI [of _ m2] conjI) (simp_all add: first)
qed

section \<open>One step of best fit\<close>

lemma fs_free_less:
  assumes "fs_ok N e" "x \<in> fs_free N e"
  shows "x + 1 < 2 ^ 32"
proof -
  obtain i where "i < length (ex_bgs e)" "x \<in> bg_free N (ex_bgs e ! i)" using assms(2) by (auto simp: fs_free_def)
  then show ?thesis using assms(1) bg_free_within [of x N "ex_bgs e ! i"] by (force simp: fs_ok_def)
qed

definition ff_of :: "ext4 \<Rightarrow> nat \<Rightarrow> nat" where
  "ff_of e g = unat (bg_first_free_block (ex_bgs e ! g))"

lemma best_fit_partial_run:
  assumes "fs_ok N e" "0 < len" "0 < total_free e"
  shows "\<exists>b l g e'. ext4_allocate_best_fit_partial e len = Inr (Some (b, l, g), e') \<and> 0 < l \<and> l \<le> len \<and>
    g < length (ex_bgs e) \<and> fs_ok N e' \<and> length (ex_bgs e') = length (ex_bgs e) \<and> ex_force e' = ex_force e \<and>
    {unat b ..< unat b + unat l} \<subseteq> fs_free N e \<and> fs_free N e' = fs_free N e - {unat b ..< unat b + unat l} \<and>
    total_free e' + unat l = total_free e \<and> unat l \<le> ff_of e' g \<and> unat b + unat l < 2 ^ 32 \<and>
    (\<forall>j. j \<noteq> g \<longrightarrow> ex_bgs e' ! j = ex_bgs e ! j) \<and> bg_free_blocks (ex_bgs e ! g) \<noteq> 0 \<and>
    unat b + unat l = bg_start (ex_bgs e' ! g) \<and> (l \<noteq> len \<longrightarrow> bg_free_blocks (ex_bgs e' ! g) = 0)"
proof -
  obtain g found where bf: "best_fit_group e len = (g, found)" by (rule prod.exhaust)
  have nz: "found \<noteq> 0" using no_fit_none_free [OF assms(1) _ assms(2)] bf assms(3) by fastforce
  have g: "g < length (ex_bgs e)" "bg_free_blocks (ex_bgs e ! g) = found" "unat (ex_groups e) = length (ex_bgs e)"
    using best_fit_group_spec(1) [OF bf assms(2) nz] assms(1) by (simp_all add: fs_ok_def)
  define l where "l = min len found"
  have l: "0 < l" "l \<le> len" "l \<le> bg_free_blocks (ex_bgs e ! g)" using nz assms(2) g(2) by (auto simp: l_def min_def word_neq_0_conv)
  obtain b bg' where t: "ext4_allocate_blocks_from_block_group e l g = Inr (b, set_bg e g bg')"
    "unat b = bg_start (ex_bgs e ! g)" "b \<noteq> EXT4_ALLOCATE_FAILED" "fs_ok N (set_bg e g bg')"
    "{unat b ..< unat b + unat l} \<subseteq> fs_free N e"
    "fs_free N (set_bg e g bg') = fs_free N e - {unat b ..< unat b + unat l}"
    "total_free (set_bg e g bg') + unat l = total_free e"
    "unat (bg_first_free_block bg') = ff_of e g + unat l"
    "bg_first_block bg' = bg_first_block (ex_bgs e ! g)" "bg_free_blocks bg' = bg_free_blocks (ex_bgs e ! g) - l"
    using take_from_group [OF assms(1) g(1) l(3,1)] by (auto simp: ff_of_def)
  have run: "ext4_allocate_best_fit_partial e len = Inr (Some (b, l, g), set_bg e g bg')"
    using g(3) nz t(1,3) by (simp add: ext4_allocate_best_fit_partial_def bf l_def [symmetric] Let_def)
  have l0: "0 < unat l" using l(1) by (simp add: word_less_nat_alt)
  then have "unat b + unat l - 1 \<in> fs_free N e" using t(5) by (intro subsetD [OF t(5)]) auto
  then have lt: "unat b + unat l < 2 ^ 32" using fs_free_less [OF assms(1)] l0 by force
  have ff: "unat l \<le> ff_of (set_bg e g bg') g" "\<forall>j. j \<noteq> g \<longrightarrow> ex_bgs (set_bg e g bg') ! j = ex_bgs e ! j"
    "unat b + unat l = bg_start (ex_bgs (set_bg e g bg') ! g)" "l \<noteq> len \<longrightarrow> bg_free_blocks (ex_bgs (set_bg e g bg') ! g) = 0"
    "bg_free_blocks (ex_bgs e ! g) \<noteq> 0"
    using g(1,2) nz t(2,8,9,10) by (auto simp: ff_of_def set_bg_def bg_start_def l_def min_def)
  have "length (ex_bgs (set_bg e g bg')) = length (ex_bgs e)" "ex_force (set_bg e g bg') = ex_force e" by (simp_all add: set_bg_def)
  then show ?thesis using run l g(1) t(4-7) lt ff by blast
qed

lemma best_fit_partial_none:
  assumes "fs_ok N e" "0 < len" "total_free e = 0"
  shows "ext4_allocate_best_fit_partial e len = error (ex_force e) (Inr (None, e))"
proof -
  obtain g found where bf: "best_fit_group e len = (g, found)" by (rule prod.exhaust)
  have gl: "unat (ex_groups e) = length (ex_bgs e)" using assms(1) by (simp add: fs_ok_def)
  have "found = 0"
  proof (rule ccontr)
    assume "found \<noteq> 0"
    then have "g < length (ex_bgs e)" "bg_free_blocks (ex_bgs e ! g) \<noteq> 0"
      using best_fit_group_spec(1) [OF bf assms(2)] gl by auto
    then show False using assms(3) by (simp add: total_free_def unat_eq_zero)
  qed
  then show ?thesis using gl by (simp add: ext4_allocate_best_fit_partial_def bf)
qed

section \<open>Best fit takes exactly the blocks it is asked for\<close>

text \<open>
  The regions are not empty, in a group, end where the free blocks of their group begin, and their blocks have
  32-bit numbers.  While more blocks are wanted, the groups they are in have none left.
\<close>

definition region_ok :: "ext4 \<Rightarrow> region \<Rightarrow> bool" where
  "region_ok e r \<longleftrightarrow> 0 < rg_len r \<and> rg_bg r < length (ex_bgs e) \<and> unat (rg_len r) \<le> ff_of e (rg_bg r) \<and>
     unat (rg_block r) + unat (rg_len r) < 2 ^ 32 \<and> unat (rg_block r) + unat (rg_len r) = bg_start (ex_bgs e ! rg_bg r)"

definition regions_ok :: "ext4 \<Rightarrow> rmem \<Rightarrow> addr list \<Rightarrow> bool" where
  "regions_ok e m as \<longleftrightarrow> (\<forall>a \<in> set as. case rm_cells m a of None \<Rightarrow> False | Some r \<Rightarrow> region_ok e r)"

definition exhausted :: "ext4 \<Rightarrow> rmem \<Rightarrow> addr list \<Rightarrow> bool" where
  "exhausted e m as \<longleftrightarrow> (\<forall>a \<in> set as. case rm_cells m a of None \<Rightarrow> False | Some r \<Rightarrow> bg_free_blocks (ex_bgs e ! rg_bg r) = 0)"

lemma region_ok_links [simp]:
  "region_ok e (r\<lparr>rg_next := n\<rparr>) = region_ok e r" "region_ok e (r\<lparr>rg_prev := n\<rparr>) = region_ok e r"
  "reg_blocks (r\<lparr>rg_next := n\<rparr>) = reg_blocks r" "reg_blocks (r\<lparr>rg_prev := n\<rparr>) = reg_blocks r"
  by (simp_all add: region_ok_def reg_blocks_def)

lemma regions_ok_relink:
  assumes "regions_ok e m as" "exhausted e m as"
    "\<forall>x \<in> set as. \<exists>q n. rm_cells m x = Some q \<and> rm_cells m2 x = Some (q\<lparr>rg_next := n\<rparr>)"
    "length (ex_bgs e') = length (ex_bgs e)" "\<forall>j. j \<noteq> g \<longrightarrow> ex_bgs e' ! j = ex_bgs e ! j" "bg_free_blocks (ex_bgs e ! g) \<noteq> 0"
  shows "regions_ok e' m2 as" "exhausted e' m2 as" "\<forall>x \<in> set as. cell_blocks m2 x = cell_blocks m x"
proof -
  have "(case rm_cells m2 a of None \<Rightarrow> False | Some r \<Rightarrow> region_ok e' r) \<and>
      (case rm_cells m2 a of None \<Rightarrow> False | Some r \<Rightarrow> bg_free_blocks (ex_bgs e' ! rg_bg r) = 0)" if a: "a \<in> set as" for a
  proof -
    obtain q n where q: "rm_cells m a = Some q" "rm_cells m2 a = Some (q\<lparr>rg_next := n\<rparr>)" using assms(3) a by blast
    have r: "region_ok e q" "bg_free_blocks (ex_bgs e ! rg_bg q) = 0"
      using assms(1,2) a q(1) by (force simp: regions_ok_def exhausted_def)+
    then have "ex_bgs e' ! rg_bg q = ex_bgs e ! rg_bg q" using assms(5,6) by metis
    then show ?thesis using q r assms(4) by (simp add: region_ok_def ff_of_def)
  qed
  then show "regions_ok e' m2 as" "exhausted e' m2 as" by (simp_all add: regions_ok_def exhausted_def)
  have "cell_blocks m2 a = cell_blocks m a" if a: "a \<in> set as" for a
    using assms(3) [rule_format, OF a] by (auto simp: cell_blocks_def)
  then show "\<forall>x \<in> set as. cell_blocks m2 x = cell_blocks m x" by blast
qed

text \<open>One step: a cell for the region is linked at the end, and \<open>l\<close> blocks leave the free ones.\<close>

lemma best_fit_step:
  assumes "fs_ok N e" "built m first as" "regions_ok e m as" "exhausted e m as" "0 < len" "0 < total_free e"
  shows "\<exists>l e' m' first'. (\<forall>fuel. best_fit_loop (Suc fuel) e m len first (last_ptr as) =
      best_fit_loop fuel e' m' (len - l) first' (last_ptr (as @ [rm_fresh m]))) \<and> 0 < l \<and> l \<le> len \<and>
    fs_ok N e' \<and> built m' first' (as @ [rm_fresh m]) \<and> regions_ok e' m' (as @ [rm_fresh m]) \<and> ex_force e' = ex_force e \<and>
    (len - l \<noteq> 0 \<longrightarrow> exhausted e' m' (as @ [rm_fresh m])) \<and>
    (\<forall>x \<in> set as. cell_blocks m' x = cell_blocks m x) \<and> length (cell_blocks m' (rm_fresh m)) = unat l \<and>
    distinct (cell_blocks m' (rm_fresh m)) \<and> set (cell_blocks m' (rm_fresh m)) \<subseteq> fs_free N e \<and>
    fs_free N e' = fs_free N e - set (cell_blocks m' (rm_fresh m)) \<and> total_free e' + unat l = total_free e"
proof -
  obtain b l g e' where p: "ext4_allocate_best_fit_partial e len = Inr (Some (b, l, g), e')" "0 < l" "l \<le> len"
    "g < length (ex_bgs e)" "fs_ok N e'" "length (ex_bgs e') = length (ex_bgs e)" "ex_force e' = ex_force e"
    "{unat b ..< unat b + unat l} \<subseteq> fs_free N e" "fs_free N e' = fs_free N e - {unat b ..< unat b + unat l}"
    "total_free e' + unat l = total_free e" "unat l \<le> ff_of e' g" "unat b + unat l < 2 ^ 32"
    "\<forall>j. j \<noteq> g \<longrightarrow> ex_bgs e' ! j = ex_bgs e ! j" "bg_free_blocks (ex_bgs e ! g) \<noteq> 0"
    "unat b + unat l = bg_start (ex_bgs e' ! g)" "l \<noteq> len \<longrightarrow> bg_free_blocks (ex_bgs e' ! g) = 0"
    using best_fit_partial_run [OF assms(1,5,6)] by blast
  let ?a = "rm_fresh m"
  have ne: "len \<noteq> 0" and lp: "last_ptr (as @ [?a]) = Some ?a" using assms(5) by (auto simp: last_ptr_def)
  define r where "r = \<lparr>rg_block = b, rg_len = l, rg_bg = g, rg_next = None, rg_prev = None\<rparr>"
  define first' where "first' = (if first = None then Some ?a else first)"
  define m1 where "m1 = snd (new_reg m r)"
  have nr: "new_reg m r = (Some ?a, m1)" by (simp add: m1_def new_reg_def)
  obtain m2 where m2: "(if last_ptr as \<noteq> None
      then bindR (put_reg m1 (last_ptr as) (\<lambda>q. q\<lparr>rg_next := Some ?a\<rparr>)) (\<lambda>m. put_reg m (Some ?a) (\<lambda>q. q\<lparr>rg_prev := last_ptr as\<rparr>))
      else Inr m1) = Inr m2" "built m2 first' (as @ [?a])" "rm_cells m2 ?a = Some (r\<lparr>rg_prev := last_ptr as\<rparr>)"
    "\<forall>x \<in> set as. \<exists>q n. rm_cells m x = Some q \<and> rm_cells m2 x = Some (q\<lparr>rg_next := n\<rparr>)"
    using built_snoc [OF assms(2), of r] unfolding nr fst_conv snd_conv first'_def by (auto simp: r_def)
  have step: "best_fit_loop (Suc fuel) e m len first (last_ptr as) =
      best_fit_loop fuel e' m2 (len - l) first' (last_ptr (as @ [?a]))" for fuel
    by (subst best_fit_loop.simps)
      (simp only: if_not_P [OF ne] nat.case p(1) bindR_simps prod.case option.case r_def [symmetric] nr m2(1) first'_def lp)
  have cb: "cell_blocks m2 ?a = [unat b ..< unat b + unat l]" using m2(3) by (simp add: cell_blocks_def reg_blocks_def r_def)
  have "regions_ok e' m2 as" "exhausted e' m2 as" "\<forall>x \<in> set as. cell_blocks m2 x = cell_blocks m x"
    using regions_ok_relink [OF assms(3,4) m2(4) p(6,13,14)] by simp_all
  moreover from this have "regions_ok e' m2 (as @ [?a])"
    using m2(3) p by (simp add: regions_ok_def) (simp add: r_def region_ok_def)
  moreover have "len - l \<noteq> 0 \<longrightarrow> exhausted e' m2 (as @ [?a])"
    using \<open>exhausted e' m2 as\<close> m2(3) p(16) by (auto simp: exhausted_def r_def)
  ultimately show ?thesis using step p m2(2) cb by (intro exI conjI) (rule allI | assumption | simp)+
qed

lemma best_fit_loop_run:
  assumes "fs_ok N e" "built m first as" "regions_ok e m as" "len \<noteq> 0 \<longrightarrow> exhausted e m as" "unat len \<le> fuel" "unat len \<le> total_free e"
  shows "\<exists>first' m' e' as'. best_fit_loop fuel e m len first (last_ptr as) = Inr (first', m', e') \<and>
    fs_ok N e' \<and> built m' first' (as @ as') \<and> regions_ok e' m' (as @ as') \<and>
    (\<forall>x \<in> set as. cell_blocks m' x = cell_blocks m x) \<and>
    length (chain_blocks m' as') = unat len \<and> distinct (chain_blocks m' as') \<and>
    set (chain_blocks m' as') \<subseteq> fs_free N e \<and> fs_free N e' = fs_free N e - set (chain_blocks m' as')"
  using assms
proof (induction fuel arbitrary: e m first as len)
  case 0
  then have "len = 0" by (simp add: unat_eq_zero)
  then show ?case using 0 by (intro exI [of _ first] exI [of _ m] exI [of _ e] exI [of _ "[]"]) (simp add: best_fit_loop.simps)
next
  case (Suc fuel)
  show ?case
  proof (cases "len = 0")
    case True
    then show ?thesis using Suc.prems
      by (intro exI [of _ first] exI [of _ m] exI [of _ e] exI [of _ "[]"]) (simp add: best_fit_loop.simps)
  next
    case False
    then have len: "0 < len" "0 < unat len" by (simp_all add: word_neq_0_conv unat_gt_0)
    then have tf: "0 < total_free e" using Suc.prems(6) by linarith
    have ex: "exhausted e m as" using Suc.prems(4) False by simp
    let ?a = "rm_fresh m"
    obtain l e1 m1 f1 where s: "\<And>fuel. best_fit_loop (Suc fuel) e m len first (last_ptr as) =
        best_fit_loop fuel e1 m1 (len - l) f1 (last_ptr (as @ [?a]))" "0 < l" "l \<le> len" "fs_ok N e1"
      "built m1 f1 (as @ [?a])" "regions_ok e1 m1 (as @ [?a])" "len - l \<noteq> 0 \<longrightarrow> exhausted e1 m1 (as @ [?a])" "\<forall>x \<in> set as. cell_blocks m1 x = cell_blocks m x"
      "length (cell_blocks m1 ?a) = unat l" "distinct (cell_blocks m1 ?a)" "set (cell_blocks m1 ?a) \<subseteq> fs_free N e"
      "fs_free N e1 = fs_free N e - set (cell_blocks m1 ?a)" "total_free e1 + unat l = total_free e"
      using best_fit_step [OF Suc.prems(1-3) ex len(1) tf] by blast
    have u: "unat (len - l) = unat len - unat l" "0 < unat l" "unat l \<le> unat len"
      using s(2,3) by (simp_all add: unat_sub_le word_le_nat_alt word_less_nat_alt)
    have "unat (len - l) \<le> fuel" "unat (len - l) \<le> total_free e1" using u Suc.prems(5,6) s(13) by linarith+
    then obtain first' m' e' as' where r: "best_fit_loop fuel e1 m1 (len - l) f1 (last_ptr (as @ [?a])) = Inr (first', m', e')"
      "fs_ok N e'" "built m' first' ((as @ [?a]) @ as')" "regions_ok e' m' ((as @ [?a]) @ as')"
      "\<forall>x \<in> set (as @ [?a]). cell_blocks m' x = cell_blocks m1 x" "length (chain_blocks m' as') = unat (len - l)"
      "distinct (chain_blocks m' as')" "set (chain_blocks m' as') \<subseteq> fs_free N e1"
      "fs_free N e' = fs_free N e1 - set (chain_blocks m' as')"
      using Suc.IH [OF s(4-7)] by blast
    have "cell_blocks m' ?a = cell_blocks m1 ?a" using r(5) by simp
    then show ?thesis using s r u by (intro exI [of _ first'] exI [of _ m'] exI [of _ e'] exI [of _ "?a # as'"]) auto
  qed
qed

lemma best_fit_loop_fail:
  assumes "fs_ok N e" "built m first as" "regions_ok e m as" "len \<noteq> 0 \<longrightarrow> exhausted e m as" "unat len \<le> fuel" "total_free e < unat len"
  shows "if ex_force e then \<exists>m' e'. best_fit_loop fuel e m len first (last_ptr as) = Inr (None, m', e') \<and> fs_ok N e' \<and> fs_free N e' = {}
    else best_fit_loop fuel e m len first (last_ptr as) = Inl ErrorExit"
  using assms
proof (induction fuel arbitrary: e m first as len)
  case 0
  then show ?case by simp
next
  case (Suc fuel)
  have len: "0 < len" using Suc.prems(6) by (simp add: word_less_nat_alt)
  show ?case
  proof (cases "total_free e = 0")
    case True
    have run: "best_fit_loop (Suc fuel) e m len first (last_ptr as) = error (ex_force e) (Inr (None, m, e))"
      using less_imp_neq [OF len, symmetric] best_fit_partial_none [OF Suc.prems(1) len True]
      by (subst best_fit_loop.simps) (simp add: error_def)
    have "fs_free N e = {}" using card_fs_free [OF Suc.prems(1)] True by simp
    then show ?thesis using run Suc.prems(1) by (simp add: error_def)
  next
    case False
    then have tf: "0 < total_free e" by simp
    have ex: "exhausted e m as" using Suc.prems(4) len by auto
    obtain l e1 m1 f1 where s: "\<And>fuel. best_fit_loop (Suc fuel) e m len first (last_ptr as) =
        best_fit_loop fuel e1 m1 (len - l) f1 (last_ptr (as @ [rm_fresh m]))" "0 < l" "l \<le> len" "fs_ok N e1"
      "built m1 f1 (as @ [rm_fresh m])" "regions_ok e1 m1 (as @ [rm_fresh m])" "len - l \<noteq> 0 \<longrightarrow> exhausted e1 m1 (as @ [rm_fresh m])" "ex_force e1 = ex_force e"
      "total_free e1 + unat l = total_free e"
      using best_fit_step [OF Suc.prems(1-3) ex len tf] by blast
    have u: "unat (len - l) = unat len - unat l" "0 < unat l" "unat l \<le> unat len"
      using s(2,3) by (simp_all add: unat_sub_le word_le_nat_alt word_less_nat_alt)
    have "unat (len - l) \<le> fuel" "total_free e1 < unat (len - l)" using u Suc.prems(5,6) s(9) by linarith+
    from Suc.IH [OF s(4-7) this] show ?thesis unfolding s(1) s(8) .
  qed
qed

section \<open>Reading an allocation\<close>

lemma block_loop_chain:
  assumes "nchain m p as" "length as \<le> fuel" "k < 2 ^ 32"
  shows "block_loop fuel m p (word_of_nat k) =
    Inr (if k < length (chain_blocks m as) then word_of_nat (chain_blocks m as ! k) else EXT4_ALLOCATE_FAILED)"
  using assms
proof (induction as arbitrary: p k fuel)
  case Nil
  then show ?case by (simp add: block_loop.simps)
next
  case (Cons a as)
  obtain f where f: "fuel = Suc f" using Cons.prems(2) by (cases fuel) auto
  obtain r where r: "p = Some a" "rm_cells m a = Some r" "nchain m (rg_next r) as"
    using Cons.prems(1) by (auto split: option.splits)
  have cb: "cell_blocks m a = reg_blocks r" by (simp add: cell_blocks_def r)
  have u: "unat (word_of_nat k :: u32) = k" using Cons.prems(3) by (simp add: unat_of_nat_u32)
  have lt: "(word_of_nat k :: u32) < rg_len r \<longleftrightarrow> k < unat (rg_len r)" by (simp add: word_less_nat_alt u)
  show ?case
  proof (cases "k < unat (rg_len r)")
    case True
    then show ?thesis using r f lt
      by (subst block_loop.simps) (simp add: get_reg_def cb nth_append reg_blocks_def)
  next
    case False
    have "(word_of_nat k :: u32) - rg_len r = word_of_nat (k - unat (rg_len r))"
      using False by (simp add: of_nat_diff)
    moreover have "block_loop f m (rg_next r) (word_of_nat (k - unat (rg_len r))) =
        Inr (if k - unat (rg_len r) < length (chain_blocks m as)
             then word_of_nat (chain_blocks m as ! (k - unat (rg_len r))) else EXT4_ALLOCATE_FAILED)"
      using Cons.prems f by (intro Cons.IH [OF r(3)]) simp_all
    ultimately show ?thesis using r f lt False
      by (subst block_loop.simps) (auto simp: get_reg_def cb nth_append)
  qed
qed

lemma count_blocks_chain:
  assumes "dchain m q p as" "length as \<le> fuel"
  shows "count_blocks fuel m p i = Inr (i + word_of_nat (length (chain_blocks m as)))"
  using assms
proof (induction as arbitrary: q p i fuel)
  case (Cons a as)
  then obtain f where "fuel = Suc f" by (cases fuel) auto
  then show ?case using Cons
    by (subst count_blocks.simps) (auto simp: get_reg_def cell_blocks_def add.assoc split: option.splits)
qed (simp add: count_blocks.simps)

text \<open>The form in which \<^verbatim>\<open>allocate_blocks\<close> hands out an allocation: every field of the list is its first region.\<close>

definition allocated :: "rmem \<Rightarrow> block_allocation \<Rightarrow> addr list \<Rightarrow> bool" where
  "allocated m alloc as \<longleftrightarrow> as \<noteq> [] \<and> built m (Some (hd as)) as \<and>
     alloc = \<lparr>ba_list = \<lparr>rl_first = Some (hd as), rl_last = Some (hd as), rl_iter = Some (hd as), rl_partial = 0\<rparr>,
              ba_oob = empty_list, ba_filename = None, ba_next = None\<rparr>"

lemma get_block_allocated:
  assumes "allocated m alloc as" "unat k < length (chain_blocks m as)"
  shows "get_block m alloc k = Inr (word_of_nat (chain_blocks m as ! unat k))"
proof -
  have "block_loop (rm_fresh m) m (Some (hd as)) (word_of_nat (unat k)) = Inr (word_of_nat (chain_blocks m as ! unat k))"
    using assms built_length [of m _ as] by (subst block_loop_chain) (auto simp: allocated_def built_def unat_less_u32 dchain_nchain)
  then show ?thesis using assms(1) by (simp add: get_block_def allocated_def)
qed

lemma len_allocated:
  assumes "allocated m alloc as"
  shows "block_allocation_len m alloc = Inr (word_of_nat (length (chain_blocks m as)))"
proof -
  have "count_blocks (rm_fresh m) m (Some (hd as)) 0 = Inr (0 + word_of_nat (length (chain_blocks m as)))"
    using assms built_length [of m _ as] by (intro count_blocks_chain) (auto simp: allocated_def built_def)
  then show ?thesis using assms by (simp add: block_allocation_len_def allocated_def)
qed

lemma allocate_blocks_run:
  assumes "fs_ok N e" "0 < len" "unat len \<le> total_free e"
  shows "\<exists>alloc m' e' as. allocate_blocks e m len = Inr (Some alloc, m', e') \<and> allocated m' alloc as \<and>
    fs_ok N e' \<and> regions_ok e' m' as \<and> length (chain_blocks m' as) = unat len \<and> distinct (chain_blocks m' as) \<and>
    set (chain_blocks m' as) \<subseteq> fs_free N e \<and> fs_free N e' = fs_free N e - set (chain_blocks m' as)"
proof -
  have b: "built m None []" "regions_ok e m []" "len \<noteq> 0 \<longrightarrow> exhausted e m []" by (simp_all add: built_def regions_ok_def exhausted_def)
  obtain first m' e' as where r: "ext4_allocate_best_fit e m len = Inr (first, m', e')" "fs_ok N e'" "built m' first as"
    "regions_ok e' m' as" "length (chain_blocks m' as) = unat len" "distinct (chain_blocks m' as)"
    "set (chain_blocks m' as) \<subseteq> fs_free N e" "fs_free N e' = fs_free N e - set (chain_blocks m' as)"
    using best_fit_loop_run [OF assms(1) b order_refl assms(3)] by (auto simp: ext4_allocate_best_fit_def last_ptr_def)
  have ne: "as \<noteq> []" using r(5) assms(2) by (auto simp: word_less_nat_alt)
  then have "first = Some (hd as)" using r(3) by (cases as) (auto simp: built_def)
  then show ?thesis using r ne by (auto simp: allocate_blocks_def allocated_def create_allocation_def)
qed

lemma allocate_blocks_fail:
  assumes "fs_ok N e" "total_free e < unat len"
  shows "if ex_force e then \<exists>m' e'. allocate_blocks e m len = Inr (None, m', e') \<and> fs_ok N e' \<and> fs_free N e' = {}
    else allocate_blocks e m len = Inl ErrorExit"
proof -
  have b: "built m None []" "regions_ok e m []" "len \<noteq> 0 \<longrightarrow> exhausted e m []" by (simp_all add: built_def regions_ok_def exhausted_def)
  show ?thesis using best_fit_loop_fail [OF assms(1) b order_refl assms(2)]
    by (cases "ex_force e") (auto simp: allocate_blocks_def ext4_allocate_best_fit_def last_ptr_def)
qed

lemma allocate_blocks_shape:
  assumes "fs_ok N e" "0 < len" "allocate_blocks e m len = Inr (Some alloc, m', e')"
  obtains as where "allocated m' alloc as" "fs_ok N e'" "regions_ok e' m' as" "length (chain_blocks m' as) = unat len"
proof (cases "unat len \<le> total_free e")
  case True
  then show ?thesis using allocate_blocks_run [OF assms(1,2) True, of m] assms(3) that by auto
next
  case False
  then show ?thesis using allocate_blocks_fail [OF assms(1), of len m] assms(3) by (cases "ex_force e") auto
qed

text \<open>
  C8. On a file system whose groups are in order, a request for \<open>len\<close> blocks is met whenever that many blocks are
  free: the allocation has \<open>len\<close> different blocks, all free before, all taken after, no other block changes, and
  the blocks are read back in order.  When fewer are free, the program leaves by its error handler; with the
  option to go on, no allocation is returned but every free block is gone.  The search always ends.
\<close>

theorem allocate_blocks_exact:
  assumes "fs_ok N e" "0 < len"
  shows "if unat len \<le> card (fs_free N e)
    then \<exists>alloc m' e' bs. allocate_blocks e m len = Inr (Some alloc, m', e') \<and> fs_ok N e' \<and>
      length bs = unat len \<and> distinct bs \<and> set bs \<subseteq> fs_free N e \<and> fs_free N e' = fs_free N e - set bs \<and>
      (\<forall>k. unat k < unat len \<longrightarrow> get_block m' alloc k = Inr (word_of_nat (bs ! unat k))) \<and>
      block_allocation_len m' alloc = Inr len
    else if ex_force e then \<exists>m' e'. allocate_blocks e m len = Inr (None, m', e') \<and> fs_ok N e' \<and> fs_free N e' = {}
    else allocate_blocks e m len = Inl ErrorExit"
proof (cases "unat len \<le> total_free e")
  case True
  obtain alloc m' e' as where r: "allocate_blocks e m len = Inr (Some alloc, m', e')" "allocated m' alloc as"
    "fs_ok N e'" "length (chain_blocks m' as) = unat len" "distinct (chain_blocks m' as)"
    "set (chain_blocks m' as) \<subseteq> fs_free N e" "fs_free N e' = fs_free N e - set (chain_blocks m' as)"
    using allocate_blocks_run [OF assms True] by blast
  have "\<forall>k. unat k < unat len \<longrightarrow> get_block m' alloc k = Inr (word_of_nat (chain_blocks m' as ! unat k))"
    using get_block_allocated [OF r(2)] r(4) by simp
  moreover have "block_allocation_len m' alloc = Inr len" using len_allocated [OF r(2)] r(4) by simp
  ultimately show ?thesis using True r unfolding card_fs_free [OF assms(1)] by (simp only: if_True) blast
next
  case False
  then show ?thesis using allocate_blocks_fail [OF assms(1), of len m] unfolding card_fs_free [OF assms(1)] by simp
qed

section \<open>Example\<close>

text \<open>Two groups of 32 blocks, 29 of them free in each; a request for 40 blocks has two regions.\<close>

definition demo_fs :: ext4 where
  "demo_fs = \<lparr>ex_info = \<lparr>fi_len = 65536, fi_block_size = 1024, fi_blocks_per_group = 32, fi_inodes_per_group = 8, fi_inode_size = 256,
      fi_feat_ro_compat = 1, fi_bg_desc_reserve_blocks = 0\<rparr>,
    ex_force = False, ex_first_data_block = 0, ex_len_blocks = 64, ex_inode_table_blocks = 2, ex_groups = 2, ex_bg_desc_blocks = 1,
    ex_bgs = [demo_group, demo_group\<lparr>bg_first_block := 32\<rparr>], ex_queue = []\<rparr>"

definition demo_mem :: rmem where
  "demo_mem = \<lparr>rm_cells = Map.empty, rm_fresh = 0\<rparr>"

lemma demo_group_simps:
  "length (bg_bitmaps demo_group) = 4" "bg_free_blocks demo_group = 29" "bg_first_free_block demo_group = 3"
  "bg_first_block demo_group = 0"
  by (simp_all add: demo_group_def zero_bg_def)

lemma demo_fs_ok: "fs_ok 32 demo_fs"
proof -
  have "bg_ok 32 demo_group" by (auto simp: bg_ok_def demo_group_bits demo_group_simps)
  moreover from this have "bg_ok 32 (demo_group\<lparr>bg_first_block := 32\<rparr>)" by (simp add: bg_ok_def)
  ultimately show ?thesis by (auto simp: fs_ok_def demo_fs_def demo_group_simps less_Suc_eq)
qed

lemma demo_fs_card: "card (fs_free 32 demo_fs) = 58"
proof -
  have "total_free demo_fs = 58" by (simp add: total_free_def demo_fs_def demo_group_simps lessThan_Suc)
  then show ?thesis by (simp add: card_fs_free [OF demo_fs_ok])
qed

theorem allocate_blocks_exact_witness:
  "\<exists>alloc m' e' bs. allocate_blocks demo_fs demo_mem 40 = Inr (Some alloc, m', e') \<and> length bs = 40 \<and> distinct bs \<and>
    set bs \<subseteq> fs_free 32 demo_fs \<and> fs_free 32 e' = fs_free 32 demo_fs - set bs"
  using allocate_blocks_exact [OF demo_fs_ok, of 40 demo_mem] by (auto simp: demo_fs_card)

end
