(* ===== verification/Ext4_Super.thy ===== *)
theory Ext4_Super
  imports Ext4_Layout Ext4_Regions Crc
begin

text \<open>
  The superblock and the group descriptors: \<^verbatim>\<open>ext4_fill_in_sb\<close>, \<^verbatim>\<open>ext4_update_free\<close>, \<^verbatim>\<open>ext4_queue_sb\<close> and
  \<^verbatim>\<open>ext4_parse_sb_info\<close> of \<^verbatim>\<open>ext4_utils/ext4_utils.c\<close>, and \<^verbatim>\<open>ext4_parse_sb\<close> of \<^verbatim>\<open>ext4_sb.c\<close>.  Of the superblock the fields
  that carry a value of their own; those that are set to a constant are left out, as are the label and the
  copy of the journal inode.  The unique number of the file system is a parameter.
\<close>

section \<open>Data on disk\<close>

record ext4_super_block =
  s_inodes_count :: u32
  s_blocks_count_lo :: u32
  s_free_blocks_count_lo :: u32
  s_free_inodes_count :: u32
  s_first_data_block :: u32
  s_log_block_size :: u32
  s_blocks_per_group :: u32
  s_inodes_per_group :: u32
  s_magic :: u16
  s_state :: u16
  s_inode_size :: u16
  s_block_group_nr :: u16
  s_feature_compat :: u32
  s_feature_incompat :: u32
  s_feature_ro_compat :: u32
  s_uuid :: "byte list"
  s_reserved_gdt_blocks :: u16
  s_journal_inum :: u32
  s_blocks_count_hi :: u32

record ext2_group_desc =
  gd_block_bitmap :: u32
  gd_inode_bitmap :: u32
  gd_inode_table :: u32
  gd_free_blocks_count :: u16
  gd_free_inodes_count :: u16
  gd_used_dirs_count :: u16
  gd_flags :: u16
  gd_checksum :: u16

definition zero_desc :: ext2_group_desc where
  "zero_desc = \<lparr>gd_block_bitmap = 0, gd_inode_bitmap = 0, gd_inode_table = 0, gd_free_blocks_count = 0, gd_free_inodes_count = 0,
     gd_used_dirs_count = 0, gd_flags = 0, gd_checksum = 0\<rparr>"

text \<open>A descriptor up to its checksum.\<close>

definition desc_bytes :: "ext2_group_desc \<Rightarrow> byte list" where
  "desc_bytes d = u32_le (gd_block_bitmap d) @ u32_le (gd_inode_bitmap d) @ u32_le (gd_inode_table d) @
     u16_le (gd_free_blocks_count d) @ u16_le (gd_free_inodes_count d) @ u16_le (gd_used_dirs_count d) @ u16_le (gd_flags d) @
     replicate 10 0"

section \<open>Filling in\<close>

fun log_2_loop :: "int \<Rightarrow> int \<Rightarrow> int" where
  "log_2_loop j i = (if j > 0 then log_2_loop (j div 2) (i + 1) else i)"

declare log_2_loop.simps [simp del]

definition log_2 :: "int \<Rightarrow> int" where
  "log_2 j = log_2_loop j 0 - 1"

definition group_start :: "ext4 \<Rightarrow> nat \<Rightarrow> u32" where
  "group_start e i = ex_first_data_block e + word_of_nat i * fi_blocks_per_group (ex_info e)"

text \<open>One group: the backups it carries and its descriptor.\<close>

definition fill_group :: "ext4_super_block \<Rightarrow> ext2_group_desc list \<Rightarrow> ext4 \<Rightarrow> nat \<Rightarrow> (ext2_group_desc list \<times> ext4) res" where
  "fill_group sb descs e i =
    (let info = ex_info e; start = group_start e i in
     bindR (ext4_bg_has_super_block info (int i)) (\<lambda>super.
     let backup = (if super \<and> i \<noteq> 0 then [(Super_Block i, fi_block_size info, start)] else []);
         gdt = (if super then [(Group_Descriptors, ex_bg_desc_blocks e * fi_block_size info, start + 1)] else []);
         header_size = (if super then 1 + ex_bg_desc_blocks e + fi_bg_desc_reserve_blocks info else 0)
     in
     bindR (assertR (i < length descs) OutOfBounds) (\<lambda>_.
       Inr (descs[i := (descs ! i)\<lparr>gd_block_bitmap := start + header_size, gd_inode_bitmap := start + header_size + 1,
              gd_inode_table := start + header_size + 2, gd_free_blocks_count := ucast (s_blocks_per_group sb),
              gd_free_inodes_count := ucast (s_inodes_per_group sb), gd_used_dirs_count := 0\<rparr>],
            e\<lparr>ex_queue := ex_queue e @ backup @ gdt\<rparr>))))"

primrec fill_groups :: "nat \<Rightarrow> ext4_super_block \<Rightarrow> ext2_group_desc list \<Rightarrow> ext4 \<Rightarrow> (ext2_group_desc list \<times> ext4) res" where
  "fill_groups 0 sb descs e = Inr (descs, e)"
| "fill_groups (Suc n) sb descs e = bindR (fill_groups n sb descs e) (\<lambda>(descs, e). fill_group sb descs e n)"

text \<open>The descriptors as \<^verbatim>\<open>ext4_create_fs_aux_info\<close> allocates them.\<close>

definition new_descs :: "ext4 \<Rightarrow> ext2_group_desc list" where
  "new_descs e = replicate (unat (fi_block_size (ex_info e)) * unat (ex_bg_desc_blocks e) div 32) zero_desc"

definition super_block_of :: "fs_opts \<Rightarrow> byte list \<Rightarrow> ext4 \<Rightarrow> ext4_super_block" where
  "super_block_of opts uuid e =
    \<lparr>s_inodes_count = fi_inodes_per_group (ex_info e) * ex_groups e, s_blocks_count_lo = ucast (ex_len_blocks e), s_free_blocks_count_lo = 0,
     s_free_inodes_count = 0, s_first_data_block = ex_first_data_block e,
     s_log_block_size = word_of_int (log_2 (uint (fi_block_size (ex_info e) div 1024))),
     s_blocks_per_group = fi_blocks_per_group (ex_info e), s_inodes_per_group = fi_inodes_per_group (ex_info e),
     s_magic = 0xEF53, s_state = 1, s_inode_size = ucast (fi_inode_size (ex_info e)), s_block_group_nr = 0,
     s_feature_compat = ucast (fo_feat_compat opts), s_feature_incompat = ucast (fo_feat_incompat opts),
     s_feature_ro_compat = ucast (fi_feat_ro_compat (ex_info e)), s_uuid = uuid,
     s_reserved_gdt_blocks = ucast (fi_bg_desc_reserve_blocks (ex_info e)),
     s_journal_inum = (if fo_feat_compat opts AND 4 \<noteq> 0 then 8 else 0),
     s_blocks_count_hi = ucast (drop_bit 32 (ex_len_blocks e))\<rparr>"

definition ext4_fill_in_sb :: "fs_opts \<Rightarrow> byte list \<Rightarrow> ext4 \<Rightarrow> (ext4_super_block \<times> ext2_group_desc list \<times> ext4) res" where
  "ext4_fill_in_sb opts uuid e =
    (let sb = super_block_of opts uuid e in
     bindR (fill_groups (unat (ex_groups e)) sb (new_descs e) e) (\<lambda>(descs, e). Inr (sb, descs, e)))"

definition ext4_queue_sb :: "ext4 \<Rightarrow> ext4" where
  "ext4_queue_sb e =
    (if fi_block_size (ex_info e) > 1024 then e\<lparr>ex_queue := ex_queue e @ [(Super_Block 0, fi_block_size (ex_info e), 0)]\<rparr>
     else e\<lparr>ex_queue := ex_queue e @ [(Super_Block 0, 1024, 1)]\<rparr>)"

section \<open>Free blocks and inodes\<close>

definition update_group :: "ext4 \<Rightarrow> ext4_super_block \<Rightarrow> ext2_group_desc list \<Rightarrow> nat \<Rightarrow> (ext4_super_block \<times> ext2_group_desc list) res" where
  "update_group e sb descs i =
    bindR (get_free_blocks e i) (\<lambda>free_blocks.
    bindR (get_free_inodes e i) (\<lambda>free_inodes.
    bindR (get_directories e i) (\<lambda>dirs.
    bindR (get_bg_flags e i) (\<lambda>flags.
    bindR (assertR (i < length descs) OutOfBounds) (\<lambda>_.
    let d = (descs ! i)\<lparr>gd_free_blocks_count := ucast free_blocks, gd_free_inodes_count := ucast free_inodes,
              gd_used_dirs_count := gd_used_dirs_count (descs ! i) + dirs, gd_flags := flags\<rparr>;
        crc = ext4_crc16 (ext4_crc16 (ext4_crc16 0xFFFF (s_uuid sb)) (u32_le (word_of_nat i))) (desc_bytes d)
    in Inr (sb\<lparr>s_free_blocks_count_lo := s_free_blocks_count_lo sb + free_blocks,
               s_free_inodes_count := s_free_inodes_count sb + free_inodes\<rparr>,
            descs[i := d\<lparr>gd_checksum := crc\<rparr>]))))))"

primrec update_groups :: "nat \<Rightarrow> ext4 \<Rightarrow> ext4_super_block \<Rightarrow> ext2_group_desc list \<Rightarrow> (ext4_super_block \<times> ext2_group_desc list) res" where
  "update_groups 0 e sb descs = Inr (sb, descs)"
| "update_groups (Suc n) e sb descs = bindR (update_groups n e sb descs) (\<lambda>(sb, descs). update_group e sb descs n)"

definition ext4_update_free :: "ext4 \<Rightarrow> ext4_super_block \<Rightarrow> ext2_group_desc list \<Rightarrow> (ext4_super_block \<times> ext2_group_desc list) res" where
  "ext4_update_free e sb descs = update_groups (unat (ex_groups e)) e sb descs"

section \<open>Reading a superblock\<close>

definition ext4_parse_sb :: "ext4_super_block \<Rightarrow> fs_opts \<Rightarrow> (int \<times> fs_opts) res" where
  "ext4_parse_sb sb opts =
    (if s_magic sb \<noteq> 0xEF53 then Inr (- 22, opts)
     else if s_state sb AND 1 \<noteq> 1 then Inr (- 22, opts)
     else
       bindR (assertR (s_log_block_size sb < 32) BadShift) (\<lambda>_.
       let block_size = push_bit (unat (s_log_block_size sb)) 1024 :: u32;
           len_blocks = push_bit 32 (ucast (s_blocks_count_hi sb)) + ucast (s_blocks_count_lo sb) :: u64
       in Inr (0, opts\<lparr>fo_info := (fo_info opts)\<lparr>fi_len := sint (ucast block_size * len_blocks), fi_block_size := block_size,
            fi_blocks_per_group := s_blocks_per_group sb, fi_inodes_per_group := s_inodes_per_group sb,
            fi_inode_size := ucast (s_inode_size sb), fi_feat_ro_compat := ucast (s_feature_ro_compat sb),
            fi_bg_desc_reserve_blocks := ucast (s_reserved_gdt_blocks sb)\<rparr>,
          fo_inodes := s_inodes_count sb, fo_feat_compat := ucast (s_feature_compat sb),
          fo_feat_incompat := ucast (s_feature_incompat sb)\<rparr>)))"

definition ext4_parse_sb_info :: "ext4_super_block \<Rightarrow> fs_opts \<Rightarrow> ext4 \<Rightarrow> (fs_opts \<times> ext4) res" where
  "ext4_parse_sb_info sb opts e =
    bindR (if s_magic sb \<noteq> 0xEF53 then error (ex_force e) (Inr ()) else Inr ()) (\<lambda>_.
    bindR (if s_state sb AND 1 \<noteq> 1 then error (ex_force e) (Inr ()) else Inr ()) (\<lambda>_.
    bindR (ext4_parse_sb sb opts) (\<lambda>(_, opts).
    bindR (ext4_create_fs_aux_info (e\<lparr>ex_info := fo_info opts\<rparr>)) (\<lambda>e.
    bindR (assertR (ex_first_data_block e = s_first_data_block sb) ErrorExit) (\<lambda>_. Inr (opts, e))))))"

section \<open>Writing and reading a superblock\<close>

lemma log_2_loop_power: "log_2_loop (2 ^ k) i = i + int k + 1"
proof (induction k arbitrary: i)
  case (Suc k)
  have "log_2_loop (2 ^ Suc k) i = log_2_loop (2 ^ k) (i + 1)" by (subst log_2_loop.simps) simp
  then show ?case by (simp add: Suc.IH)
qed (simp add: log_2_loop.simps)

lemma log_2_power: "log_2 (2 ^ k) = int k"
  by (simp add: log_2_def log_2_loop_power)

lemma block_size_log:
  assumes "k < 22"
  shows "uint (push_bit k 1024 div 1024 :: u32) = 2 ^ k"
proof -
  have "push_bit k 1024 = (2 ^ (10 + k) :: u32)" by (simp add: push_bit_eq_mult power_add)
  then have "unat (push_bit k 1024 :: u32) = 2 ^ k * 1024" using assms unat_exp_u32 [of "10 + k"] by (simp add: power_add)
  then have "unat (push_bit k 1024 div 1024 :: u32) = 2 ^ k" by (simp add: unat_div)
  then have "int (unat (push_bit k 1024 div 1024 :: u32)) = 2 ^ k" by (simp only: of_nat_power of_nat_numeral)
  then show ?thesis by (simp only: of_nat_unat)
qed

lemma split_u64: "push_bit 32 (ucast (ucast (drop_bit 32 w) :: u32)) + ucast (ucast w :: u32) = (w :: u64)"
proof -
  have "ucast (ucast (drop_bit 32 w) :: u32) = drop_bit 32 w" by (rule bit_word_eqI) (auto simp: bit_simps dest: bit_imp_le_length)
  moreover have "(ucast (ucast w :: u32) :: u64) = take_bit 32 w" by (rule bit_word_eqI) (auto simp: bit_simps)
  ultimately show ?thesis by (simp add: bits_ident)
qed

lemma parse_super_block_of:
  assumes "fi_block_size (ex_info e) = push_bit k 1024" "k < 22" "unat (fi_inode_size (ex_info e)) < 2 ^ 16"
    "unat (fi_bg_desc_reserve_blocks (ex_info e)) < 2 ^ 16" "unat (fi_block_size (ex_info e)) * unat (ex_len_blocks e) < 2 ^ 63"
  shows "ext4_parse_sb (super_block_of opts uuid e) opts' = Inr (0, opts'\<lparr>
    fo_info := (ex_info e)\<lparr>fi_len := int (unat (fi_block_size (ex_info e)) * unat (ex_len_blocks e))\<rparr>,
    fo_inodes := fi_inodes_per_group (ex_info e) * ex_groups e, fo_feat_compat := fo_feat_compat opts,
    fo_feat_incompat := fo_feat_incompat opts\<rparr>)"
proof -
  let ?bs = "fi_block_size (ex_info e)"
  have lg: "word_of_int (log_2 (uint (?bs div 1024))) = (word_of_nat k :: u32)"
    unfolding assms(1) block_size_log [OF assms(2)] log_2_power by simp
  have k: "unat (word_of_nat k :: u32) = k" using assms(2) by (simp add: unat_of_nat_u32)
  then have k32: "(word_of_nat k :: u32) < 32" using assms(2) by (simp add: word_less_nat_alt)
  have "unat (ucast ?bs * ex_len_blocks e) = unat ?bs * unat (ex_len_blocks e)"
    using assms(5) by (subst unat_mult_lem [THEN iffD1]) (simp_all add: unat_ucast_u64)
  then have "uint (ucast ?bs * ex_len_blocks e) = int (unat ?bs * unat (ex_len_blocks e))" by (metis of_nat_unat)
  then have len: "sint (ucast ?bs * ex_len_blocks e) = int (unat ?bs * unat (ex_len_blocks e))"
    using assms(5) by (simp add: sint_uint signed_take_bit_int_eq_self del: of_nat_mult)
  have c: "ucast (ucast (fi_inode_size (ex_info e)) :: u16) = fi_inode_size (ex_info e)"
    "ucast (ucast (fi_bg_desc_reserve_blocks (ex_info e)) :: u16) = fi_bg_desc_reserve_blocks (ex_info e)"
    using assms(3,4) by (simp_all add: word_unat_eq_iff unsigned_ucast_eq unsigned_take_bit_eq take_bit_nat_eq_self)
  have f: "ucast (ucast f :: u32) = f" for f :: u16 by (rule bit_word_eqI) (simp add: bit_simps)
  show ?thesis
    unfolding ext4_parse_sb_def super_block_of_def Let_def ext4_super_block.simps lg k split_u64 c f assms(1) [symmetric] len
    using k32 by (cases "ex_info e", cases "fo_info opts'") simp
qed

section \<open>Descriptors\<close>

text \<open>What precedes the bitmaps of a group.\<close>

definition pre_header :: "ext4 \<Rightarrow> nat \<Rightarrow> u32" where
  "pre_header e i = (if ext4_bg_has_super_block (ex_info e) (int i) = Inr True
     then 1 + ex_bg_desc_blocks e + fi_bg_desc_reserve_blocks (ex_info e) else 0)"

lemma fill_group_run:
  assumes "n < length ds"
  shows "\<exists>d q. fill_group sb ds e n = Inr (ds[n := d], e\<lparr>ex_queue := ex_queue e @ q\<rparr>) \<and>
    gd_block_bitmap d = group_start e n + pre_header e n \<and> gd_inode_bitmap d = group_start e n + pre_header e n + 1 \<and>
    gd_inode_table d = group_start e n + pre_header e n + 2"
proof -
  obtain s where s: "ext4_bg_has_super_block (ex_info e) (int n) = Inr s" using has_super_block_cases [of "int n"] by auto
  then have p: "pre_header e n = (if s then 1 + ex_bg_desc_blocks e + fi_bg_desc_reserve_blocks (ex_info e) else 0)" by (simp add: pre_header_def)
  show ?thesis unfolding p by (intro exI conjI) (simp add: fill_group_def Let_def s assms, simp_all)
qed

lemma fill_groups_run:
  assumes "n \<le> length descs"
  shows "\<exists>descs' q. fill_groups n sb descs e = Inr (descs', e\<lparr>ex_queue := ex_queue e @ q\<rparr>) \<and> length descs' = length descs \<and>
    (\<forall>i < n. gd_block_bitmap (descs' ! i) = group_start e i + pre_header e i \<and>
      gd_inode_bitmap (descs' ! i) = group_start e i + pre_header e i + 1 \<and>
      gd_inode_table (descs' ! i) = group_start e i + pre_header e i + 2)"
  using assms
proof (induction n)
  case 0
  then show ?case by (intro exI [of _ descs] exI [of _ "[]"]) simp
next
  case (Suc n)
  then obtain ds q where ih: "fill_groups n sb descs e = Inr (ds, e\<lparr>ex_queue := ex_queue e @ q\<rparr>)" "length ds = length descs"
    "\<forall>i < n. gd_block_bitmap (ds ! i) = group_start e i + pre_header e i \<and>
      gd_inode_bitmap (ds ! i) = group_start e i + pre_header e i + 1 \<and>
      gd_inode_table (ds ! i) = group_start e i + pre_header e i + 2"
    by auto
  have eq: "group_start (e\<lparr>ex_queue := q\<rparr>) = group_start e" "pre_header (e\<lparr>ex_queue := q\<rparr>) = pre_header e" for q
    by (simp_all add: group_start_def pre_header_def fun_eq_iff)
  obtain d q' where d: "fill_group sb ds (e\<lparr>ex_queue := ex_queue e @ q\<rparr>) n = Inr (ds[n := d], e\<lparr>ex_queue := ex_queue e @ q @ q'\<rparr>)"
    "gd_block_bitmap d = group_start e n + pre_header e n" "gd_inode_bitmap d = group_start e n + pre_header e n + 1"
    "gd_inode_table d = group_start e n + pre_header e n + 2"
    using fill_group_run [of n ds sb "e\<lparr>ex_queue := ex_queue e @ q\<rparr>"] ih(2) Suc.prems by (auto simp: eq)
  show ?case using ih d Suc.prems
    by (intro exI [of _ "ds[n := d]"] exI [of _ "q @ q'"]) (simp add: nth_list_update less_Suc_eq)
qed

lemma reserve_blocks_keeps:
  "reserve_blocks force bg start num = Inr (r, bg') \<Longrightarrow>
    bg_first_block bg' = bg_first_block bg \<and> bg_has_superblock bg' = bg_has_superblock bg \<and> bg_inode_table bg' = bg_inode_table bg"
proof (cases "num > bg_free_blocks bg")
  case False
  assume "reserve_blocks force bg start num = Inr (r, bg')"
  moreover from this False obtain ok bm where "reserve_bits (bg_bitmaps bg) start num = Inr (ok, bm)"
    by (cases "reserve_bits (bg_bitmaps bg) start num") (auto simp: reserve_blocks_def)
  ultimately show ?thesis using False by (cases ok; cases force) (auto simp: reserve_blocks_def error_def)
qed (simp add: reserve_blocks_def)

text \<open>A group after \<^verbatim>\<open>init_bg\<close>: where it begins, whether it has a superblock, and where its bitmaps go.\<close>

definition placed :: "ext4 \<Rightarrow> nat \<Rightarrow> block_group_info \<Rightarrow> bool" where
  "placed e i bg \<longleftrightarrow> bg_first_block bg = group_start e i \<and> \<not> bg_inode_table bg \<and>
     bg_has_superblock bg = (ext4_bg_has_super_block (ex_info e) (int i) = Inr True)"

lemma init_bg_places:
  assumes "init_bg e i = Inr e'" "i < length (ex_bgs e)" "\<not> bg_inode_table (ex_bgs e ! i)"
  shows "\<exists>bg. placed e i bg \<and> e' = set_bg (e\<lparr>ex_queue := ex_queue e @
    [(Bitmaps i, 2 * fi_block_size (ex_info e), group_start e i + pre_header e i)]\<rparr>) i bg"
proof -
  obtain s where s: "ext4_bg_has_super_block (ex_info e) (int i) = Inr s" using has_super_block_cases [of "int i"] by auto
  let ?n = "fi_blocks_per_group (ex_info e)"
  define h where "h = 2 + ex_inode_table_blocks e + (if s then 1 + ex_bg_desc_blocks e + fi_bg_desc_reserve_blocks (ex_info e) else 0)"
  define E where "E = e\<lparr>ex_queue := ex_queue e @ [(Bitmaps i, 2 * fi_block_size (ex_info e), group_start e i + pre_header e i)]\<rparr>"
  define bg0 where "bg0 = (ex_bgs e ! i)\<lparr>bg_has_superblock := s, bg_bitmaps := replicate (2 * unat (fi_block_size (ex_info e))) 0,
      bg_header_blocks := h, bg_first_block := group_start e i, bg_data_blocks_used := 0, bg_free_blocks := ?n, bg_first_free_block := 0,
      bg_free_inodes := fi_inodes_per_group (ex_info e), bg_first_free_inode := 1, bg_flags := 1\<rparr>"
  define ov where "ov = (ucast (ucast (group_start e i + ?n) - ex_len_blocks e) :: u32)"
  have run: "init_bg e i = bindR (reserve_blocks (ex_force e) bg0 0 h) (\<lambda>(r, bg).
      bindR (if r < 0 then error (ex_force e) (Inr ()) else Inr ()) (\<lambda>_.
      if ucast (group_start e i + ?n) > ex_len_blocks e
      then bindR (reserve_blocks (ex_force e) bg (?n - ov) ov) (\<lambda>(r, bg). Inr (set_bg E i bg)) else Inr (set_bg E i bg)))"
    using assms(2) s
    by (cases s) (simp_all add: init_bg_def get_bg_def Let_def group_start_def pre_header_def bg0_def h_def E_def ov_def case_prod_unfold cong: if_cong)
  obtain r1 bg1 where 1: "reserve_blocks (ex_force e) bg0 0 h = Inr (r1, bg1)"
    using assms(1) unfolding run bindR_eq_Inr_iff by auto
  obtain bg where bg: "e' = set_bg E i bg" "bg = bg1 \<or> (\<exists>r. reserve_blocks (ex_force e) bg1 (?n - ov) ov = Inr (r, bg))"
  proof -
    have "bindR (if r1 < 0 then error (ex_force e) (Inr ()) else Inr ()) (\<lambda>_. if ucast (group_start e i + ?n) > ex_len_blocks e
        then bindR (reserve_blocks (ex_force e) bg1 (?n - ov) ov) (\<lambda>(r, bg). Inr (set_bg E i bg)) else Inr (set_bg E i bg1)) = Inr e'"
      using assms(1) unfolding run 1 by (simp only: bindR_simps prod.case)
    then show thesis
      using that [OF _ disjI1 [OF refl]] that [OF _ disjI2] unfolding bindR_eq_Inr_iff by (cases "ucast (group_start e i + ?n) > ex_len_blocks e") (auto simp: bindR_eq_Inr_iff)
  qed
  have "placed e i bg0" using assms(3) s by (simp add: placed_def bg0_def)
  then have "placed e i bg1" using reserve_blocks_keeps [OF 1] by (simp add: placed_def)
  moreover have "placed e i bg" if "placed e i bg1" "reserve_blocks (ex_force e) bg1 (?n - ov) ov = Inr (r, bg)" for r
    using reserve_blocks_keeps [OF that(2)] that(1) by (simp add: placed_def)
  ultimately have "placed e i bg" using bg(2) by blast
  then show ?thesis using bg(1) unfolding E_def by (intro exI [of _ bg] conjI)
qed

lemma init_groups_places:
  assumes "init_groups n e = Inr e'" "n \<le> length (ex_bgs e)" "\<forall>i < length (ex_bgs e). \<not> bg_inode_table (ex_bgs e ! i)"
  shows "same_geometry e e' \<and> length (ex_bgs e') = length (ex_bgs e) \<and>
    (\<forall>i < length (ex_bgs e). \<not> bg_inode_table (ex_bgs e' ! i)) \<and>
    (\<forall>i < n. placed e i (ex_bgs e' ! i) \<and> (Bitmaps i, 2 * fi_block_size (ex_info e), group_start e i + pre_header e i) \<in> set (ex_queue e'))"
  using assms(1,2)
proof (induction n arbitrary: e')
  case 0
  then show ?case using assms(3) by (simp add: same_geometry_def)
next
  case (Suc n)
  obtain e1 where e1: "init_groups n e = Inr e1" "init_bg e1 n = Inr e'" using Suc.prems(1) by (auto simp: bindR_eq_Inr_iff)
  note ih = Suc.IH [OF e1(1) Suc_leD [OF Suc.prems(2)]]
  have sg: "same_geometry e e1" "length (ex_bgs e1) = length (ex_bgs e)" "\<not> bg_inode_table (ex_bgs e1 ! n)"
    using ih Suc.prems(2) by auto
  then have eq: "group_start e1 = group_start e" "pre_header e1 = pre_header e" "placed e1 = placed e" "ex_info e1 = ex_info e"
    by (auto simp: same_geometry_def group_start_def pre_header_def placed_def fun_eq_iff)
  obtain bg where bg: "placed e n bg" "e' = set_bg (e1\<lparr>ex_queue := ex_queue e1 @
      [(Bitmaps n, 2 * fi_block_size (ex_info e), group_start e n + pre_header e n)]\<rparr>) n bg"
    using init_bg_places [OF e1(2) _ sg(3)] sg(2) Suc.prems(2) unfolding eq by auto
  have nt: "\<not> bg_inode_table bg" using bg(1) by (simp add: placed_def)
  let ?B = "\<lambda>i. (Bitmaps i, 2 * fi_block_size (ex_info e), group_start e i + pre_header e i)"
  have b: "ex_bgs e' = (ex_bgs e1)[n := bg]" "ex_queue e' = ex_queue e1 @ [?B n]" "same_geometry e e'"
    using bg(2) sg(1) by (simp_all add: set_bg_def same_geometry_def)
  have "placed e i (ex_bgs e' ! i) \<and> ?B i \<in> set (ex_queue e')" if i: "i < Suc n" for i
    using ih bg(1) i Suc.prems(2) sg(2) unfolding b by (cases "i = n") simp_all
  moreover have "\<not> bg_inode_table (ex_bgs e' ! i)" if "i < length (ex_bgs e)" for i
    using ih nt that sg(2) unfolding b(1) by (cases "i = n") simp_all
  ultimately show ?case using b(3) sg(2) by (simp add: b(1))
qed

lemma inode_table_placed:
  assumes "i < length (ex_bgs e')" "placed e i (ex_bgs e' ! i)" "same_geometry e e'"
  shows "\<exists>e3. allocate_bg_inode_table e' i = Inr e3 \<and> ex_queue e3 = ex_queue e' @
    [(Inode_Table i, ex_inode_table_blocks e * fi_block_size (ex_info e), group_start e i + pre_header e i + 2)]"
proof -
  have p: "bg_first_block (ex_bgs e' ! i) = group_start e i" "\<not> bg_inode_table (ex_bgs e' ! i)"
    "bg_has_superblock (ex_bgs e' ! i) = (ext4_bg_has_super_block (ex_info e) (int i) = Inr True)"
    using assms(2) by (simp_all add: placed_def)
  have "ex_info e' = ex_info e" "ex_inode_table_blocks e' = ex_inode_table_blocks e" "ex_bg_desc_blocks e' = ex_bg_desc_blocks e"
    using assms(3) by (simp_all add: same_geometry_def)
  then show ?thesis using assms(1) p
    by (cases "ext4_bg_has_super_block (ex_info e) (int i) = Inr True")
      (simp_all add: allocate_bg_inode_table_def get_bg_def set_bg_def Let_def pre_header_def algebra_simps)
qed

definition described :: "ext4 \<Rightarrow> ext4 \<Rightarrow> nat \<Rightarrow> ext2_group_desc \<Rightarrow> bool" where
  "described e e2 i d \<longleftrightarrow> (Bitmaps i, 2 * fi_block_size (ex_info e), gd_block_bitmap d) \<in> set (ex_queue e2) \<and>
     gd_inode_bitmap d = gd_block_bitmap d + 1 \<and> gd_inode_table d = group_start e i + pre_header e i + 2 \<and>
     (\<exists>e3. allocate_bg_inode_table e2 i = Inr e3 \<and> ex_queue e3 = ex_queue e2 @
       [(Inode_Table i, ex_inode_table_blocks e * fi_block_size (ex_info e), gd_inode_table d)])"

lemma fill_in_sb_places:
  assumes "block_allocator_init e = Inr e1" "32 * unat (ex_groups e) \<le> unat (fi_block_size (ex_info e)) * unat (ex_bg_desc_blocks e)"
  shows "\<exists>descs e2. ext4_fill_in_sb opts uuid e1 = Inr (super_block_of opts uuid e1, descs, e2) \<and>
    (\<forall>i < unat (ex_groups e). described e e2 i (descs ! i))"
proof -
  let ?n = "unat (ex_groups e)" and ?e = "e\<lparr>ex_bgs := replicate (unat (ex_groups e)) zero_bg\<rparr>"
  have "init_groups ?n ?e = Inr e1" using assms(1) by (simp add: block_allocator_init_def)
  then have I: "same_geometry ?e e1" "length (ex_bgs e1) = ?n" "\<forall>i < ?n. placed ?e i (ex_bgs e1 ! i) \<and>
      (Bitmaps i, 2 * fi_block_size (ex_info e), group_start ?e i + pre_header ?e i) \<in> set (ex_queue e1)"
    using init_groups_places [of ?n ?e e1] by (simp_all add: zero_bg_def)
  have eq: "group_start ?e = group_start e" "pre_header ?e = pre_header e" "placed ?e = placed e"
    "group_start e1 = group_start e" "pre_header e1 = pre_header e"
    using I(1) by (simp_all add: same_geometry_def group_start_def pre_header_def placed_def fun_eq_iff)
  have g: "ex_groups e1 = ex_groups e" "ex_info e1 = ex_info e" "ex_bg_desc_blocks e1 = ex_bg_desc_blocks e" "same_geometry e e1"
    using I(1) by (simp_all add: same_geometry_def)
  have "?n \<le> length (new_descs e1)" using assms(2) by (simp add: new_descs_def g)
  then obtain descs q where F: "fill_groups ?n (super_block_of opts uuid e1) (new_descs e1) e1 = Inr (descs, e1\<lparr>ex_queue := ex_queue e1 @ q\<rparr>)"
    "\<forall>i < ?n. gd_block_bitmap (descs ! i) = group_start e i + pre_header e i \<and>
      gd_inode_bitmap (descs ! i) = group_start e i + pre_header e i + 1 \<and> gd_inode_table (descs ! i) = group_start e i + pre_header e i + 2"
    using fill_groups_run [of ?n "new_descs e1" "super_block_of opts uuid e1" e1] unfolding eq by blast
  let ?e2 = "e1\<lparr>ex_queue := ex_queue e1 @ q\<rparr>"
  have s2: "same_geometry e ?e2" using g(4) by (simp add: same_geometry_def)
  have "described e ?e2 i (descs ! i)" if i: "i < ?n" for i
    using inode_table_placed [OF _ _ s2, of i] I(2,3) F(2) i unfolding eq described_def by simp
  moreover have "ext4_fill_in_sb opts uuid e1 = Inr (super_block_of opts uuid e1, descs, ?e2)"
    using F(1) by (simp add: ext4_fill_in_sb_def Let_def g(1))
  ultimately show ?thesis by blast
qed

text \<open>The table of inodes ends where the header of the group ends.\<close>

lemma inode_table_end:
  assumes "geometry_ok e" "i < unat (ex_groups e)"
  shows "unat (group_start e i + pre_header e i + 2) + unat (ex_inode_table_blocks e) = group_first e i + group_header e i"
proof -
  have f: "unat (group_start e i) = group_first e i" using unat_group_first(1) [OF assms] by (simp add: group_start_def)
  have l: "group_first e i + group_header e i < 2 ^ 32"
    using assms group_first_le [OF assms(2), of e] by (fastforce simp: geometry_ok_def group_end_def)
  obtain s where s: "ext4_bg_has_super_block (ex_info e) (int i) = Inr s" using has_super_block_cases [of "int i"] by auto
  have "unat (2 + ex_inode_table_blocks e + pre_header e i) = group_header e i"
    using unat_group_header [OF s] l s by (cases s) (simp_all add: pre_header_def)
  moreover have "unat (pre_header e i) + 2 + unat (ex_inode_table_blocks e) = group_header e i"
    using l s by (cases s) (simp_all add: pre_header_def group_header_def unat_add_u32)
  ultimately show ?thesis using f l by (subst unat_add_u32; (subst unat_add_u32)?) simp_all
qed

section \<open>Counting what is free\<close>

lemma update_groups_run:
  assumes "n \<le> length (ex_bgs e)" "n \<le> length descs"
  shows "\<exists>sb' descs'. update_groups n e sb descs = Inr (sb', descs') \<and> length descs' = length descs \<and> s_uuid sb' = s_uuid sb \<and>
    s_free_blocks_count_lo sb' = s_free_blocks_count_lo sb + (\<Sum>i < n. bg_free_blocks (ex_bgs e ! i)) \<and>
    s_free_inodes_count sb' = s_free_inodes_count sb + (\<Sum>i < n. bg_free_inodes (ex_bgs e ! i)) \<and>
    (\<forall>i < n. gd_free_blocks_count (descs' ! i) = ucast (bg_free_blocks (ex_bgs e ! i)) \<and>
      gd_free_inodes_count (descs' ! i) = ucast (bg_free_inodes (ex_bgs e ! i)) \<and>
      gd_checksum (descs' ! i) = ext4_crc16 0xFFFF (s_uuid sb @ u32_le (word_of_nat i) @ desc_bytes (descs' ! i)))"
  using assms
proof (induction n)
  case (Suc n)
  then obtain sb' ds where ih: "update_groups n e sb descs = Inr (sb', ds)" "length ds = length descs" "s_uuid sb' = s_uuid sb"
    "s_free_blocks_count_lo sb' = s_free_blocks_count_lo sb + (\<Sum>i < n. bg_free_blocks (ex_bgs e ! i))"
    "s_free_inodes_count sb' = s_free_inodes_count sb + (\<Sum>i < n. bg_free_inodes (ex_bgs e ! i))"
    "\<forall>i < n. gd_free_blocks_count (ds ! i) = ucast (bg_free_blocks (ex_bgs e ! i)) \<and>
      gd_free_inodes_count (ds ! i) = ucast (bg_free_inodes (ex_bgs e ! i)) \<and>
      gd_checksum (ds ! i) = ext4_crc16 0xFFFF (s_uuid sb @ u32_le (word_of_nat i) @ desc_bytes (ds ! i))"
    by auto
  let ?bg = "ex_bgs e ! n"
  define d where "d = (ds ! n)\<lparr>gd_free_blocks_count := ucast (bg_free_blocks ?bg), gd_free_inodes_count := ucast (bg_free_inodes ?bg),
      gd_used_dirs_count := gd_used_dirs_count (ds ! n) + bg_used_dirs ?bg, gd_flags := bg_flags ?bg\<rparr>"
  define D where "D = d\<lparr>gd_checksum := ext4_crc16 0xFFFF (s_uuid sb @ u32_le (word_of_nat n) @ desc_bytes d)\<rparr>"
  have crc: "ext4_crc16 (ext4_crc16 (ext4_crc16 0xFFFF a) b) c = ext4_crc16 0xFFFF (a @ b @ c)" for a b c
    by (simp add: ext4_crc16_def)
  have "desc_bytes D = desc_bytes d" by (simp add: D_def desc_bytes_def)
  then have D: "gd_checksum D = ext4_crc16 0xFFFF (s_uuid sb @ u32_le (word_of_nat n) @ desc_bytes D)"
    "gd_free_blocks_count D = ucast (bg_free_blocks ?bg)" "gd_free_inodes_count D = ucast (bg_free_inodes ?bg)"
    by (simp_all add: D_def) (simp_all add: d_def)
  have "update_group e sb' ds n = Inr (sb'\<lparr>s_free_blocks_count_lo := s_free_blocks_count_lo sb' + bg_free_blocks ?bg,
      s_free_inodes_count := s_free_inodes_count sb' + bg_free_inodes ?bg\<rparr>, ds[n := D])"
    using Suc.prems ih(2,3)
    by (simp add: update_group_def get_free_blocks_def get_free_inodes_def get_directories_def get_bg_flags_def get_bg_def Let_def crc D_def d_def)
  then show ?case using ih D Suc.prems by (simp add: less_Suc_eq nth_list_update)
qed simp

lemma unat_sum_u32: "finite A \<Longrightarrow> (\<Sum>i \<in> A. unat (f i :: u32)) < 2 ^ 32 \<Longrightarrow> unat (\<Sum>i \<in> A. f i) = (\<Sum>i \<in> A. unat (f i))"
  by (induction A rule: finite_induct) (simp_all add: unat_add_u32)

lemma update_free_run:
  assumes "fs_ok N e" "unat (ex_groups e) \<le> length descs" "s_free_blocks_count_lo sb = 0" "card (fs_free N e) < 2 ^ 32"
  shows "\<exists>sb' descs'. ext4_update_free e sb descs = Inr (sb', descs') \<and> unat (s_free_blocks_count_lo sb') = card (fs_free N e) \<and>
    (\<forall>i < unat (ex_groups e). gd_free_blocks_count (descs' ! i) = word_of_nat (card (bg_free N (ex_bgs e ! i))) \<and>
      gd_checksum (descs' ! i) = ext4_crc16 0xFFFF (s_uuid sb @ u32_le (word_of_nat i) @ desc_bytes (descs' ! i)))"
proof -
  have n: "unat (ex_groups e) = length (ex_bgs e)" using assms(1) by (simp add: fs_ok_def)
  obtain sb' ds where r: "ext4_update_free e sb descs = Inr (sb', ds)"
    "s_free_blocks_count_lo sb' = s_free_blocks_count_lo sb + (\<Sum>i < length (ex_bgs e). bg_free_blocks (ex_bgs e ! i))"
    "\<forall>i < length (ex_bgs e). gd_free_blocks_count (ds ! i) = ucast (bg_free_blocks (ex_bgs e ! i)) \<and>
      gd_free_inodes_count (ds ! i) = ucast (bg_free_inodes (ex_bgs e ! i)) \<and>
      gd_checksum (ds ! i) = ext4_crc16 0xFFFF (s_uuid sb @ u32_le (word_of_nat i) @ desc_bytes (ds ! i))"
    using update_groups_run [of "length (ex_bgs e)" e descs sb] assms(2) unfolding ext4_update_free_def n by auto
  have "total_free e < 2 ^ 32" using assms(4) by (simp add: card_fs_free [OF assms(1)])
  then have "unat (s_free_blocks_count_lo sb') = card (fs_free N e)"
    using r(2) assms(3) by (simp add: card_fs_free [OF assms(1)] total_free_def unat_sum_u32)
  moreover have "ucast (bg_free_blocks (ex_bgs e ! i)) = (word_of_nat (card (bg_free N (ex_bgs e ! i))) :: u16)" if i: "i < length (ex_bgs e)" for i
  proof -
    have "card (bg_free N (ex_bgs e ! i)) = unat (bg_free_blocks (ex_bgs e ! i))"
      using assms(1) i by (simp add: fs_ok_def bg_free_range)
    then show ?thesis by simp
  qed
  ultimately show ?thesis using r n by simp
qed

section \<open>Properties\<close>

text \<open>
  C13. A superblock read back gives the parameters it was made from: block size, sizes of the groups, inodes and
  features, and the length of the image as the number of its blocks says it.
\<close>

theorem super_block_roundtrip:
  assumes "fi_block_size (ex_info e) = push_bit k 1024" "k < 22" "unat (fi_inode_size (ex_info e)) < 2 ^ 16"
    "unat (fi_bg_desc_reserve_blocks (ex_info e)) < 2 ^ 16" "unat (fi_block_size (ex_info e)) * unat (ex_len_blocks e) < 2 ^ 63"
  shows "ext4_parse_sb (super_block_of opts uuid e) opts' = Inr (0, opts'\<lparr>
    fo_info := (ex_info e)\<lparr>fi_len := int (unat (fi_block_size (ex_info e)) * unat (ex_len_blocks e))\<rparr>,
    fo_inodes := fi_inodes_per_group (ex_info e) * ex_groups e, fo_feat_compat := fo_feat_compat opts,
    fo_feat_incompat := fo_feat_incompat opts\<rparr>)"
  by (rule parse_super_block_of [OF assms])

theorem super_block_roundtrip_witness:
  "\<exists>opts. ext4_parse_sb (super_block_of (no_opts 0) [] demo_geometry) (no_opts 0) = Inr (0, opts) \<and> fo_info opts = ex_info demo_geometry"
  using super_block_roundtrip [of demo_geometry 0 "no_opts 0" "[]" "no_opts 0"] by (simp add: demo_geometry_def)

text \<open>
  C14. The group descriptors agree with the allocator: the bitmaps of every group are written to the blocks its
  descriptor names, and so is its table of inodes, which fills the header of the group to its end.
\<close>

theorem descriptors_match_allocator:
  assumes "geometry_ok e" "block_allocator_init e = Inr e1"
    "32 * unat (ex_groups e) \<le> unat (fi_block_size (ex_info e)) * unat (ex_bg_desc_blocks e)"
  shows "\<exists>descs e2. ext4_fill_in_sb opts uuid e1 = Inr (super_block_of opts uuid e1, descs, e2) \<and> (\<forall>i < unat (ex_groups e).
    (Bitmaps i, 2 * fi_block_size (ex_info e), gd_block_bitmap (descs ! i)) \<in> set (ex_queue e2) \<and>
    gd_inode_bitmap (descs ! i) = gd_block_bitmap (descs ! i) + 1 \<and>
    (\<exists>e3. allocate_bg_inode_table e2 i = Inr e3 \<and> ex_queue e3 = ex_queue e2 @
      [(Inode_Table i, ex_inode_table_blocks e * fi_block_size (ex_info e), gd_inode_table (descs ! i))]) \<and>
    unat (gd_inode_table (descs ! i)) + unat (ex_inode_table_blocks e) = group_first e i + group_header e i)"
proof -
  obtain descs e2 where d: "ext4_fill_in_sb opts uuid e1 = Inr (super_block_of opts uuid e1, descs, e2)"
    "\<forall>i < unat (ex_groups e). described e e2 i (descs ! i)"
    using fill_in_sb_places [OF assms(2,3)] by blast
  show ?thesis
    using d(2) inode_table_end [OF assms(1)] unfolding described_def by (intro exI [of _ descs] exI [of _ e2] conjI d(1)) metis
qed

theorem descriptors_match_allocator_witness:
  "\<exists>e1 descs e2. block_allocator_init demo_geometry = Inr e1 \<and>
    ext4_fill_in_sb (no_opts 0) [] e1 = Inr (super_block_of (no_opts 0) [] e1, descs, e2) \<and> unat (gd_inode_table (descs ! 1)) = 40"
proof -
  obtain e1 where e1: "block_allocator_init demo_geometry = Inr e1" using block_allocator_init_run [OF demo_geometry_ok] by blast
  have "32 * unat (ex_groups demo_geometry) \<le> unat (fi_block_size (ex_info demo_geometry)) * unat (ex_bg_desc_blocks demo_geometry)"
    "unat (ex_inode_table_blocks demo_geometry) = 2"
    by (simp_all add: demo_geometry_def)
  then show ?thesis
    using descriptors_match_allocator [OF demo_geometry_ok e1, of "no_opts 0" "[]"] e1
    by (auto simp: demo_geometry_simps demo_geometry_header demo_geometry_header(2) [simplified] dest!: spec [of _ 1])
qed



declare is_power_of.simps [code]

text \<open>An image of 128 whole groups and a hundred blocks, too few for the header of another group.\<close>

definition short_image :: ext4 where
  "short_image = demo_geometry\<lparr>ex_info := \<lparr>fi_len = 4096 * (128 * 32768 + 100), fi_block_size = 4096, fi_blocks_per_group = 32768,
     fi_inodes_per_group = 8192, fi_inode_size = 256, fi_feat_ro_compat = 1, fi_bg_desc_reserve_blocks = 1022\<rparr>\<rparr>"


end
