(* ===== verification/Ext4_Cursor.thy ===== *)
theory Ext4_Cursor
  imports Ext4_Regions
begin

text \<open>
  What is done with an allocation of \<^verbatim>\<open>ext4_utils/allocate.c\<close> after it was made: giving blocks back, moving the
  cursor forward, and setting blocks aside for extents.
\<close>

section \<open>Giving blocks back\<close>

lemma allocated_Cons:
  assumes "allocated m alloc as" "regions_ok e m as"
  obtains a as' r where "as = a # as'" "rm_cells m a = Some r" "rg_prev r = None" "dchain m (Some a) (rg_next r) as'"
    "region_ok e r" "a \<notin> set as'" "a < rm_fresh m"
    "ba_list alloc = \<lparr>rl_first = Some a, rl_last = Some a, rl_iter = Some a, rl_partial = 0\<rparr>"
  using assms that by (cases as) (auto simp: allocated_def built_def regions_ok_def split: option.splits)

lemma dchain_upd_len:
  assumes "dchain m q p as" "rm_cells m a = Some r"
  shows "dchain (m\<lparr>rm_cells := (rm_cells m)(a \<mapsto> r\<lparr>rg_len := l\<rparr>)\<rparr>) q p as"
  using assms by (induction as arbitrary: q p) (auto split: option.splits)

lemma free_from_group:
  assumes "fs_ok N e" "region_ok e r" "k \<le> rg_len r"
  shows "\<exists>bg. get_bg e (rg_bg r) = Inr (ex_bgs e ! rg_bg r) \<and> free_blocks (ex_bgs e ! rg_bg r) k = Inr bg \<and>
    fs_ok N (set_bg e (rg_bg r) bg) \<and>
    fs_free N (set_bg e (rg_bg r) bg) = fs_free N e \<union> {unat (rg_block r) + unat (rg_len r) - unat k ..< unat (rg_block r) + unat (rg_len r)}"
proof -
  let ?bg = "ex_bgs e ! rg_bg r"
  have i: "rg_bg r < length (ex_bgs e)" and le: "k \<le> bg_first_free_block ?bg"
    and st: "unat (rg_block r) + unat (rg_len r) = bg_start ?bg" using assms(2,3) by (auto simp: region_ok_def ff_of_def word_le_nat_alt)
  have ok: "bg_ok N ?bg" using assms(1) i by (simp add: fs_ok_def)
  obtain bm where bm: "free_blocks ?bg k = Inr (?bg\<lparr>bg_bitmaps := bm, bg_free_blocks := bg_free_blocks ?bg + k,
        bg_first_free_block := bg_first_free_block ?bg - k\<rparr>)"
    "bg_ok N (?bg\<lparr>bg_bitmaps := bm, bg_free_blocks := bg_free_blocks ?bg + k, bg_first_free_block := bg_first_free_block ?bg - k\<rparr>)"
    "unat (bg_free_blocks ?bg + k) = unat (bg_free_blocks ?bg) + unat k"
    using free_blocks_run [OF ok le] by blast
  define bg where "bg = ?bg\<lparr>bg_bitmaps := bm, bg_free_blocks := bg_free_blocks ?bg + k, bg_first_free_block := bg_first_free_block ?bg - k\<rparr>"
  have fok: "fs_ok N (set_bg e (rg_bg r) bg)" using assms(1) i bm(2) by (intro fs_ok_set_bg) (simp_all add: bg_def)
  have ff: "unat k \<le> unat (bg_first_free_block ?bg)" "unat (bg_first_free_block ?bg - k) = unat (bg_first_free_block ?bg) - unat k"
    using le by (simp_all add: word_le_nat_alt unat_sub_le)
  have "bg_free N bg = bg_free N ?bg \<union> {bg_start ?bg - unat k ..< bg_start ?bg}"
    unfolding bg_free_range [OF ok] bg_free_range [OF bm(2), folded bg_def]
    using ff bm(3) by (auto simp: bg_start_def bg_def)
  then show ?thesis using bm(1) i fok fs_free_set_bg_add [OF i] unfolding st by (auto simp: get_bg_def bg_def)
qed

lemma give_back_step_first:
  assumes "fs_ok N e" "region_ok e r" "rl_last (ba_list alloc) = Some a" "rm_cells m a = Some r" "rg_prev r = None"
  shows "k < rg_len r \<Longrightarrow> \<exists>e'. give_back_step e m alloc k =
      Inr (0, alloc, m\<lparr>rm_cells := (rm_cells m)(a \<mapsto> r\<lparr>rg_len := rg_len r - k\<rparr>)\<rparr>, e') \<and> fs_ok N e' \<and>
      fs_free N e' = fs_free N e \<union> {unat (rg_block r) + unat (rg_len r) - unat k ..< unat (rg_block r) + unat (rg_len r)}"
    and "rg_len r \<le> k \<Longrightarrow> \<exists>e'. give_back_step e m alloc k =
      Inr (k - rg_len r, alloc\<lparr>ba_list := empty_list\<rparr>, m\<lparr>rm_cells := (rm_cells m)(a := None)\<rparr>, e') \<and> fs_ok N e'"
proof -
  assume k: "k < rg_len r"
  obtain bg where "get_bg e (rg_bg r) = Inr (ex_bgs e ! rg_bg r)" "free_blocks (ex_bgs e ! rg_bg r) k = Inr bg"
    "fs_ok N (set_bg e (rg_bg r) bg)"
    "fs_free N (set_bg e (rg_bg r) bg) = fs_free N e \<union> {unat (rg_block r) + unat (rg_len r) - unat k ..< unat (rg_block r) + unat (rg_len r)}"
    using free_from_group [OF assms(1,2) less_imp_le [OF k]] by auto
  then show "\<exists>e'. give_back_step e m alloc k =
      Inr (0, alloc, m\<lparr>rm_cells := (rm_cells m)(a \<mapsto> r\<lparr>rg_len := rg_len r - k\<rparr>)\<rparr>, e') \<and> fs_ok N e' \<and>
      fs_free N e' = fs_free N e \<union> {unat (rg_block r) + unat (rg_len r) - unat k ..< unat (rg_block r) + unat (rg_len r)}"
    using k assms(3-5) by (simp add: give_back_step_def reg_simps)
next
  assume k: "rg_len r \<le> k"
  obtain bg where "get_bg e (rg_bg r) = Inr (ex_bgs e ! rg_bg r)" "free_blocks (ex_bgs e ! rg_bg r) (rg_len r) = Inr bg"
    "fs_ok N (set_bg e (rg_bg r) bg)" using free_from_group [OF assms(1,2), of "rg_len r"] by auto
  then show "\<exists>e'. give_back_step e m alloc k =
      Inr (k - rg_len r, alloc\<lparr>ba_list := empty_list\<rparr>, m\<lparr>rm_cells := (rm_cells m)(a := None)\<rparr>, e') \<and> fs_ok N e'"
    using leD [OF k] assms(3-5) by (simp add: give_back_step_def reg_simps)
qed

lemma give_back_loop_simps:
  "give_back_loop fuel e m alloc 0 = Inr (alloc, m, e)"
  "k \<noteq> 0 \<Longrightarrow> give_back_loop (Suc fuel) e m alloc k =
     bindR (give_back_step e m alloc k) (\<lambda>(len, alloc, m, e). give_back_loop fuel e m alloc len)"
  by (subst give_back_loop.simps, simp)+

lemma reduce_short:
  assumes "fs_ok N e" "region_ok e r" "rl_last (ba_list alloc) = Some a" "rm_cells m a = Some r" "rg_prev r = None" "0 < k" "k < rg_len r"
  shows "\<exists>e'. reduce_allocation e m alloc k = Inr (alloc, m\<lparr>rm_cells := (rm_cells m)(a \<mapsto> r\<lparr>rg_len := rg_len r - k\<rparr>)\<rparr>, e') \<and>
    fs_ok N e' \<and> fs_free N e' = fs_free N e \<union> {unat (rg_block r) + unat (rg_len r) - unat k ..< unat (rg_block r) + unat (rg_len r)}"
proof -
  have "k \<noteq> 0" using assms(6) by auto
  then show ?thesis using give_back_step_first(1) [OF assms(1-5,7)]
    by (auto simp: reduce_allocation_def give_back_loop_simps)
qed

lemma shortened_len:
  assumes "dchain m None (Some a) (a # as)" "rm_cells m a = Some r" "a \<notin> set as" "length (a # as) \<le> rm_fresh m" "k \<le> rg_len r"
    "length (chain_blocks m (a # as)) = unat len" "rl_first (ba_list alloc) = Some a"
  defines "m' \<equiv> m\<lparr>rm_cells := (rm_cells m)(a \<mapsto> r\<lparr>rg_len := rg_len r - k\<rparr>)\<rparr>"
  shows "block_allocation_len m' alloc = Inr (len - k)"
proof -
  have ch: "dchain m' None (Some a) (a # as)" unfolding m'_def by (rule dchain_upd_len [OF assms(1,2)])
  have fl: "length (a # as) \<le> rm_fresh m'" using assms(4) by (simp add: m'_def)
  have "chain_blocks m' as = chain_blocks m as"
    by (rule chain_blocks_cong) (use assms(3) in \<open>auto simp: m'_def cell_blocks_def\<close>)
  moreover have "unat (rg_len r - k) + unat k = unat (rg_len r)" using assms(5) by (simp add: unat_sub_le word_le_nat_alt)
  ultimately have "length (chain_blocks m' (a # as)) + unat k = unat len"
    using assms(2,6) by (simp add: cell_blocks_def) (simp add: m'_def)
  then have "(word_of_nat (length (chain_blocks m' (a # as))) :: u32) = len - k"
    by (metis add_diff_cancel_right' of_nat_add word_of_nat_eqI)
  then show ?thesis using count_blocks_chain [OF ch fl, of 0] by (simp add: block_allocation_len_def assms(7))
qed

text \<open>
  C34. Giving back \<open>k\<close> blocks of a fresh allocation takes them from the end of its \<^emph>\<open>first\<close> region, of \<open>l\<close>
  blocks.  For \<open>k < l\<close> that is the first region shortened and the allocation \<open>k\<close> blocks smaller.  For \<open>k = l\<close>
  the list is left empty, whatever regions follow, and for \<open>k > l\<close> the program dereferences \<^verbatim>\<open>NULL\<close>.
\<close>

theorem reduce_allocation_first_region:
  assumes "fs_ok N e" "0 < len" "allocate_blocks e m len = Inr (Some alloc, m', e')"
    "get_region m' alloc = Inr (b, l)" "0 < k"
  shows "if k < l
    then \<exists>m'' e''. reduce_allocation e' m' alloc k = Inr (alloc, m'', e'') \<and> fs_ok N e'' \<and>
      get_region m'' alloc = Inr (b, l - k) \<and> block_allocation_len m'' alloc = Inr (len - k)
    else if k = l
    then \<exists>m'' e''. reduce_allocation e' m' alloc k = Inr (alloc\<lparr>ba_list := empty_list\<rparr>, m'', e'') \<and> fs_ok N e''
    else reduce_allocation e' m' alloc k = Inl NullDeref"
proof -
  obtain as where A: "allocated m' alloc as" "fs_ok N e'" "regions_ok e' m' as" "length (chain_blocks m' as) = unat len"
    by (rule allocate_blocks_shape [OF assms(1-3)])
  obtain a as' r where S: "as = a # as'" "rm_cells m' a = Some r" "rg_prev r = None" "dchain m' (Some a) (rg_next r) as'"
    "region_ok e' r" "a \<notin> set as'" "a < rm_fresh m'"
    "ba_list alloc = \<lparr>rl_first = Some a, rl_last = Some a, rl_iter = Some a, rl_partial = 0\<rparr>"
    by (rule allocated_Cons [OF A(1,3)])
  have bl: "b = rg_block r" "l = rg_len r" using assms(4) S(2,8) by (simp_all add: get_region_def get_reg_def)
  have k0: "k \<noteq> 0" using assms(5) by auto
  have last: "rl_last (ba_list alloc) = Some a" by (simp add: S(8))
  note step = give_back_step_first [OF A(2) S(5) last S(2,3)]
  consider "k < l" | "k = l" | "l < k" by (rule linorder_cases)
  then show ?thesis
  proof cases
    case 1
    define m2 where "m2 = m'\<lparr>rm_cells := (rm_cells m')(a \<mapsto> r\<lparr>rg_len := rg_len r - k\<rparr>)\<rparr>"
    obtain e2 where run: "reduce_allocation e' m' alloc k = Inr (alloc, m2, e2)" and e2: "fs_ok N e2"
      using reduce_short [OF A(2) S(5) last S(2,3) assms(5)] 1 bl(2) by (auto simp: m2_def)
    have "dchain m' None (Some a) (a # as')" "length (a # as') \<le> rm_fresh m'"
      using S(2-4) built_length [of m' _ as] A(1) by (auto simp: S(1) allocated_def)
    then have "block_allocation_len m2 alloc = Inr (len - k)"
      unfolding m2_def using 1 bl(2) S(8) A(4) by (intro shortened_len [OF _ S(2,6)]) (simp_all add: S(1))
    then show ?thesis using 1 run e2 bl by (auto simp: get_region_def get_reg_def S(8) m2_def)
  next
    case 2
    then show ?thesis using step(2) [of k] bl(2) k0
      by (auto simp: reduce_allocation_def give_back_loop_simps)
  next
    case 3
    obtain f where f: "rm_fresh m' = Suc f" using S(7) by (cases "rm_fresh m'") auto
    obtain m2 e2 where e2: "give_back_step e' m' alloc k = Inr (k - rg_len r, alloc\<lparr>ba_list := empty_list\<rparr>, m2, e2)"
      using step(2) [of k] less_imp_le [OF 3] bl(2) by auto
    have "k - rg_len r \<noteq> 0" using 3 bl(2) by auto
    then show ?thesis using 3 k0
      by (auto simp: reduce_allocation_def f give_back_loop_simps(2) e2 give_back_step_def [of e2] empty_list_def get_reg_def)
  qed
qed

section \<open>Moving forward in an allocation\<close>

lemma sint_word_of_nat: "n < 2 ^ 31 \<Longrightarrow> sint (word_of_nat n :: u32) = int n"
  by (simp add: signed_of_nat signed_take_bit_int_eq_self)

lemma advance_loop_step:
  assumes "0 < n" "rm_cells m a = Some r" "rl_partial l = 0" "\<not> (word_of_nat n :: u32) < rg_len r"
  shows "advance_loop (Suc f) m l (Some a) (int n) =
    advance_loop f m (l\<lparr>rl_partial := 0\<rparr>) (rg_next r) (sint (word_of_nat n - rg_len r :: u32))"
  using assms by (subst advance_loop.simps) (simp add: get_reg_def)

lemma advance_loop_chain:
  assumes "dchain m q p as" "length as \<le> fuel" "n < length (chain_blocks m as)" "n < 2 ^ 31" "rl_partial l = 0"
    "\<And>a. a \<in> set as \<Longrightarrow> 0 < length (cell_blocks m a)"
  shows "\<exists>k \<le> n. advance_loop fuel m l p (int n) = Inr (0, l\<lparr>rl_partial := word_of_nat k\<rparr>) \<and>
    (if n < length (cell_blocks m (hd as)) then k = n else k + length (cell_blocks m (hd as)) \<le> n)"
  using assms
proof (induction as arbitrary: q p n fuel l)
  case (Cons a as)
  obtain f where f: "fuel = Suc f" using Cons.prems(2) by (cases fuel) auto
  obtain r where r: "p = Some a" "rm_cells m a = Some r" "dchain m (Some a) (rg_next r) as"
    using Cons.prems(1) by (auto split: option.splits)
  let ?L = "unat (rg_len r)"
  have cb: "length (cell_blocks m a) = ?L" by (simp add: cell_blocks_def r)
  have lt: "(word_of_nat n :: u32) < rg_len r \<longleftrightarrow> n < ?L"
    using Cons.prems(4) by (simp add: word_less_nat_alt unat_of_nat_u32)
  consider "n = 0" | "0 < n" "n < ?L" | "0 < n" "?L \<le> n" by linarith
  then show ?case
  proof cases
    case 1
    then have "advance_loop fuel m l p (int n) = Inr (0, l)" by (subst advance_loop.simps) simp
    moreover have "l = l\<lparr>rl_partial := 0\<rparr>" using Cons.prems(5) by simp
    ultimately show ?thesis using 1 Cons.prems(6) [of a] by (intro exI [of _ 0]) simp
  next
    case 2
    then have "advance_loop fuel m l p (int n) = Inr (0, l\<lparr>rl_partial := word_of_nat n\<rparr>)"
      using r f lt Cons.prems(5) by (subst advance_loop.simps) (simp add: get_reg_def)
    then show ?thesis using 2 cb by (intro exI [of _ n]) simp
  next
    case 3
    have w: "(word_of_nat n :: u32) - rg_len r = word_of_nat (n - ?L)" using 3(2) by (simp add: of_nat_diff)
    have "sint (word_of_nat (n - ?L) :: u32) = int (n - ?L)" using Cons.prems(4) by (intro sint_word_of_nat) simp
    then have step: "advance_loop fuel m l p (int n) = advance_loop f m (l\<lparr>rl_partial := 0\<rparr>) (rg_next r) (int (n - ?L))"
      using advance_loop_step [OF 3(1) r(2) Cons.prems(5), of f] lt 3(2) unfolding w r(1) f by simp
    have "n - ?L < length (chain_blocks m as)" using Cons.prems(3) 3(2) by (simp add: cb)
    then obtain k where "k \<le> n - ?L"
      "advance_loop f m (l\<lparr>rl_partial := 0\<rparr>) (rg_next r) (int (n - ?L)) = Inr (0, l\<lparr>rl_partial := 0\<rparr>\<lparr>rl_partial := word_of_nat k\<rparr>)"
      using Cons.IH [OF r(3), of f "n - ?L" "l\<lparr>rl_partial := 0\<rparr>"] Cons.prems f by fastforce
    moreover from this have "k \<le> n" "k + ?L \<le> n" using 3(2) by linarith+
    ultimately show ?thesis using step cb 3 by (intro exI [of _ k]) simp
  qed
qed simp


section \<open>Setting blocks aside\<close>

text \<open>The state after \<open>k\<close> blocks were split off the first region, at \<open>a\<close>, the rest of which is the new cell.\<close>

definition oob_mem :: "rmem \<Rightarrow> addr \<Rightarrow> region \<Rightarrow> u32 \<Rightarrow> rmem" where
  "oob_mem m a r k = m\<lparr>rm_cells := (rm_cells m)
     (rm_fresh m \<mapsto> r\<lparr>rg_block := rg_block r + k, rg_len := rg_len r - k, rg_prev := None\<rparr>,
      a \<mapsto> r\<lparr>rg_len := k, rg_next := None, rg_prev := None\<rparr>), rm_fresh := Suc (rm_fresh m)\<rparr>"

lemma do_split_0:
  assumes "rl_iter (ba_list alloc) = Some a" "rm_cells m a = Some r" "0 < rg_len r"
  shows "do_split_allocation m alloc 0 = Inr (Some a, alloc, m)"
proof -
  have "split_loop (rm_fresh m) m (Some a) 0 = Inr (Some a, 0)"
    using assms(2) less_imp_neq [OF assms(3), symmetric] by (subst split_loop.simps) (simp add: get_reg_def)
  then show ?thesis using assms(1) by (simp add: do_split_allocation_def)
qed

lemma do_split_within:
  assumes "rl_iter (ba_list alloc) = Some a" "rm_cells m a = Some r" "0 < k" "k < rg_len r" "a < rm_fresh m"
  shows "do_split_allocation m alloc k = Inr (Some a, alloc\<lparr>ba_list := (ba_list alloc)\<lparr>rl_iter := Some (rm_fresh m)\<rparr>\<rparr>,
    m\<lparr>rm_cells := (rm_cells m)
       (rm_fresh m \<mapsto> r\<lparr>rg_block := rg_block r + k, rg_len := rg_len r - k, rg_prev := Some a\<rparr>,
        a \<mapsto> r\<lparr>rg_len := k, rg_next := Some (rm_fresh m)\<rparr>), rm_fresh := Suc (rm_fresh m)\<rparr>)"
proof -
  have "split_loop (rm_fresh m) m (Some a) k = Inr (Some a, k)"
    using assms(2) linorder_not_le [THEN iffD2, OF assms(4)] by (subst split_loop.simps) (simp add: get_reg_def)
  then show ?thesis using assms by (cases m, cases r) (simp add: do_split_allocation_def reg_simps)
qed

lemma reserve_oob_first:
  assumes "allocated m alloc (a # as)" "rm_cells m a = Some r" "rg_prev r = None" "0 < k" "k < rg_len r" "a < rm_fresh m"
  shows "reserve_oob_blocks m alloc k = Inr (0, alloc
      \<lparr>ba_list := \<lparr>rl_first = Some (rm_fresh m), rl_last = None, rl_iter = Some (rm_fresh m), rl_partial = 0\<rparr>,
       ba_oob := \<lparr>rl_first = Some a, rl_last = Some a, rl_iter = Some a, rl_partial = 0\<rparr>\<rparr>, oob_mem m a r k)"
proof -
  let ?n = "rm_fresh m"
  have it: "rl_iter (ba_list alloc) = Some a" "rl_partial (ba_list alloc) = 0" "0 < rg_len r"
    using assms(1,4,5) by (auto simp: allocated_def)
  define m1 where "m1 = m\<lparr>rm_cells := (rm_cells m)
       (?n \<mapsto> r\<lparr>rg_block := rg_block r + k, rg_len := rg_len r - k, rg_prev := Some a\<rparr>,
        a \<mapsto> r\<lparr>rg_len := k, rg_next := Some ?n\<rparr>), rm_fresh := Suc ?n\<rparr>"
  define al where "al = alloc\<lparr>ba_list := \<lparr>rl_first = Some a, rl_last = Some a, rl_iter = Some ?n, rl_partial = 0\<rparr>\<rparr>"
  have sp: "split_allocation m alloc k = Inr (Some a, al, m1)"
    using do_split_0 [OF it(1) assms(2) it(3)] do_split_within [OF it(1) assms(2,4-6)] assms(1)
    by (simp add: split_allocation_def it(2) m1_def al_def allocated_def)
  have "region_list_remove m1 (ba_list al) (Some a) = Inr (\<lparr>rl_first = Some ?n, rl_last = None, rl_iter = Some ?n, rl_partial = 0\<rparr>,
      oob_mem m a r k)"
    using assms(3,6)
    by (cases m, cases r) (simp add: region_list_remove_def reg_simps m1_def al_def oob_mem_def fun_upd_twist Let_def)
  moreover have "region_list_append (oob_mem m a r k) (ba_oob al) (Some a) =
      Inr (\<lparr>rl_first = Some a, rl_last = Some a, rl_iter = Some a, rl_partial = 0\<rparr>, oob_mem m a r k)"
    using assms(1)
    by (cases m, cases r) (simp add: region_list_append_def reg_simps oob_mem_def al_def allocated_def empty_list_def)
  moreover have "get_reg m1 (Some a) = Inr (r\<lparr>rg_len := k, rg_next := Some ?n\<rparr>)" by (simp add: get_reg_def m1_def)
  ultimately have "move_oob_loop (Suc ?n) m1 al (Some a) = Inr (alloc
      \<lparr>ba_list := \<lparr>rl_first = Some ?n, rl_last = None, rl_iter = Some ?n, rl_partial = 0\<rparr>,
       ba_oob := \<lparr>rl_first = Some a, rl_last = Some a, rl_iter = Some a, rl_partial = 0\<rparr>\<rparr>, oob_mem m a r k)"
    using assms(6) by (subst move_oob_loop.simps) (simp add: al_def move_oob_loop.simps [of ?n])
  then show ?thesis by (simp add: reserve_oob_blocks_def sp) (simp add: m1_def)
qed

lemma oob_mem_blocks:
  assumes "rm_cells m a = Some r" "nchain m (rg_next r) as" "a \<notin> set as" "set as \<subseteq> {..<rm_fresh m}" "a < rm_fresh m"
    "k < rg_len r" "unat (rg_block r) + unat (rg_len r) < 2 ^ 32"
  shows "nchain (oob_mem m a r k) (Some a) [a]" "nchain (oob_mem m a r k) (Some (rm_fresh m)) (rm_fresh m # as)"
    "chain_blocks (oob_mem m a r k) [a] = take (unat k) (chain_blocks m (a # as))"
    "chain_blocks (oob_mem m a r k) (rm_fresh m # as) = drop (unat k) (chain_blocks m (a # as))"
proof -
  let ?m = "oob_mem m a r k" and ?n = "rm_fresh m"
  have same: "rm_cells ?m x = rm_cells m x" if "x \<in> set as" for x using that assms(3,4) by (auto simp: oob_mem_def)
  have cells: "rm_cells ?m a = Some (r\<lparr>rg_len := k, rg_next := None, rg_prev := None\<rparr>)"
    "rm_cells ?m ?n = Some (r\<lparr>rg_block := rg_block r + k, rg_len := rg_len r - k, rg_prev := None\<rparr>)"
    using assms(5) by (simp_all add: oob_mem_def)
  show "nchain ?m (Some a) [a]" "nchain ?m (Some ?n) (?n # as)"
    using cells nchain_cong [OF same] assms(2) by simp_all
  have cong: "chain_blocks ?m as = chain_blocks m as" by (rule chain_blocks_cong) (simp add: cell_blocks_def same)
  have u: "unat k < unat (rg_len r)" "unat (rg_len r - k) = unat (rg_len r) - unat k" "unat (rg_block r + k) = unat (rg_block r) + unat k"
    using assms(6,7) by (simp_all add: word_less_nat_alt unat_sub_le less_imp_le unat_add_u32)
  show "chain_blocks ?m [a] = take (unat k) (chain_blocks m (a # as))"
    using u(1) by (simp add: cell_blocks_def cells assms(1) reg_blocks_def take_upt)
  show "chain_blocks ?m (?n # as) = drop (unat k) (chain_blocks m (a # as))"
    using u by (simp add: cell_blocks_def cells assms(1) reg_blocks_def cong drop_upt)
qed

lemma block_loop_word:
  assumes "nchain m p as" "length as \<le> fuel" "unat j < length (chain_blocks m as)"
  shows "block_loop fuel m p j = Inr (word_of_nat (chain_blocks m as ! unat j))"
  using block_loop_chain [OF assms(1,2), of "unat j"] assms(3) unat_less_u32 [of j] by simp

lemma reserve_oob_within:
  assumes "allocated m alloc as" "regions_ok e m as" "get_region m alloc = Inr (b, l)" "0 < k" "k < l"
    "length (chain_blocks m as) = unat len"
  shows "\<exists>alloc' m'. reserve_oob_blocks m alloc k = Inr (0, alloc', m') \<and>
    (\<forall>j. j < k \<longrightarrow> get_oob_block m' alloc' j = get_block m alloc j) \<and>
    (\<forall>j. j < len - k \<longrightarrow> get_block m' alloc' j = get_block m alloc (j + k))"
proof -
  obtain a as' r where S: "as = a # as'" "rm_cells m a = Some r" "rg_prev r = None" "dchain m (Some a) (rg_next r) as'"
    "region_ok e r" "a \<notin> set as'" "a < rm_fresh m"
    "ba_list alloc = \<lparr>rl_first = Some a, rl_last = Some a, rl_iter = Some a, rl_partial = 0\<rparr>"
    by (rule allocated_Cons [OF assms(1,2)])
  have kl: "k < rg_len r" using assms(3,5) S(2,8) by (simp add: get_region_def get_reg_def)
  have sub: "set as' \<subseteq> {..<rm_fresh m}" "length as \<le> rm_fresh m"
    using assms(1) built_length [of m _ as] S(1) by (auto simp: allocated_def built_def)
  define m' where "m' = oob_mem m a r k"
  have C: "nchain m' (Some a) [a]" "nchain m' (Some (rm_fresh m)) (rm_fresh m # as')"
    "chain_blocks m' [a] = take (unat k) (chain_blocks m as)"
    "chain_blocks m' (rm_fresh m # as') = drop (unat k) (chain_blocks m as)"
    using oob_mem_blocks [OF S(2) dchain_nchain [OF S(4)] S(6) sub(1) S(7) kl] S(1,5) unfolding m'_def by (simp_all add: region_ok_def)
  have fr: "rm_fresh m' = Suc (rm_fresh m)" by (simp add: m'_def oob_mem_def)
  have le: "unat k \<le> unat len"
    using kl assms(6) S(1,2) by (simp add: cell_blocks_def word_less_nat_alt)
  define alloc' where "alloc' = alloc\<lparr>ba_list := \<lparr>rl_first = Some (rm_fresh m), rl_last = None, rl_iter = Some (rm_fresh m), rl_partial = 0\<rparr>,
       ba_oob := \<lparr>rl_first = Some a, rl_last = Some a, rl_iter = Some a, rl_partial = 0\<rparr>\<rparr>"
  have run: "reserve_oob_blocks m alloc k = Inr (0, alloc', m')"
    using reserve_oob_first [OF assms(1) [unfolded S(1)] S(2,3) assms(4) kl S(7)] by (simp add: alloc'_def m'_def)
  have "get_oob_block m' alloc' j = get_block m alloc j" if "j < k" for j
  proof -
    have "unat j < unat k" using that by (simp add: word_less_nat_alt)
    then show ?thesis using block_loop_word [OF C(1), of "rm_fresh m'" j] C(3) le assms(6) get_block_allocated [OF assms(1), of j]
      by (simp add: get_oob_block_def alloc'_def fr)
  qed
  moreover have "get_block m' alloc' j = get_block m alloc (j + k)" if "j < len - k" for j
  proof -
    have j: "unat j + unat k < unat len" using that le by (simp add: word_less_nat_alt unat_sub_le word_le_nat_alt)
    then have u: "unat (j + k) = unat j + unat k" using unat_less_u32 [of len] by (intro unat_add_u32) simp
    have "block_loop (rm_fresh m') m' (Some (rm_fresh m)) j = Inr (word_of_nat (drop (unat k) (chain_blocks m as) ! unat j))"
      using block_loop_word [OF C(2), of "rm_fresh m'" j] sub(2) S(1) j assms(6) unfolding C(4) fr by simp
    then have "get_block m' alloc' j = Inr (word_of_nat (chain_blocks m as ! (unat k + unat j)))"
      using j assms(6) by (simp add: get_block_def alloc'_def)
    then show ?thesis using get_block_allocated [OF assms(1), of "j + k"] j assms(6) by (simp add: u add.commute)
  qed
  ultimately show ?thesis using run by blast
qed

lemma reserve_oob_whole:
  assumes "allocated m alloc as" "regions_ok e m as" "get_region m alloc = Inr (b, len)" "length (chain_blocks m as) = unat len" "0 < len"
  shows "reserve_oob_blocks m alloc len = Inr (- 1, alloc, m)"
proof -
  obtain a as' r where S: "as = a # as'" "rm_cells m a = Some r" "rg_prev r = None" "dchain m (Some a) (rg_next r) as'"
    "a < rm_fresh m" "ba_list alloc = \<lparr>rl_first = Some a, rl_last = Some a, rl_iter = Some a, rl_partial = 0\<rparr>"
    by (rule allocated_Cons [OF assms(1,2)])
  have l: "rg_len r = len" using assms(3) S(2,6) by (simp add: get_region_def get_reg_def)
  then have "chain_blocks m as' = []" using assms(4) S(1,2) by (simp add: cell_blocks_def)
  moreover have "chain_blocks m as' \<noteq> []" if xs: "as' = x # xs" for x xs
  proof -
    obtain q where q: "rm_cells m x = Some q" "0 < rg_len q"
      using assms(2) S(1) xs by (auto simp: regions_ok_def region_ok_def split: option.splits)
    then have "reg_blocks q \<noteq> []" by (simp add: reg_blocks_def word_less_nat_alt)
    then show ?thesis using q(1) xs by (simp add: cell_blocks_def)
  qed
  ultimately have nx: "rg_next r = None" using S(4) by (cases as') auto
  obtain f where f: "rm_fresh m = Suc f" using S(5) by (cases "rm_fresh m") auto
  have "split_loop (rm_fresh m) m (Some a) len = Inr (None, 0)"
    using S(2) l nx by (subst split_loop.simps) (simp add: get_reg_def f split_loop.simps [of f])
  then have d: "do_split_allocation m alloc len = Inr (None, alloc, m)" using S(6) by (simp add: do_split_allocation_def)
  have "do_split_allocation m alloc 0 = Inr (Some a, alloc, m)" by (rule do_split_0 [OF _ S(2)]) (use S(6) l assms(5) in auto)
  moreover have "alloc\<lparr>ba_list := (ba_list alloc)\<lparr>rl_partial := 0\<rparr>\<rparr> = alloc" using S(6) by simp
  ultimately show ?thesis using d S(6) by (simp add: reserve_oob_blocks_def split_allocation_def)
qed

text \<open>The list with the regions \<open>ys\<close> as the append operation builds it.\<close>

definition queue_list :: "addr list \<Rightarrow> region_list" where
  "queue_list ys = (if ys = [] then empty_list
     else \<lparr>rl_first = Some (hd ys), rl_last = Some (last ys), rl_iter = Some (hd ys), rl_partial = 0\<rparr>)"

lemma region_list_append_queue:
  assumes "dchain m None (rl_first (queue_list ys)) ys" "distinct ys" "b \<notin> set ys" "rm_cells m b = Some rb"
  shows "\<exists>m'. region_list_append m (queue_list ys) (Some b) = Inr (queue_list (ys @ [b]), m') \<and>
    dchain m' None (rl_first (queue_list (ys @ [b]))) (ys @ [b]) \<and> (\<forall>x. x \<notin> set ys \<longrightarrow> x \<noteq> b \<longrightarrow> rm_cells m' x = rm_cells m x) \<and>
    (\<forall>x. cell_blocks m' x = cell_blocks m x) \<and> rm_fresh m' = rm_fresh m"
proof (cases "ys = []")
  case True
  let ?m = "m\<lparr>rm_cells := (rm_cells m)(b \<mapsto> rb\<lparr>rg_prev := None, rg_next := None\<rparr>)\<rparr>"
  have "region_list_append m (queue_list ys) (Some b) = Inr (queue_list (ys @ [b]), ?m)"
    using True assms(4) by (simp add: region_list_append_def queue_list_def empty_list_def reg_simps)
  then show ?thesis using True assms(4) by (intro exI [of _ ?m]) (auto simp: queue_list_def cell_blocks_def)
next
  case False
  let ?z = "last ys"
  obtain z where z: "rm_cells m ?z = Some z" using dchain_mapped [OF assms(1)] False by force
  have zy: "?z \<in> set ys" using False by simp
  then have zb: "?z \<noteq> b" using assms(3) by metis
  let ?m = "m\<lparr>rm_cells := (rm_cells m)(?z \<mapsto> z\<lparr>rg_next := Some b\<rparr>, b \<mapsto> rb\<lparr>rg_prev := Some ?z, rg_next := None\<rparr>)\<rparr>"
  have run: "region_list_append m (queue_list ys) (Some b) = Inr (queue_list (ys @ [b]), ?m)"
    using False assms(4) z zb by (simp add: region_list_append_def queue_list_def reg_simps)
  have "dchain ?m None (rl_first (queue_list ys)) (ys @ [b])"
    by (rule dchain_snoc [OF assms(1) False assms(2,3) z, where r = "rb\<lparr>rg_prev := Some ?z, rg_next := None\<rparr>"])
      (use zb assms(3) in auto)
  then show ?thesis using run False z zy assms(4) by (intro exI [of _ ?m]) (auto simp: queue_list_def cell_blocks_def)
qed

lemma region_list_remove_second:
  assumes "rm_cells m a = Some r" "dchain m (Some a) (Some b) (b # cs)" "distinct (a # b # cs)"
    "rl_first l = Some a" "rl_last l = Some a"
  shows "\<exists>m' rb. rm_cells m b = Some rb \<and> region_list_remove m l (Some b) = Inr (l, m') \<and>
    rm_cells m' a = Some (r\<lparr>rg_next := rg_next rb\<rparr>) \<and> (\<exists>q. rm_cells m' b = Some q) \<and> dchain m' (Some a) (rg_next rb) cs \<and>
    (\<forall>x. x \<notin> set (a # b # cs) \<longrightarrow> rm_cells m' x = rm_cells m x) \<and> (\<forall>x. cell_blocks m' x = cell_blocks m x) \<and>
    rm_fresh m' = rm_fresh m"
proof -
  obtain rb where rb: "rm_cells m b = Some rb" "rg_prev rb = Some a" "dchain m (Some b) (rg_next rb) cs"
    using assms(2) by (auto split: option.splits)
  show ?thesis
  proof (cases cs)
    case Nil
    let ?m = "m\<lparr>rm_cells := (rm_cells m)(a \<mapsto> r\<lparr>rg_next := None\<rparr>, b \<mapsto> rb\<lparr>rg_next := None, rg_prev := None\<rparr>)\<rparr>"
    have "region_list_remove m l (Some b) = Inr (l, ?m)"
      using Nil rb assms by (simp add: region_list_remove_def reg_simps Let_def)
    then show ?thesis using Nil rb assms by (intro exI [of _ ?m] exI [of _ rb]) (auto simp: cell_blocks_def)
  next
    case (Cons c ds)
    obtain rc where rc: "rm_cells m c = Some rc" "rg_next rb = Some c" "dchain m (Some c) (rg_next rc) ds"
      using rb(3) Cons by (auto split: option.splits)
    let ?m = "m\<lparr>rm_cells := (rm_cells m)(a \<mapsto> r\<lparr>rg_next := Some c\<rparr>, c \<mapsto> rc\<lparr>rg_prev := Some a\<rparr>,
        b \<mapsto> rb\<lparr>rg_next := None, rg_prev := None\<rparr>)\<rparr>"
    have run: "region_list_remove m l (Some b) = Inr (l, ?m)"
      using Cons rb rc assms by (simp add: region_list_remove_def reg_simps Let_def)
    have "dchain ?m (Some c) (rg_next rc) ds = dchain m (Some c) (rg_next rc) ds"
      by (rule dchain_cong) (use assms(3) Cons in auto)
    then have ch: "dchain ?m (Some a) (rg_next rb) cs" using rc assms(3) by (simp add: Cons)
    have "\<forall>x. cell_blocks ?m x = cell_blocks m x" using rb(1) rc(1) assms(1,3) Cons by (auto simp: cell_blocks_def)
    then show ?thesis using run ch rb rc assms Cons by (intro exI [of _ ?m] exI [of _ rb]) auto
  qed
qed

lemma move_oob_loop_all:
  assumes "rm_cells m a = Some r" "dchain m (Some a) (rg_next r) xs" "distinct (a # xs @ ys)" "length xs \<le> fuel"
    "ba_list alloc = \<lparr>rl_first = Some a, rl_last = Some a, rl_iter = Some a, rl_partial = 0\<rparr>" "ba_oob alloc = queue_list ys"
    "dchain m None (rl_first (queue_list ys)) ys"
  shows "\<exists>m'. move_oob_loop fuel m alloc (rg_next r) = Inr (alloc\<lparr>ba_oob := queue_list (ys @ xs)\<rparr>, m') \<and>
    dchain m' None (rl_first (queue_list (ys @ xs))) (ys @ xs) \<and> rm_cells m' a = Some (r\<lparr>rg_next := None\<rparr>) \<and>
    (\<forall>x. cell_blocks m' x = cell_blocks m x) \<and> rm_fresh m' = rm_fresh m"
  using assms
proof (induction xs arbitrary: m r ys alloc fuel)
  case Nil
  then have "rg_next r = None" "r\<lparr>rg_next := None\<rparr> = r" "alloc\<lparr>ba_oob := queue_list ys\<rparr> = alloc" by simp_all
  then show ?case using Nil by (intro exI [of _ m]) (simp add: move_oob_loop.simps)
next
  case (Cons b cs)
  have nb: "rg_next r = Some b" using Cons.prems(2) by simp
  obtain f where f: "fuel = Suc f" using Cons.prems(4) by (cases fuel) auto
  have dis: "distinct (a # b # cs)" using Cons.prems(3) by auto
  obtain m1 rb where m1: "rm_cells m b = Some rb" "region_list_remove m (ba_list alloc) (Some b) = Inr (ba_list alloc, m1)"
    "rm_cells m1 a = Some (r\<lparr>rg_next := rg_next rb\<rparr>)" "\<exists>q. rm_cells m1 b = Some q" "dchain m1 (Some a) (rg_next rb) cs"
    "\<forall>x. x \<notin> set (a # b # cs) \<longrightarrow> rm_cells m1 x = rm_cells m x" "\<forall>x. cell_blocks m1 x = cell_blocks m x" "rm_fresh m1 = rm_fresh m"
    using region_list_remove_second [OF Cons.prems(1) _ dis, of "ba_list alloc"] Cons.prems(2,5) unfolding nb by auto
  have "dchain m1 None (rl_first (queue_list ys)) ys"
    using Cons.prems(3,7) m1(6) by (subst dchain_cong [of ys m1 m]) auto
  then obtain m2 where m2: "region_list_append m1 (queue_list ys) (Some b) = Inr (queue_list (ys @ [b]), m2)"
    "dchain m2 None (rl_first (queue_list (ys @ [b]))) (ys @ [b])" "\<forall>x. x \<notin> set ys \<longrightarrow> x \<noteq> b \<longrightarrow> rm_cells m2 x = rm_cells m1 x"
    "\<forall>x. cell_blocks m2 x = cell_blocks m1 x" "rm_fresh m2 = rm_fresh m1"
    using region_list_append_queue [of m1 ys b] m1(4) Cons.prems(3) by auto
  let ?alloc = "alloc\<lparr>ba_oob := queue_list (ys @ [b])\<rparr>"
  have step: "move_oob_loop fuel m alloc (Some b) = move_oob_loop f m2 ?alloc (rg_next rb)"
    using dis m1(1,2) m2(1) Cons.prems(5,6) by (cases alloc) (subst move_oob_loop.simps, simp add: f get_reg_def)
  have a2: "rm_cells m2 a = Some (r\<lparr>rg_next := rg_next rb\<rparr>)" using m1(3) m2(3) Cons.prems(3) by auto
  have ch: "dchain m2 (Some a) (rg_next (r\<lparr>rg_next := rg_next rb\<rparr>)) cs"
    using m1(5) m2(3) Cons.prems(3) by (subst dchain_cong [of cs m2 m1]) auto
  have "distinct (a # cs @ ys @ [b])" "length cs \<le> f" using Cons.prems(3,4) f by auto
  from Cons.IH [OF a2 ch this, of ?alloc] obtain m' where
    "move_oob_loop f m2 ?alloc (rg_next rb) = Inr (?alloc\<lparr>ba_oob := queue_list ((ys @ [b]) @ cs)\<rparr>, m')"
    "dchain m' None (rl_first (queue_list ((ys @ [b]) @ cs))) ((ys @ [b]) @ cs)"
    "rm_cells m' a = Some (r\<lparr>rg_next := None\<rparr>)" "\<forall>x. cell_blocks m' x = cell_blocks m2 x" "rm_fresh m' = rm_fresh m2"
    using m2(2) Cons.prems(5) by auto
  then show ?case unfolding nb using step m1(7,8) m2(4,5) by (intro exI [of _ m']) simp
qed

lemma split_allocation_boundary:
  assumes "ba_list alloc = \<lparr>rl_first = Some a, rl_last = Some a, rl_iter = Some a, rl_partial = 0\<rparr>" "rm_cells m a = Some r"
    "0 < rg_len r" "rg_next r = Some c" "rm_cells m c = Some rc" "0 < rg_len rc" "a < rm_fresh m"
  shows "split_allocation m alloc (rg_len r) = Inr (Some c, alloc, m)"
proof -
  obtain f where f: "rm_fresh m = Suc f" using assms(7) by (cases "rm_fresh m") auto
  have "split_loop f m (Some c) 0 = Inr (Some c, 0)"
    using assms(5) less_imp_neq [OF assms(6), symmetric] by (subst split_loop.simps) (simp add: get_reg_def)
  then have "split_loop (rm_fresh m) m (Some a) (rg_len r) = Inr (Some c, 0)"
    using assms(2,4) by (subst split_loop.simps) (simp add: get_reg_def f)
  then have "do_split_allocation m alloc (rg_len r) = Inr (Some c, alloc, m)" using assms(1) by (simp add: do_split_allocation_def)
  moreover have "do_split_allocation m alloc 0 = Inr (Some a, alloc, m)"
    by (rule do_split_0 [OF _ assms(2,3)]) (use assms(1) in auto)
  moreover have "alloc\<lparr>ba_list := (ba_list alloc)\<lparr>rl_partial := 0\<rparr>\<rparr> = alloc" using assms(1) by simp
  ultimately show ?thesis using assms(1) by (simp add: split_allocation_def)
qed

lemma reserve_oob_boundary:
  assumes "allocated m alloc as" "regions_ok e m as" "get_region m alloc = Inr (b, l)" "length (chain_blocks m as) = unat len" "l < len"
  shows "\<exists>alloc' m'. reserve_oob_blocks m alloc l = Inr (0, alloc', m') \<and>
    (\<forall>j. j < len - l \<longrightarrow> get_oob_block m' alloc' j = get_block m alloc (j + l)) \<and>
    (\<forall>j. j < l \<longrightarrow> get_block m' alloc' j = get_block m alloc j)"
proof -
  obtain a as' r where S: "as = a # as'" "rm_cells m a = Some r" "rg_prev r = None" "dchain m (Some a) (rg_next r) as'"
    "region_ok e r" "a \<notin> set as'" "a < rm_fresh m" "ba_list alloc = \<lparr>rl_first = Some a, rl_last = Some a, rl_iter = Some a, rl_partial = 0\<rparr>"
    by (rule allocated_Cons [OF assms(1,2)])
  have l: "rg_len r = l" "0 < l" using assms(3) S(2,5,8) by (auto simp: get_region_def get_reg_def region_ok_def)
  have al: "ba_oob alloc = queue_list []" "distinct as" "length as \<le> rm_fresh m"
    using assms(1) built_length [of m _ as] by (auto simp: allocated_def built_def queue_list_def)
  have cl: "length (cell_blocks m a) = unat l" using S(2) l(1) by (simp add: cell_blocks_def)
  obtain c cs where c: "as' = c # cs" using assms(4,5) S(1) cl by (cases as') (auto simp: word_less_nat_alt)
  obtain rc where rc: "rm_cells m c = Some rc" "rg_next r = Some c" "0 < rg_len rc"
    using S(1,4) c assms(2) by (auto simp: regions_ok_def region_ok_def split: option.splits)
  have sp: "split_allocation m alloc l = Inr (Some c, alloc, m)"
    using split_allocation_boundary [OF S(8,2) _ rc(2,1,3) S(7)] l by simp
  obtain m' where mv: "move_oob_loop (rm_fresh m) m alloc (Some c) = Inr (alloc\<lparr>ba_oob := queue_list as'\<rparr>, m')"
    "dchain m' None (rl_first (queue_list as')) as'" "rm_cells m' a = Some (r\<lparr>rg_next := None\<rparr>)"
    "\<forall>x. cell_blocks m' x = cell_blocks m x" "rm_fresh m' = rm_fresh m"
    using move_oob_loop_all [OF S(2,4), of "[]" "rm_fresh m" alloc] al S(1,8) rc(2) by (auto simp: queue_list_def empty_list_def)
  let ?alloc = "alloc\<lparr>ba_oob := queue_list as'\<rparr>"
  have cb: "chain_blocks m' as' = chain_blocks m as'" "chain_blocks m' [a] = cell_blocks m a" "length (chain_blocks m as') = unat len - unat l"
    using mv(4) assms(4) S(1) cl by (auto intro: chain_blocks_cong)
  have oob: "get_oob_block m' ?alloc j = get_block m alloc (j + l)" if "j < len - l" for j
  proof -
    have j: "unat j + unat l < unat len" using that assms(5) by (simp add: word_less_nat_alt unat_sub_le less_imp_le)
    then have u: "unat (j + l) = unat j + unat l" using unat_less_u32 [of len] by (intro unat_add_u32) simp
    have lt: "unat j < length (chain_blocks m' as')" unfolding cb(1,3) using j by simp
    have "block_loop (rm_fresh m') m' (rl_first (queue_list as')) j = Inr (word_of_nat (chain_blocks m as' ! unat j))"
      using block_loop_word [OF dchain_nchain [OF mv(2)] _ lt, of "rm_fresh m'"] al(3) S(1) mv(5) unfolding cb(1) by simp
    then have "get_oob_block m' ?alloc j = Inr (word_of_nat (chain_blocks m as' ! unat j))"
      by (simp add: get_oob_block_def queue_list_def c)
    then show ?thesis using get_block_allocated [OF assms(1), of "j + l"] j assms(4) S(1) cl by (simp add: u nth_append)
  qed
  have rest: "get_block m' ?alloc j = get_block m alloc j" if "j < l" for j
  proof -
    have j: "unat j < unat l" "unat j < length (chain_blocks m as)" using that assms(4,5) by (simp_all add: word_less_nat_alt)
    have "get_block m' ?alloc j = Inr (word_of_nat (cell_blocks m a ! unat j))"
      using block_loop_word [of m' "Some a" "[a]" "rm_fresh m'" j] mv(3,5) j cb cl S(7,8) by (simp add: get_block_def)
    then show ?thesis using get_block_allocated [OF assms(1) j(2)] j cl S(1) by (simp add: nth_append)
  qed
  show ?thesis using sp mv(1) oob rest by (intro exI [of _ ?alloc] exI [of _ m']) (simp add: reserve_oob_blocks_def)
qed

text \<open>
  C36. Setting aside fewer blocks than the first region has, \<open>k < l\<close>, is right: the \<open>k\<close> blocks set aside are the
  first \<open>k\<close> of the allocation, in order, and what remains are the others, in order.  Setting aside exactly the
  blocks of the first region is wrong: when there is no other region the call is refused, although the blocks are
  there, and when there are others these are set aside, all of them, and the first region remains.
\<close>

theorem reserve_oob_blocks_exact:
  assumes "fs_ok N e" "0 < len" "allocate_blocks e m len = Inr (Some alloc, m', e')"
    "get_region m' alloc = Inr (b, l)" "0 < k" "k \<le> l"
  shows "if k = len then reserve_oob_blocks m' alloc k = Inr (- 1, alloc, m')
    else \<exists>alloc' m''. reserve_oob_blocks m' alloc k = Inr (0, alloc', m'') \<and>
      (if k < l
       then (\<forall>j. j < k \<longrightarrow> get_oob_block m'' alloc' j = get_block m' alloc j) \<and>
            (\<forall>j. j < len - k \<longrightarrow> get_block m'' alloc' j = get_block m' alloc (j + k))
       else (\<forall>j. j < len - k \<longrightarrow> get_oob_block m'' alloc' j = get_block m' alloc (j + k)) \<and>
            (\<forall>j. j < k \<longrightarrow> get_block m'' alloc' j = get_block m' alloc j))"
proof -
  obtain as where A: "allocated m' alloc as" "regions_ok e' m' as" "length (chain_blocks m' as) = unat len"
    by (rule allocate_blocks_shape [OF assms(1-3)])
  obtain a as' r where S: "as = a # as'" "rm_cells m' a = Some r"
    "ba_list alloc = \<lparr>rl_first = Some a, rl_last = Some a, rl_iter = Some a, rl_partial = 0\<rparr>"
    by (rule allocated_Cons [OF A(1,2)])
  have ll: "l \<le> len" using A(3) S assms(4) by (simp add: get_region_def get_reg_def cell_blocks_def word_le_nat_alt)
  consider "k < l" "k \<noteq> len" | "k = len" "l = len" | "k = l" "l < len" using assms(6) ll by fastforce
  then show ?thesis
  proof cases
    case 1
    then show ?thesis using reserve_oob_within [OF A(1,2) assms(4,5) 1(1) A(3)] by simp
  next
    case 2
    then show ?thesis using reserve_oob_whole [OF A(1,2) _ A(3) assms(2)] assms(4) by simp
  next
    case 3
    then show ?thesis using reserve_oob_boundary [OF A(1,2) assms(4) A(3)] by auto
  qed
qed

section \<open>Examples\<close>

definition demo_run :: "block_allocation option \<times> rmem \<times> ext4" where
  "demo_run = (case allocate_blocks demo_fs demo_mem 40 of Inr x \<Rightarrow> x | Inl _ \<Rightarrow> (None, demo_mem, demo_fs))"

definition demo_alloc :: block_allocation where
  "demo_alloc = (case fst demo_run of Some alloc \<Rightarrow> alloc | None \<Rightarrow> create_allocation)"

lemma demo_run_region: "get_region (fst (snd demo_run)) demo_alloc = Inr (3, 29)"
  by code_simp

lemma demo_run_eq: "allocate_blocks demo_fs demo_mem 40 = Inr (Some demo_alloc, fst (snd demo_run), snd (snd demo_run))"
proof -
  have "\<exists>alloc m' e'. allocate_blocks demo_fs demo_mem 40 = Inr (Some alloc, m', e')"
    using allocate_blocks_run [OF demo_fs_ok, of 40 demo_mem] demo_fs_card by (auto simp: card_fs_free [OF demo_fs_ok])
  then show ?thesis by (auto simp: demo_run_def demo_alloc_def)
qed

theorem reduce_allocation_first_region_witness:
  "reduce_allocation (snd (snd demo_run)) (fst (snd demo_run)) demo_alloc 30 = Inl NullDeref"
  using reduce_allocation_first_region [OF demo_fs_ok _ demo_run_eq demo_run_region, of 30] by simp


theorem reserve_oob_blocks_exact_witness:
  "\<exists>alloc' m''. reserve_oob_blocks (fst (snd demo_run)) demo_alloc 1 = Inr (0, alloc', m'') \<and>
    get_oob_block m'' alloc' 0 = get_block (fst (snd demo_run)) demo_alloc 0 \<and>
    get_block m'' alloc' 0 = get_block (fst (snd demo_run)) demo_alloc 1"
  using reserve_oob_blocks_exact [OF demo_fs_ok _ demo_run_eq demo_run_region, of 1] by fastforce

end
