(* ===== verification/Ext4_Extent.thy ===== *)
theory Ext4_Extent
  imports Ext4_Cursor
begin

text \<open>
  Files described by extents, \<^verbatim>\<open>ext4_utils/extent.c\<close>: blocks for a file are allocated, one more than needed for
  a block of extents, the spare one is given back when the extents fit into the inode, and the regions are
  written as extents.  Buffers are numbered in the order they are made; \<^verbatim>\<open>calloc\<close> succeeds.
\<close>

section \<open>Data on disk\<close>

text \<open>Of an inode, the fields this file writes; the block map is bytes, since it is written through casts.\<close>

record ext4_inode =
  i_size_lo :: u32
  i_blocks_lo :: u32
  i_flags :: u32
  i_block :: "byte list"
  i_size_high :: u32
  l_i_blocks_high :: u16

definition EXT4_EXTENTS_FL :: u32 where
  "EXT4_EXTENTS_FL = 0x80000"

definition ext4_extent_header :: "u16 \<Rightarrow> u16 \<Rightarrow> u16 \<Rightarrow> byte list" where
  "ext4_extent_header eh_entries eh_max eh_depth =
     u16_le 0xf30a @ u16_le eh_entries @ u16_le eh_max @ u16_le eh_depth @ u32_le 0"

definition ext4_extent :: "u32 \<Rightarrow> u16 \<Rightarrow> u32 \<Rightarrow> byte list" where
  "ext4_extent ee_block ee_len ee_start_lo = u32_le ee_block @ u16_le ee_len @ u16_le 0 @ u32_le ee_start_lo"

definition ext4_extent_idx :: "u32 \<Rightarrow> byte list" where
  "ext4_extent_idx ei_leaf_lo = u32_le 0 @ u32_le ei_leaf_lo @ u16_le 0 @ u16_le 0"

definition poke :: "byte list \<Rightarrow> nat \<Rightarrow> byte list \<Rightarrow> byte list res" where
  "poke mem off bs = (if off + length bs \<le> length mem
     then Inr (take off mem @ bs @ drop (off + length bs) mem) else Inl OutOfBounds)"

section \<open>State\<close>

record fs_state =
  fx_e :: ext4
  fx_m :: rmem
  fx_bufs :: "byte list list"

definition queue_data :: "fs_state \<Rightarrow> buffer \<Rightarrow> u32 \<Rightarrow> u32 \<Rightarrow> fs_state" where
  "queue_data s b len block = s\<lparr>fx_e := (fx_e s)\<lparr>ex_queue := ex_queue (fx_e s) @ [(b, len, block)]\<rparr>\<rparr>"

definition fx_block_size :: "fs_state \<Rightarrow> u32" where
  "fx_block_size s = fi_block_size (ex_info (fx_e s))"

section \<open>Extents of an inode\<close>

text \<open>The loop that writes one extent per region, at \<open>off\<close> in the memory it points to.\<close>

fun extents_loop :: "nat \<Rightarrow> rmem \<Rightarrow> block_allocation \<Rightarrow> byte list \<Rightarrow> nat \<Rightarrow> u32 \<Rightarrow> (block_allocation \<times> byte list) res" where
  "extents_loop fuel m alloc mem off file_block =
    (if last_region alloc then Inr (alloc, mem)
     else case fuel of 0 \<Rightarrow> Inl Diverges
     | Suc fuel \<Rightarrow>
       bindR (get_region m alloc) (\<lambda>(region_block, region_len).
       bindR (poke mem off (ext4_extent file_block (ucast region_len) region_block)) (\<lambda>mem.
       bindR (get_next_region m alloc) (\<lambda>alloc.
         extents_loop fuel m alloc mem (off + 12) (file_block + region_len)))))"

declare extents_loop.simps [simp del]

text \<open>Extents in the inode itself, at most three.\<close>

definition extents_in_inode :: "fs_state \<Rightarrow> ext4_inode \<Rightarrow> block_allocation \<Rightarrow> u32 \<Rightarrow> (block_allocation \<times> ext4_inode \<times> fs_state) res" where
  "extents_in_inode s inode alloc allocation_len =
    bindR (poke (i_block inode) 0 (ext4_extent_header (ucast allocation_len) 3 0)) (\<lambda>mem.
    bindR (extents_loop (rm_fresh (fx_m s)) (fx_m s) alloc mem 12 0) (\<lambda>(alloc, mem).
      Inr (alloc, inode\<lparr>i_block := mem\<rparr>, s)))"

text \<open>Extents in a block of their own; \<^term>\<open>None\<close> when there are too many for the test of the source.\<close>

definition extents_in_block :: "fs_state \<Rightarrow> ext4_inode \<Rightarrow> block_allocation \<Rightarrow> u32 \<Rightarrow> u32 \<Rightarrow>
    (block_allocation option \<times> ext4_inode \<times> fs_state) res" where
  "extents_in_block s inode alloc allocation_len extent_block =
    (let bs = fx_block_size s in
     bindR (poke (i_block inode) 0 (ext4_extent_header 1 3 1)) (\<lambda>mem.
     bindR (poke mem 12 (ext4_extent_idx extent_block)) (\<lambda>mem.
     let inode = inode\<lparr>i_block := mem\<rparr>; k = length (fx_bufs s);
         s = queue_data (s\<lparr>fx_bufs := fx_bufs s @ [replicate (unat bs) 0]\<rparr>) (Heap_Data k 0) bs extent_block
     in
     if sint (bs - 1) < sint allocation_len then error (ex_force (fx_e s)) (Inr (None, inode, s))
     else
       bindR (poke (fx_bufs s ! k) 0 (ext4_extent_header (ucast allocation_len) (ucast ((ucast bs - 12) div 12 :: u64)) 0)) (\<lambda>mem.
       bindR (extents_loop (rm_fresh (fx_m s)) (fx_m s) alloc mem 12 0) (\<lambda>(alloc, mem).
         Inr (Some alloc, inode, s\<lparr>fx_bufs := (fx_bufs s)[k := mem]\<rparr>))))))"

definition set_inode_size :: "ext4_inode \<Rightarrow> u64 \<Rightarrow> u64 \<Rightarrow> ext4_inode" where
  "set_inode_size inode len blocks = inode\<lparr>i_flags := i_flags inode OR EXT4_EXTENTS_FL, i_size_lo := ucast len,
     i_size_high := ucast (drop_bit 32 len), i_blocks_lo := ucast blocks, l_i_blocks_high := ucast (drop_bit 32 blocks)\<rparr>"

definition do_inode_allocate_extents :: "fs_state \<Rightarrow> ext4_inode \<Rightarrow> u64 \<Rightarrow> (block_allocation option \<times> ext4_inode \<times> fs_state) res" where
  "do_inode_allocate_extents s inode len =
    (let bs = fx_block_size s in
     bindR (assertR (bs \<noteq> 0) DivByZero) (\<lambda>_.
     let block_len = ucast ((len + ucast bs - 1) div ucast bs) :: u32 in
     bindR (allocate_blocks (fx_e s) (fx_m s) (block_len + 1)) (\<lambda>(alloc, m, e).
     let s = s\<lparr>fx_e := e, fx_m := m\<rparr> in
     case alloc of None \<Rightarrow> error (ex_force e) (Inr (None, inode, s))
     | Some alloc \<Rightarrow>
       bindR (block_allocation_num_regions m alloc) (\<lambda>allocation_len.
       bindR (if sint allocation_len \<le> 3
              then bindR (reduce_allocation e m alloc 1) (\<lambda>(alloc, m, e). Inr (0, alloc, s\<lparr>fx_e := e, fx_m := m\<rparr>))
              else bindR (reserve_oob_blocks m alloc 1) (\<lambda>(_, alloc, m).
                   bindR (get_oob_block m alloc 0) (\<lambda>b. Inr (b, alloc, s\<lparr>fx_m := m\<rparr>)))) (\<lambda>(extent_block, alloc, s).
       bindR (if extent_block = 0
              then bindR (extents_in_inode s inode alloc allocation_len) (\<lambda>(alloc, inode, s). Inr (Some alloc, inode, s))
              else extents_in_block s inode alloc allocation_len extent_block) (\<lambda>(alloc, inode, s).
       case alloc of None \<Rightarrow> Inr (None, inode, s)
       | Some alloc \<Rightarrow>
         let block_len = (if extent_block \<noteq> 0 then block_len + 1 else block_len);
             blocks = ucast block_len * ucast bs div 512
         in Inr (Some (rewind_alloc alloc), set_inode_size inode len blocks, s)))))))"

section \<open>Contents\<close>

text \<open>The first \<open>backing_len\<close> bytes of buffer \<open>k\<close>, region by region.\<close>

fun backing_loop :: "nat \<Rightarrow> fs_state \<Rightarrow> block_allocation \<Rightarrow> (nat \<Rightarrow> buffer) \<Rightarrow> nat \<Rightarrow> u64 \<Rightarrow> (block_allocation \<times> fs_state) res" where
  "backing_loop fuel s alloc buf off backing_len =
    (if backing_len = 0 then Inr (alloc, s)
     else case fuel of 0 \<Rightarrow> Inl Diverges
     | Suc fuel \<Rightarrow>
       bindR (get_region (fx_m s) alloc) (\<lambda>(region_block, region_len).
       let len = ucast (min (ucast (region_len * fx_block_size s)) backing_len) :: u32;
           s = queue_data s (buf off) len region_block
       in bindR (get_next_region (fx_m s) alloc) (\<lambda>alloc.
            backing_loop fuel s alloc buf (off + unat len) (backing_len - ucast len))))"

declare backing_loop.simps [simp del]

definition extent_create_backing :: "fs_state \<Rightarrow> block_allocation \<Rightarrow> u64 \<Rightarrow> (nat \<times> block_allocation \<times> fs_state) res" where
  "extent_create_backing s alloc backing_len =
    (let k = length (fx_bufs s); s = s\<lparr>fx_bufs := fx_bufs s @ [replicate (unat backing_len) 0]\<rparr> in
     bindR (backing_loop (Suc (rm_fresh (fx_m s))) s alloc (Heap_Data k) 0 backing_len) (\<lambda>(alloc, s). Inr (k, alloc, s)))"

definition extent_create_backing_file :: "fs_state \<Rightarrow> block_allocation \<Rightarrow> u64 \<Rightarrow> string \<Rightarrow> (block_allocation \<times> fs_state) res" where
  "extent_create_backing_file s alloc backing_len filename =
     backing_loop (Suc (rm_fresh (fx_m s))) s alloc (\<lambda>off. File_Data filename (int off)) 0 backing_len"

definition inode_allocate_data_extents :: "fs_state \<Rightarrow> ext4_inode \<Rightarrow> u64 \<Rightarrow> u64 \<Rightarrow> (nat option \<times> ext4_inode \<times> fs_state) res" where
  "inode_allocate_data_extents s inode len backing_len =
    bindR (do_inode_allocate_extents s inode len) (\<lambda>(alloc, inode, s).
    case alloc of None \<Rightarrow> error (ex_force (fx_e s)) (Inr (None, inode, s))
    | Some alloc \<Rightarrow>
      bindR (if backing_len \<noteq> 0
             then bindR (extent_create_backing s alloc backing_len) (\<lambda>(k, alloc, s). Inr (Some k, alloc, s))
             else Inr (None, alloc, s)) (\<lambda>(data, alloc, s).
      bindR (free_alloc (fx_m s) alloc) (\<lambda>m. Inr (data, inode, s\<lparr>fx_m := m\<rparr>))))"

definition inode_allocate_file_extents :: "fs_state \<Rightarrow> ext4_inode \<Rightarrow> u64 \<Rightarrow> string \<Rightarrow>
    (block_allocation option \<times> ext4_inode \<times> fs_state) res" where
  "inode_allocate_file_extents s inode len filename =
    bindR (do_inode_allocate_extents s inode len) (\<lambda>(alloc, inode, s).
    case alloc of None \<Rightarrow> error (ex_force (fx_e s)) (Inr (None, inode, s))
    | Some alloc \<Rightarrow>
      bindR (extent_create_backing_file s alloc len filename) (\<lambda>(alloc, s). Inr (Some alloc, inode, s)))"

definition inode_allocate_extents :: "fs_state \<Rightarrow> ext4_inode \<Rightarrow> u64 \<Rightarrow> (ext4_inode \<times> fs_state) res" where
  "inode_allocate_extents s inode len =
    bindR (do_inode_allocate_extents s inode len) (\<lambda>(alloc, inode, s).
    case alloc of None \<Rightarrow> error (ex_force (fx_e s)) (Inr (inode, s))
    | Some alloc \<Rightarrow> bindR (free_alloc (fx_m s) alloc) (\<lambda>m. Inr (inode, s\<lparr>fx_m := m\<rparr>)))"

section \<open>What the extents of an inode describe\<close>

text \<open>An extent as file block, length and first block on disk.\<close>

primrec dec_extents :: "nat \<Rightarrow> byte list \<Rightarrow> (u32 \<times> u16 \<times> u32) list" where
  "dec_extents 0 bs = []"
| "dec_extents (Suc n) bs = (u32_of_le bs, u16_of_le (drop 4 bs), u32_of_le (drop 8 bs)) # dec_extents n (drop 12 bs)"

definition inode_extents :: "ext4_inode \<Rightarrow> (u32 \<times> u16 \<times> u32) list" where
  "inode_extents inode = dec_extents (unat (u16_of_le (drop 2 (i_block inode)))) (drop 12 (i_block inode))"

definition extent_blocks :: "(u32 \<times> u16 \<times> u32) list \<Rightarrow> nat list" where
  "extent_blocks xs = concat (map (\<lambda>(_, l, b). [unat b ..< unat b + unat l]) xs)"

text \<open>The extents cover the file without gaps from block \<open>k\<close> on.\<close>

fun contiguous :: "nat \<Rightarrow> (u32 \<times> u16 \<times> u32) list \<Rightarrow> bool" where
  "contiguous k [] = True"
| "contiguous k ((f, l, b) # xs) = (unat f = k \<and> contiguous (k + unat l) xs)"

section \<open>The loop over the regions\<close>

fun ext_list :: "rmem \<Rightarrow> u32 \<Rightarrow> addr list \<Rightarrow> byte list" where
  "ext_list m fb [] = []"
| "ext_list m fb (a # as) = (case rm_cells m a of None \<Rightarrow> []
     | Some r \<Rightarrow> ext4_extent fb (ucast (rg_len r)) (rg_block r) @ ext_list m (fb + rg_len r) as)"

lemma length_ext4_extent [simp]: "length (ext4_extent f l b) = 12"
  by (simp add: ext4_extent_def)

lemma length_ext_list: "nchain m p as \<Longrightarrow> length (ext_list m fb as) = 12 * length as"
  by (induction as arbitrary: p fb) (auto split: option.splits)

lemma extents_loop_chain:
  assumes "nchain m p as" "rl_iter (ba_list alloc) = p" "rl_partial (ba_list alloc) = 0" "length as \<le> fuel"
    "off + 12 * length as \<le> length mem"
  shows "extents_loop fuel m alloc mem off fb = Inr (alloc\<lparr>ba_list := (ba_list alloc)\<lparr>rl_iter := None, rl_partial := 0\<rparr>\<rparr>,
    take off mem @ ext_list m fb as @ drop (off + 12 * length as) mem)"
  using assms
proof (induction as arbitrary: p alloc mem off fb fuel)
  case Nil
  then have "alloc\<lparr>ba_list := (ba_list alloc)\<lparr>rl_iter := None, rl_partial := 0\<rparr>\<rparr> = alloc" by simp
  then show ?case using Nil by (simp add: extents_loop.simps last_region_def)
next
  case (Cons a as)
  obtain f where f: "fuel = Suc f" using Cons.prems(4) by (cases fuel) auto
  obtain r where r: "p = Some a" "rm_cells m a = Some r" "nchain m (rg_next r) as"
    using Cons.prems(1) by (auto split: option.splits)
  let ?x = "ext4_extent fb (ucast (rg_len r)) (rg_block r)"
  let ?mem = "take off mem @ ?x @ drop (off + 12) mem"
  let ?alloc = "alloc\<lparr>ba_list := (ba_list alloc)\<lparr>rl_iter := rg_next r, rl_partial := 0\<rparr>\<rparr>"
  have step: "extents_loop fuel m alloc mem off fb = extents_loop f m ?alloc ?mem (off + 12) (fb + rg_len r)"
    using Cons.prems(2,3,5) r f
    by (subst extents_loop.simps) (simp add: last_region_def get_region_def get_next_region_def get_reg_def poke_def)
  have off: "length (take off mem) = off" using Cons.prems(5) by simp
  have "extents_loop f m ?alloc ?mem (off + 12) (fb + rg_len r) =
      Inr (?alloc\<lparr>ba_list := (ba_list ?alloc)\<lparr>rl_iter := None, rl_partial := 0\<rparr>\<rparr>,
        take (off + 12) ?mem @ ext_list m (fb + rg_len r) as @ drop (off + 12 + 12 * length as) ?mem)"
    using Cons.prems f by (intro Cons.IH [OF r(3)]) simp_all
  then show ?case using step r off by (simp add: ac_simps)
qed

lemma dec_ext_list:
  assumes "nchain m p as" "\<And>a r. a \<in> set as \<Longrightarrow> rm_cells m a = Some r \<Longrightarrow> unat (rg_len r) < 2 ^ 16"
    "unat fb + length (chain_blocks m as) < 2 ^ 32"
  shows "extent_blocks (dec_extents (length as) (ext_list m fb as @ rest)) = chain_blocks m as"
    and "contiguous (unat fb) (dec_extents (length as) (ext_list m fb as @ rest))"
proof -
  have "extent_blocks (dec_extents (length as) (ext_list m fb as @ rest)) = chain_blocks m as \<and>
      contiguous (unat fb) (dec_extents (length as) (ext_list m fb as @ rest))"
    using assms
  proof (induction as arbitrary: p fb)
    case Nil
    then show ?case by (simp add: extent_blocks_def)
  next
    case (Cons a as)
    obtain r where r: "p = Some a" "rm_cells m a = Some r" "nchain m (rg_next r) as"
      using Cons.prems(1) by (auto split: option.splits)
    have l: "unat (ucast (rg_len r) :: u16) = unat (rg_len r)"
      using Cons.prems(2) [of a r] r(2) by (simp add: unsigned_ucast_eq take_bit_nat_eq_self)
    have sum: "unat fb + unat (rg_len r) + length (chain_blocks m as) < 2 ^ 32"
      using Cons.prems(3) r(2) by (simp add: cell_blocks_def)
    then have fb: "unat (fb + rg_len r) = unat fb + unat (rg_len r)" by (intro unat_add_u32) simp
    have "extent_blocks (dec_extents (length as) (ext_list m (fb + rg_len r) as @ rest)) = chain_blocks m as \<and>
        contiguous (unat (fb + rg_len r)) (dec_extents (length as) (ext_list m (fb + rg_len r) as @ rest))"
      using Cons.prems(2) sum by (intro Cons.IH [OF r(3)]) (auto simp: fb)
    then show ?case using r(2)
      by (simp add: ext4_extent_def extent_blocks_def cell_blocks_def reg_blocks_def l fb)
  qed
  then show "extent_blocks (dec_extents (length as) (ext_list m fb as @ rest)) = chain_blocks m as"
    "contiguous (unat fb) (dec_extents (length as) (ext_list m fb as @ rest))" by blast+
qed

lemma count_regions_chain:
  assumes "nchain m p as" "length as \<le> fuel"
  shows "count_regions fuel m p i = Inr (i + word_of_nat (length as))"
  using assms
proof (induction as arbitrary: p i fuel)
  case (Cons a as)
  then obtain f where "fuel = Suc f" by (cases fuel) auto
  then show ?case using Cons by (subst count_regions.simps) (auto simp: get_reg_def add.assoc split: option.splits)
qed (simp add: count_regions.simps)

section \<open>Files in at most three regions\<close>

lemma allocate_blocks_facts:
  assumes "fs_ok N e" "0 < len" "allocate_blocks e m len = Inr (Some alloc, m', e')"
  obtains as where "allocated m' alloc as" "fs_ok N e'" "regions_ok e' m' as" "length (chain_blocks m' as) = unat len"
    "distinct (chain_blocks m' as)" "set (chain_blocks m' as) \<subseteq> fs_free N e" "fs_free N e' = fs_free N e - set (chain_blocks m' as)"
proof (cases "unat len \<le> total_free e")
  case True
  then show ?thesis using allocate_blocks_run [OF assms(1,2) True, of m] assms(3) that by auto
next
  case False
  then show ?thesis using allocate_blocks_fail [OF assms(1), of len m] assms(3) by (cases "ex_force e") auto
qed

lemma region_len_le:
  assumes "fs_ok N e" "region_ok e r"
  shows "unat (rg_len r) \<le> N"
proof -
  have "bg_ok N (ex_bgs e ! rg_bg r)" using assms by (simp add: fs_ok_def region_ok_def)
  then show ?thesis using assms(2) by (simp add: bg_ok_def region_ok_def ff_of_def)
qed

lemma length_le_chain_blocks:
  assumes "regions_ok e m as"
  shows "length as \<le> length (chain_blocks m as)"
  using assms
proof (induction as)
  case (Cons a as)
  obtain r where r: "rm_cells m a = Some r" "0 < unat (rg_len r)"
    using Cons.prems by (auto simp: regions_ok_def region_ok_def word_less_nat_alt split: option.splits)
  have "length as \<le> length (chain_blocks m as)" using Cons by (simp add: regions_ok_def)
  then show ?case using r by (simp add: cell_blocks_def)
qed simp

text \<open>Shortening the first region by one block takes its last block out of the blocks of the chain.\<close>

lemma shorten_first:
  assumes "rm_cells m a = Some r" "a \<notin> set as" "1 < rg_len r" "distinct (chain_blocks m (a # as))"
  defines "m' \<equiv> m\<lparr>rm_cells := (rm_cells m)(a \<mapsto> r\<lparr>rg_len := rg_len r - 1\<rparr>)\<rparr>" and "x \<equiv> unat (rg_block r) + unat (rg_len r) - 1"
  shows "distinct (chain_blocks m' (a # as))" "set (chain_blocks m (a # as)) = insert x (set (chain_blocks m' (a # as)))"
    "x \<notin> set (chain_blocks m' (a # as))" "length (chain_blocks m (a # as)) = Suc (length (chain_blocks m' (a # as)))"
proof -
  have l: "unat (rg_len r - 1) = unat (rg_len r) - 1" "1 < unat (rg_len r)"
    using assms(3) by (simp_all add: unat_sub_le less_imp_le word_less_nat_alt)
  have "[unat (rg_block r) ..< unat (rg_block r) + unat (rg_len r)] = [unat (rg_block r) ..< x] @ [x]"
    using l(2) upt_Suc_append [of "unat (rg_block r)" x] by (simp add: x_def)
  then have c: "cell_blocks m a = cell_blocks m' a @ [x]"
    using assms(1) l by (simp add: cell_blocks_def reg_blocks_def m'_def x_def)
  have t: "chain_blocks m' as = chain_blocks m as"
    by (rule chain_blocks_cong) (use assms(2) in \<open>auto simp: m'_def cell_blocks_def\<close>)
  show "distinct (chain_blocks m' (a # as))" "set (chain_blocks m (a # as)) = insert x (set (chain_blocks m' (a # as)))"
    "x \<notin> set (chain_blocks m' (a # as))" "length (chain_blocks m (a # as)) = Suc (length (chain_blocks m' (a # as)))"
    using assms(4) by (auto simp: c t)
qed

lemma extents_in_inode_run:
  assumes "nchain (fx_m s) (rl_iter (ba_list alloc)) as" "rl_partial (ba_list alloc) = 0" "length as \<le> 3" "length as \<le> rm_fresh (fx_m s)"
    "length (i_block inode) = 60"
  shows "extents_in_inode s inode alloc k = Inr (alloc\<lparr>ba_list := (ba_list alloc)\<lparr>rl_iter := None, rl_partial := 0\<rparr>\<rparr>,
    inode\<lparr>i_block := ext4_extent_header (ucast k) 3 0 @ ext_list (fx_m s) 0 as @ drop (12 + 12 * length as) (i_block inode)\<rparr>, s)"
proof -
  let ?h = "ext4_extent_header (ucast k) 3 0"
  have h: "length ?h = 12" by (simp add: ext4_extent_header_def)
  then have "poke (i_block inode) 0 ?h = Inr (?h @ drop 12 (i_block inode))" using assms(5) by (simp add: poke_def)
  moreover have "extents_loop (rm_fresh (fx_m s)) (fx_m s) alloc (?h @ drop 12 (i_block inode)) 12 0 =
      Inr (alloc\<lparr>ba_list := (ba_list alloc)\<lparr>rl_iter := None, rl_partial := 0\<rparr>\<rparr>,
        take 12 (?h @ drop 12 (i_block inode)) @ ext_list (fx_m s) 0 as @ drop (12 + 12 * length as) (?h @ drop 12 (i_block inode)))"
    using assms h by (intro extents_loop_chain [OF assms(1)]) simp_all
  ultimately show ?thesis using h by (simp add: extents_in_inode_def add.commute)
qed

text \<open>The allocation of a file and its spare block, and the regions that remain when the spare block went back.\<close>

lemma spare_block_returned:
  assumes "fs_ok N e0" "N < 2 ^ 16" "unat w + 1 < 2 ^ 32" "allocate_blocks e0 m0 (w + 1) = Inr (Some alloc, m, e)"
    "block_allocation_num_regions m alloc = Inr k" "k \<le> 3" "get_region m alloc = Inr (b, l)" "1 < l"
  obtains m' e' as where "reduce_allocation e m alloc 1 = Inr (alloc, m', e')" "fs_ok N e'" "k = word_of_nat (length as)" "length as < 2 ^ 32"
    "nchain m' (rl_iter (ba_list alloc)) as" "rl_partial (ba_list alloc) = 0" "rl_first (ba_list alloc) = rl_iter (ba_list alloc)"
    "length as \<le> rm_fresh m'"
    "length (chain_blocks m' as) = unat w" "distinct (chain_blocks m' as)" "set (chain_blocks m' as) \<subseteq> fs_free N e0"
    "fs_free N e' = fs_free N e0 - set (chain_blocks m' as)"
    "\<forall>c \<in> set as. \<forall>q. rm_cells m' c = Some q \<longrightarrow> unat (rg_len q) < 2 ^ 16"
proof -
  have w1: "unat (w + 1) = unat w + 1" using assms(3) by (simp add: unat_add_u32)
  then have w0: "0 < w + 1" by (simp add: word_less_nat_alt)
  obtain as where A: "allocated m alloc as" "fs_ok N e" "regions_ok e m as" "length (chain_blocks m as) = unat w + 1"
    "distinct (chain_blocks m as)" "set (chain_blocks m as) \<subseteq> fs_free N e0" "fs_free N e = fs_free N e0 - set (chain_blocks m as)"
    using allocate_blocks_facts [OF assms(1) w0 assms(4)] unfolding w1 by blast
  obtain a as' r where S: "as = a # as'" "rm_cells m a = Some r" "rg_prev r = None" "dchain m (Some a) (rg_next r) as'"
    "region_ok e r" "a \<notin> set as'" "a < rm_fresh m" "ba_list alloc = \<lparr>rl_first = Some a, rl_last = Some a, rl_iter = Some a, rl_partial = 0\<rparr>"
    by (rule allocated_Cons [OF A(1,3)])
  have fr: "length as \<le> rm_fresh m" using built_length [of m _ as] A(1) by (auto simp: allocated_def)
  have ch0: "dchain m None (Some a) as" using S(1-4) by simp
  have k: "k = word_of_nat (length as)"
    using assms(5) count_regions_chain [OF dchain_nchain [OF ch0], of "rm_fresh m" 0] fr S(8) by (simp add: block_allocation_num_regions_def)
  have lw: "length as < 2 ^ 32" using length_le_chain_blocks [OF A(3)] A(4) assms(3) by simp
  have rl: "1 < rg_len r" using assms(7,8) S(2,8) by (simp add: get_region_def get_reg_def)
  define m2 where "m2 = m\<lparr>rm_cells := (rm_cells m)(a \<mapsto> r\<lparr>rg_len := rg_len r - 1\<rparr>)\<rparr>"
  define x where "x = unat (rg_block r) + unat (rg_len r) - 1"
  have xr: "{unat (rg_block r) + unat (rg_len r) - unat (1 :: u32) ..< unat (rg_block r) + unat (rg_len r)} = {x}"
    using rl by (auto simp: x_def word_less_nat_alt)
  have last: "rl_last (ba_list alloc) = Some a" by (simp add: S(8))
  obtain e2 where e2: "reduce_allocation e m alloc 1 = Inr (alloc, m2, e2)" "fs_ok N e2" "fs_free N e2 = fs_free N e \<union> {x}"
    using reduce_short [OF A(2) S(5) last S(2,3) _ rl] xr by (auto simp: m2_def)
  have sh: "distinct (chain_blocks m2 as)" "set (chain_blocks m as) = insert x (set (chain_blocks m2 as))"
    "x \<notin> set (chain_blocks m2 as)" "length (chain_blocks m as) = Suc (length (chain_blocks m2 as))"
    using shorten_first [OF S(2,6) rl] A(5) unfolding m2_def x_def S(1) by simp_all
  have ch: "nchain m2 (Some a) as" unfolding m2_def by (rule dchain_nchain [OF dchain_upd_len [OF ch0 S(2)]])
  have small: "unat (rg_len q) < 2 ^ 16" if c: "c \<in> set as" and q: "rm_cells m2 c = Some q" for c q
  proof -
    obtain p where p: "rm_cells m c = Some p" "region_ok e p" using A(3) c by (auto simp: regions_ok_def split: option.splits)
    have "rg_len q \<le> rg_len p" using p(1) q S(2) rl by (auto simp: m2_def word_le_nat_alt word_less_nat_alt unat_sub_le split: if_splits)
    then show ?thesis using region_len_le [OF A(2) p(2)] assms(2) by (simp add: word_le_nat_alt)
  qed
  show thesis
  proof (rule that [OF e2(1,2) k lw _ _ _ _ _ sh(1) _ _])
    show "nchain m2 (rl_iter (ba_list alloc)) as" "rl_partial (ba_list alloc) = 0" "rl_first (ba_list alloc) = rl_iter (ba_list alloc)"
      using ch by (simp_all add: S(8))
    show "length as \<le> rm_fresh m2" using fr by (simp add: m2_def)
    show "length (chain_blocks m2 as) = unat w" using sh(4) A(4) by simp
    show "set (chain_blocks m2 as) \<subseteq> fs_free N e0" using sh(2) A(6) by blast
    show "fs_free N e2 = fs_free N e0 - set (chain_blocks m2 as)" using sh(2,3) A(6,7) e2(3) by blast
    show "\<forall>c \<in> set as. \<forall>q. rm_cells m2 c = Some q \<longrightarrow> unat (rg_len q) < 2 ^ 16" using small by blast
  qed
qed

lemma do_inode_allocate_extents_shape:
  assumes "fs_ok N (fx_e s)" "N < 2 ^ 16" "length (i_block inode) = 60" "fx_block_size s \<noteq> 0"
    "ucast ((len + ucast (fx_block_size s) - 1) div ucast (fx_block_size s)) = w" "unat w + 1 < 2 ^ 32"
    "allocate_blocks (fx_e s) (fx_m s) (w + 1) = Inr (Some alloc, m, e)"
    "block_allocation_num_regions m alloc = Inr k" "k \<le> 3" "get_region m alloc = Inr (b, l)" "1 < l"
  obtains m' e' as rest inode' where
    "do_inode_allocate_extents s inode len =
      Inr (Some (alloc\<lparr>ba_list := (ba_list alloc)\<lparr>rl_partial := 0\<rparr>\<rparr>), inode', s\<lparr>fx_e := e', fx_m := m'\<rparr>)"
    "reduce_allocation e m alloc 1 = Inr (alloc, m', e')" "fs_ok N e'" "nchain m' (rl_iter (ba_list alloc)) as" "length as \<le> rm_fresh m'"
    "length (chain_blocks m' as) = unat w" "distinct (chain_blocks m' as)" "set (chain_blocks m' as) \<subseteq> fs_free N (fx_e s)"
    "fs_free N e' = fs_free N (fx_e s) - set (chain_blocks m' as)"
    "\<forall>c \<in> set as. \<forall>q. rm_cells m' c = Some q \<longrightarrow> unat (rg_len q) < 2 ^ 16"
    "inode_extents inode' = dec_extents (length as) (ext_list m' 0 as @ rest)"
    "i_size_lo inode' = ucast len" "i_size_high inode' = ucast (drop_bit 32 len)"
proof -
  obtain m2 e2 as where R: "reduce_allocation e m alloc 1 = Inr (alloc, m2, e2)" "fs_ok N e2" "k = word_of_nat (length as)" "length as < 2 ^ 32"
    "nchain m2 (rl_iter (ba_list alloc)) as" "rl_partial (ba_list alloc) = 0" "rl_first (ba_list alloc) = rl_iter (ba_list alloc)"
    "length as \<le> rm_fresh m2"
    "length (chain_blocks m2 as) = unat w" "distinct (chain_blocks m2 as)" "set (chain_blocks m2 as) \<subseteq> fs_free N (fx_e s)"
    "fs_free N e2 = fs_free N (fx_e s) - set (chain_blocks m2 as)"
    "\<forall>c \<in> set as. \<forall>q. rm_cells m2 c = Some q \<longrightarrow> unat (rg_len q) < 2 ^ 16"
    by (rule spare_block_returned [OF assms(1,2,6-11)])
  have k3: "length as \<le> 3" "unat k = length as" using assms(9) R(4) by (simp_all add: R(3) word_le_nat_alt unat_of_nat_u32)
  have sk: "sint k \<le> 3" using k3(1) by (simp add: R(3) sint_word_of_nat)
  let ?s = "s\<lparr>fx_e := e2, fx_m := m2\<rparr>" and ?rest = "drop (12 + 12 * length as) (i_block inode)"
  let ?in = "inode\<lparr>i_block := ext4_extent_header (ucast k) 3 0 @ ext_list m2 0 as @ ?rest\<rparr>"
  have inr: "extents_in_inode ?s inode alloc k = Inr (alloc\<lparr>ba_list := (ba_list alloc)\<lparr>rl_iter := None, rl_partial := 0\<rparr>\<rparr>, ?in, ?s)"
    using extents_in_inode_run [of ?s alloc as inode k] R(5,6,8) k3 assms(3) by simp
  obtain inode' where run: "do_inode_allocate_extents s inode len = Inr (Some (alloc\<lparr>ba_list := (ba_list alloc)\<lparr>rl_partial := 0\<rparr>\<rparr>), inode', ?s)"
    "i_block inode' = i_block ?in" "i_size_lo inode' = ucast len" "i_size_high inode' = ucast (drop_bit 32 len)"
    using assms(4,5,7,8) R(1,7) inr sk by (simp add: do_inode_allocate_extents_def Let_def set_inode_size_def rewind_alloc_def)
  have ent: "unat (u16_of_le (drop 2 (i_block ?in))) = length as" "drop 12 (i_block ?in) = ext_list m2 0 as @ ?rest"
    using k3 by (simp_all add: ext4_extent_header_def unsigned_ucast_eq take_bit_nat_eq_self)
  have ex: "inode_extents inode' = dec_extents (length as) (ext_list m2 0 as @ ?rest)" unfolding inode_extents_def run(2) ent ..
  show thesis by (rule that [OF run(1) R(1,2,5,8-13) ex run(3,4)])
qed

lemma do_inode_allocate_extents_run:
  assumes "fs_ok N (fx_e s)" "N < 2 ^ 16" "length (i_block inode) = 60" "fx_block_size s \<noteq> 0"
    "ucast ((len + ucast (fx_block_size s) - 1) div ucast (fx_block_size s)) = w" "unat w + 1 < 2 ^ 32"
    "allocate_blocks (fx_e s) (fx_m s) (w + 1) = Inr (Some alloc, m, e)"
    "block_allocation_num_regions m alloc = Inr k" "k \<le> 3" "get_region m alloc = Inr (b, l)" "1 < l"
  shows "\<exists>alloc' inode' s'. do_inode_allocate_extents s inode len = Inr (Some alloc', inode', s') \<and> fs_ok N (fx_e s') \<and>
    contiguous 0 (inode_extents inode') \<and> length (extent_blocks (inode_extents inode')) = unat w \<and>
    distinct (extent_blocks (inode_extents inode')) \<and> set (extent_blocks (inode_extents inode')) \<subseteq> fs_free N (fx_e s) \<and>
    fs_free N (fx_e s') = fs_free N (fx_e s) - set (extent_blocks (inode_extents inode')) \<and>
    i_size_lo inode' = ucast len \<and> i_size_high inode' = ucast (drop_bit 32 len)"
proof -
  obtain m2 e2 as rest inode' where R: "do_inode_allocate_extents s inode len =
      Inr (Some (alloc\<lparr>ba_list := (ba_list alloc)\<lparr>rl_partial := 0\<rparr>\<rparr>), inode', s\<lparr>fx_e := e2, fx_m := m2\<rparr>)"
    "reduce_allocation e m alloc 1 = Inr (alloc, m2, e2)" "fs_ok N e2" "nchain m2 (rl_iter (ba_list alloc)) as" "length as \<le> rm_fresh m2"
    "length (chain_blocks m2 as) = unat w" "distinct (chain_blocks m2 as)" "set (chain_blocks m2 as) \<subseteq> fs_free N (fx_e s)"
    "fs_free N e2 = fs_free N (fx_e s) - set (chain_blocks m2 as)"
    "\<forall>c \<in> set as. \<forall>q. rm_cells m2 c = Some q \<longrightarrow> unat (rg_len q) < 2 ^ 16"
    "inode_extents inode' = dec_extents (length as) (ext_list m2 0 as @ rest)"
    "i_size_lo inode' = ucast len" "i_size_high inode' = ucast (drop_bit 32 len)"
    by (rule do_inode_allocate_extents_shape [OF assms])
  have bl: "extent_blocks (inode_extents inode') = chain_blocks m2 as" "contiguous 0 (inode_extents inode')"
    unfolding R(11) by (intro dec_ext_list [OF R(4), of 0, simplified]; use R(6,10) assms(6) in simp)+
  show ?thesis by (intro exI conjI, rule R(1)) (simp_all add: R(3,6-9,12,13) bl)
qed

section \<open>Files whose first region is one block\<close>

text \<open>Giving back the spare block then empties the list of regions: there is nothing left to write or to back.\<close>

lemma first_region_given_back:
  assumes "fs_ok N e0" "unat w + 1 < 2 ^ 32" "allocate_blocks e0 m0 (w + 1) = Inr (Some alloc, m, e)" "get_region m alloc = Inr (b, 1)"
  shows "\<exists>m' e'. reduce_allocation e m alloc 1 = Inr (alloc\<lparr>ba_list := empty_list\<rparr>, m', e')"
proof -
  have w1: "unat (w + 1) = unat w + 1" using assms(2) by (simp add: unat_add_u32)
  then have w0: "0 < w + 1" by (simp add: word_less_nat_alt)
  obtain as where A: "allocated m alloc as" "fs_ok N e" "regions_ok e m as"
    by (rule allocate_blocks_facts [OF assms(1) w0 assms(3)])
  obtain a as' r where S: "as = a # as'" "rm_cells m a = Some r" "rg_prev r = None" "dchain m (Some a) (rg_next r) as'"
    "region_ok e r" "a \<notin> set as'" "a < rm_fresh m" "ba_list alloc = \<lparr>rl_first = Some a, rl_last = Some a, rl_iter = Some a, rl_partial = 0\<rparr>"
    by (rule allocated_Cons [OF A(1,3)])
  have l: "rl_last (ba_list alloc) = Some a" "rg_len r = 1" using assms(4) S(2,8) by (simp_all add: get_region_def get_reg_def)
  then obtain m' e' where "give_back_step e m alloc 1 = Inr (0, alloc\<lparr>ba_list := empty_list\<rparr>, m', e')"
    using give_back_step_first(2) [OF A(2) S(5) l(1) S(2,3), of 1] unfolding l(2) by (simp only: order_refl diff_self) blast
  then show ?thesis by (simp add: reduce_allocation_def give_back_loop_simps)
qed

lemma inode_file_first_block_run:
  assumes "fs_ok N (fx_e s)" "length (i_block inode) = 60" "fx_block_size s \<noteq> 0" "len \<noteq> 0"
    "ucast ((len + ucast (fx_block_size s) - 1) div ucast (fx_block_size s)) = w" "unat w + 1 < 2 ^ 32"
    "allocate_blocks (fx_e s) (fx_m s) (w + 1) = Inr (Some alloc, m, e)"
    "block_allocation_num_regions m alloc = Inr k" "sint k \<le> 3" "get_region m alloc = Inr (b, 1)"
  shows "inode_allocate_file_extents s inode len filename = Inl NullDeref"
proof -
  obtain m2 e2 where r: "reduce_allocation e m alloc 1 = Inr (alloc\<lparr>ba_list := empty_list\<rparr>, m2, e2)"
    using first_region_given_back [OF assms(1,6,7,10)] by blast
  let ?s = "s\<lparr>fx_e := e2, fx_m := m2\<rparr>" and ?alloc = "alloc\<lparr>ba_list := empty_list\<rparr>"
  have "extents_in_inode ?s inode ?alloc k = Inr (?alloc, inode\<lparr>i_block := ext4_extent_header (ucast k) 3 0 @ drop 12 (i_block inode)\<rparr>, ?s)"
    using extents_in_inode_run [of ?s ?alloc "[]" inode k] assms(2) by (simp add: empty_list_def)
  then obtain inode' where "do_inode_allocate_extents s inode len = Inr (Some ?alloc, inode', ?s)"
    using assms(3,5,7-9) r by (simp add: do_inode_allocate_extents_def Let_def rewind_alloc_def empty_list_def)
  moreover have "backing_loop (Suc f) ?s ?alloc buf 0 len = Inl NullDeref" for f buf
    using assms(4) by (subst backing_loop.simps) (simp add: get_region_def get_reg_def empty_list_def)
  ultimately show ?thesis by (simp add: inode_allocate_file_extents_def extent_create_backing_file_def)
qed

section \<open>Properties\<close>

text \<open>
  A file whose blocks, with one spare block, come in at most three regions, the first longer than one
  block: its inode describes the blocks \<open>0\<close>, \<open>1\<close>, \<dots> of the file without gaps by exactly as many different
  blocks as the file needs; all of them were free, they are the only blocks taken, and the spare one is
  free again.
\<close>

theorem do_inode_allocate_extents_exact:
  assumes "fs_ok N (fx_e s)" "N < 2 ^ 16" "length (i_block inode) = 60" "fx_block_size s \<noteq> 0"
    "ucast ((len + ucast (fx_block_size s) - 1) div ucast (fx_block_size s)) = w" "unat w + 1 < 2 ^ 32"
    "allocate_blocks (fx_e s) (fx_m s) (w + 1) = Inr (Some alloc, m, e)"
    "block_allocation_num_regions m alloc = Inr k" "k \<le> 3" "get_region m alloc = Inr (b, l)" "1 < l"
  shows "\<exists>alloc' inode' s'. do_inode_allocate_extents s inode len = Inr (Some alloc', inode', s') \<and> fs_ok N (fx_e s') \<and>
    contiguous 0 (inode_extents inode') \<and> length (extent_blocks (inode_extents inode')) = unat w \<and>
    distinct (extent_blocks (inode_extents inode')) \<and> set (extent_blocks (inode_extents inode')) \<subseteq> fs_free N (fx_e s) \<and>
    fs_free N (fx_e s') = fs_free N (fx_e s) - set (extent_blocks (inode_extents inode')) \<and>
    i_size_lo inode' = ucast len \<and> i_size_high inode' = ucast (drop_bit 32 len)"
  by (rule do_inode_allocate_extents_run [OF assms])

definition demo_inode :: ext4_inode where
  "demo_inode = \<lparr>i_size_lo = 0, i_blocks_lo = 0, i_flags = 0, i_block = replicate 60 0, i_size_high = 0, l_i_blocks_high = 0\<rparr>"

definition demo_state :: fs_state where
  "demo_state = \<lparr>fx_e = demo_fs, fx_m = demo_mem, fx_bufs = []\<rparr>"

lemma demo_run_regions: "block_allocation_num_regions (fst (snd demo_run)) demo_alloc = Inr 2"
  by code_simp

lemma demo_state_simps: "fx_e demo_state = demo_fs" "fx_m demo_state = demo_mem" "fx_block_size demo_state = 1024"
  by (simp_all add: demo_state_def fx_block_size_def demo_fs_def)

theorem do_inode_allocate_extents_exact_witness:
  "\<exists>alloc inode s. do_inode_allocate_extents demo_state demo_inode 39000 = Inr (Some alloc, inode, s) \<and>
    length (extent_blocks (inode_extents inode)) = 39 \<and> set (extent_blocks (inode_extents inode)) \<subseteq> fs_free 32 demo_fs"
proof -
  have run: "allocate_blocks (fx_e demo_state) (fx_m demo_state) (39 + 1) = Inr (Some demo_alloc, fst (snd demo_run), snd (snd demo_run))"
    by (simp add: demo_state_simps demo_run_eq)
  have "\<exists>alloc inode s. do_inode_allocate_extents demo_state demo_inode 39000 = Inr (Some alloc, inode, s) \<and> fs_ok 32 (fx_e s) \<and>
      contiguous 0 (inode_extents inode) \<and> length (extent_blocks (inode_extents inode)) = unat (39 :: u32) \<and>
      distinct (extent_blocks (inode_extents inode)) \<and> set (extent_blocks (inode_extents inode)) \<subseteq> fs_free 32 (fx_e demo_state) \<and>
      fs_free 32 (fx_e s) = fs_free 32 (fx_e demo_state) - set (extent_blocks (inode_extents inode)) \<and>
      i_size_lo inode = ucast (39000 :: u64) \<and> i_size_high inode = ucast (drop_bit 32 (39000 :: u64))"
    by (rule do_inode_allocate_extents_exact [OF _ _ _ _ _ _ run demo_run_regions _ demo_run_region])
      (simp_all add: demo_state_simps demo_fs_ok demo_inode_def)
  then show ?thesis unfolding demo_state_simps by (elim exE conjE) (intro exI conjI, assumption, simp_all)
qed

text \<open>
  C12.  A file whose blocks come in at most three regions of which the first is a single block: the spare block
  taken back is that region, the list of regions is then empty, and creating the file dereferences a null
  pointer.
\<close>

theorem scattered_file_crashes:
  assumes "fs_ok N (fx_e s)" "length (i_block inode) = 60" "fx_block_size s \<noteq> 0" "len \<noteq> 0"
    "ucast ((len + ucast (fx_block_size s) - 1) div ucast (fx_block_size s)) = w" "unat w + 1 < 2 ^ 32"
    "allocate_blocks (fx_e s) (fx_m s) (w + 1) = Inr (Some alloc, m, e)"
    "block_allocation_num_regions m alloc = Inr k" "sint k \<le> 3" "get_region m alloc = Inr (b, 1)"
  shows "inode_allocate_file_extents s inode len filename = Inl NullDeref"
  by (rule inode_file_first_block_run [OF assms])

text \<open>Two groups of eight blocks, one block of each free, and a file of one block.\<close>

definition full_group :: block_group_info where
  "full_group = zero_bg\<lparr>bg_bitmaps := [127], bg_free_blocks := 1, bg_first_free_block := 7\<rparr>"

definition full_state :: fs_state where
  "full_state = demo_state\<lparr>fx_e := demo_fs\<lparr>ex_bgs := [full_group, full_group\<lparr>bg_first_block := 8\<rparr>]\<rparr>\<rparr>"

definition full_run :: "block_allocation option \<times> rmem \<times> ext4" where
  "full_run = (case allocate_blocks (fx_e full_state) demo_mem 2 of Inr x \<Rightarrow> x | Inl _ \<Rightarrow> (None, demo_mem, demo_fs))"

definition full_alloc :: block_allocation where
  "full_alloc = (case fst full_run of Some alloc \<Rightarrow> alloc | None \<Rightarrow> create_allocation)"

lemma full_group_bits: "n < 8 \<Longrightarrow> bits [127] n \<longleftrightarrow> n < 7"
  using bit_mask_iff [of 7 n, where ?'a = byte] by (simp add: bits_def mask_eq_exp_minus_1)

lemma full_state_ok: "fs_ok 8 (fx_e full_state)"
proof -
  have "bg_ok 8 full_group" by (auto simp: bg_ok_def full_group_def zero_bg_def full_group_bits)
  moreover from this have "bg_ok 8 (full_group\<lparr>bg_first_block := 8\<rparr>)" by (simp add: bg_ok_def)
  moreover have "bg_first_block full_group = 0" by (simp add: full_group_def zero_bg_def)
  ultimately show ?thesis by (auto simp: fs_ok_def full_state_def demo_fs_def less_Suc_eq)
qed

lemma full_run_regions: "block_allocation_num_regions (fst (snd full_run)) full_alloc = Inr 2"
  "get_region (fst (snd full_run)) full_alloc = Inr (7, 1)"
  by code_simp+

lemma full_run_eq: "allocate_blocks (fx_e full_state) demo_mem 2 = Inr (Some full_alloc, fst (snd full_run), snd (snd full_run))"
proof -
  have "total_free (fx_e full_state) = 2"
    by (simp add: total_free_def full_state_def demo_fs_def full_group_def lessThan_Suc)
  then have "\<exists>alloc m' e'. allocate_blocks (fx_e full_state) demo_mem 2 = Inr (Some alloc, m', e')"
    using allocate_blocks_run [OF full_state_ok, of 2 demo_mem] by auto
  then show ?thesis by (auto simp: full_run_def full_alloc_def)
qed

theorem scattered_file_crashes_witness: "inode_allocate_file_extents full_state demo_inode 1000 ''a'' = Inl NullDeref"
proof -
  have s: "fx_m full_state = demo_mem" "fx_block_size full_state = 1024"
    by (simp_all add: full_state_def demo_state_def fx_block_size_def demo_fs_def)
  have run: "allocate_blocks (fx_e full_state) (fx_m full_state) (1 + 1) = Inr (Some full_alloc, fst (snd full_run), snd (snd full_run))"
    by (simp add: s full_run_eq)
  show ?thesis
    by (rule scattered_file_crashes [OF full_state_ok _ _ _ _ _ run full_run_regions(1) _ full_run_regions(2)])
      (simp_all add: s demo_inode_def)
qed

end
