(* ===== verification/Ext4_Files.thy ===== *)
theory Ext4_Files
  imports Ext4_Extent Ext4_Init
begin

text \<open>
  The contents of files: what the allocator leaves alone, the pieces of a file or buffer that are queued for the
  regions of an allocation, and how they agree with the extents of its inode; releasing an allocation.
\<close>

section \<open>What an allocation changes\<close>

text \<open>The groups alone.\<close>

definition only_bgs :: "ext4 \<Rightarrow> ext4 \<Rightarrow> bool" where
  "only_bgs e e' \<longleftrightarrow> e' = e\<lparr>ex_bgs := ex_bgs e'\<rparr>"

lemma only_bgs_refl [simp]: "only_bgs e e" by (simp add: only_bgs_def)

lemma only_bgs_trans [trans]: "only_bgs a b \<Longrightarrow> only_bgs b c \<Longrightarrow> only_bgs a c"
  by (metis only_bgs_def ext4.surjective ext4.update_convs(8) ext4.simps(8))

lemma only_bgs_set_bg [simp]: "only_bgs e (set_bg e i bg)" by (simp add: only_bgs_def set_bg_def)

lemma only_bgs_queue: "only_bgs e e' \<Longrightarrow> ex_queue e' = ex_queue e \<and> ex_info e' = ex_info e \<and> ex_force e' = ex_force e \<and> ex_groups e' = ex_groups e"
  unfolding only_bgs_def by (metis ext4.select_convs ext4.surjective ext4.update_convs(8))

lemma from_group_only_bgs: "ext4_allocate_blocks_from_block_group e len i = Inr (b, e') \<Longrightarrow> only_bgs e e'"
  by (auto simp: ext4_allocate_blocks_from_block_group_def get_free_blocks_def bindR_eq_Inr_iff Let_def error_def split: if_splits)

lemma partial_only_bgs: "ext4_allocate_best_fit_partial e len = Inr (r, e') \<Longrightarrow> only_bgs e e'"
  by (auto simp: ext4_allocate_best_fit_partial_def bindR_eq_Inr_iff Let_def error_def from_group_only_bgs split: if_splits prod.splits)

lemma best_fit_loop_only_bgs: "best_fit_loop fuel e m len p q = Inr (r, m', e') \<Longrightarrow> only_bgs e e'"
proof (induction fuel arbitrary: e m len p q)
  case 0
  then show ?case by (auto simp: best_fit_loop.simps split: if_splits)
next
  case (Suc fuel)
  show ?case
  proof (cases "len = 0")
    case False
    then obtain r1 e1 where p: "ext4_allocate_best_fit_partial e len = Inr (r1, e1)"
      using Suc.prems by (cases "ext4_allocate_best_fit_partial e len") (auto simp: best_fit_loop.simps)
    note 1 = partial_only_bgs [OF p]
    show ?thesis
    proof (cases r1)
      case None
      then show ?thesis using Suc.prems False p 1 by (auto simp: best_fit_loop.simps)
    next
      case (Some x)
      obtain b l g where x: "x = (b, l, g)" by (cases x)
      have "\<exists>m' p' q'. best_fit_loop fuel e1 m' (len - l) p' q' = Inr (r, m'', e')" if "best_fit_loop (Suc fuel) e m len p q = Inr (r, m'', e')" for m''
        using that False p Some x
        by (subst (asm) best_fit_loop.simps) (auto simp: bindR_eq_Inr_iff new_reg_def split: prod.splits if_splits)
      then show ?thesis using Suc.IH Suc.prems only_bgs_trans [OF 1] by metis
    qed
  qed (use Suc.prems in \<open>auto simp: best_fit_loop.simps\<close>)
qed

lemma allocate_blocks_only_bgs: "allocate_blocks e m len = Inr (r, m', e') \<Longrightarrow> only_bgs e e'"
  by (auto simp: allocate_blocks_def ext4_allocate_best_fit_def bindR_eq_Inr_iff best_fit_loop_only_bgs split: if_splits prod.splits)

lemma give_back_step_only_bgs: "give_back_step e m alloc len = Inr (n, alloc', m', e') \<Longrightarrow> only_bgs e e'"
  by (auto simp: give_back_step_def bindR_eq_Inr_iff split: if_splits prod.splits)

lemma give_back_loop_only_bgs: "give_back_loop fuel e m alloc len = Inr (alloc', m', e') \<Longrightarrow> only_bgs e e'"
proof (induction fuel arbitrary: e m alloc len)
  case 0
  then show ?case by (auto simp: give_back_loop.simps split: if_splits)
next
  case (Suc fuel)
  show ?case
  proof (cases "len = 0")
    case False
    then obtain n a m1 e1 where b: "give_back_step e m alloc len = Inr (n, a, m1, e1)" "give_back_loop fuel e1 m1 a n = Inr (alloc', m', e')"
      using Suc.prems by (subst (asm) give_back_loop.simps) (auto simp: bindR_eq_Inr_iff)
    show ?thesis by (rule only_bgs_trans [OF give_back_step_only_bgs [OF b(1)] Suc.IH [OF b(2)]])
  qed (use Suc.prems in \<open>auto simp: give_back_loop.simps\<close>)
qed

section \<open>Pieces\<close>

text \<open>What is queued for the first \<open>n\<close> bytes of a buffer, region by region.\<close>

fun pieces :: "rmem \<Rightarrow> (nat \<Rightarrow> buffer) \<Rightarrow> nat \<Rightarrow> nat \<Rightarrow> nat \<Rightarrow> addr list \<Rightarrow> (buffer \<times> u32 \<times> u32) list" where
  "pieces m buf bs off n [] = []"
| "pieces m buf bs off n (a # as) = (if n = 0 then [] else case rm_cells m a of None \<Rightarrow> []
     | Some r \<Rightarrow> let l = min (unat (rg_len r) * bs) n in (buf off, word_of_nat l, rg_block r) # pieces m buf bs (off + l) (n - l) as)"

lemma pieces_0 [simp]: "pieces m buf bs off 0 as = []"
  by (cases as) simp_all

definition queued :: "fs_state \<Rightarrow> (buffer \<times> u32 \<times> u32) list \<Rightarrow> fs_state" where
  "queued s q = s\<lparr>fx_e := (fx_e s)\<lparr>ex_queue := ex_queue (fx_e s) @ q\<rparr>\<rparr>"

lemma queued_simps [simp]: "fx_m (queued s q) = fx_m s" "fx_bufs (queued s q) = fx_bufs s" "fx_block_size (queued s q) = fx_block_size s"
  "ex_queue (fx_e (queued s q)) = ex_queue (fx_e s) @ q" "queued (queued s q) q' = queued s (q @ q')" "queued s [] = s"
  "ex_bgs (fx_e (queued s q)) = ex_bgs (fx_e s)" "ex_force (fx_e (queued s q)) = ex_force (fx_e s)" "ex_info (fx_e (queued s q)) = ex_info (fx_e s)"
  by (simp_all add: queued_def fx_block_size_def)

lemma fs_queued [simp]: "fs_ok N (fx_e (queued s q)) = fs_ok N (fx_e s)" "fs_free N (fx_e (queued s q)) = fs_free N (fx_e s)"
  by (simp_all add: fs_ok_def fs_free_def queued_def)

lemma backing_loop_chain:
  assumes "nchain (fx_m s) p as" "rl_iter (ba_list alloc) = p" "rl_partial (ba_list alloc) = 0" "length as < fuel"
    "\<forall>a \<in> set as. \<forall>r. rm_cells (fx_m s) a = Some r \<longrightarrow> unat (rg_len r) * unat (fx_block_size s) < 2 ^ 32"
    "unat n \<le> length (chain_blocks (fx_m s) as) * unat (fx_block_size s)"
  shows "\<exists>q. backing_loop fuel s alloc buf off n = Inr (alloc\<lparr>ba_list := (ba_list alloc)\<lparr>rl_iter := q\<rparr>\<rparr>,
    queued s (pieces (fx_m s) buf (unat (fx_block_size s)) off (unat n) as))"
  using assms
proof (induction as arbitrary: p alloc s off n fuel)
  case Nil
  then have "n = 0" by (simp add: unat_eq_0)
  then show ?case by (intro exI [of _ "rl_iter (ba_list alloc)"]) (simp add: backing_loop.simps)
next
  case (Cons a as)
  show ?case
  proof (cases "n = 0")
    case True
    then show ?thesis by (intro exI [of _ "rl_iter (ba_list alloc)"]) (simp add: backing_loop.simps)
  next
    case False
    obtain f where f: "fuel = Suc f" using Cons.prems(4) by (cases fuel) auto
    obtain r where r: "p = Some a" "rm_cells (fx_m s) a = Some r" "nchain (fx_m s) (rg_next r) as"
      using Cons.prems(1) by (auto split: option.splits)
    let ?bs = "fx_block_size s"
    define l where "l = min (unat (rg_len r) * unat ?bs) (unat n)"
    have small: "unat (rg_len r) * unat ?bs < 2 ^ 32" using Cons.prems(5) r(2) by simp
    then have m: "unat (rg_len r * ?bs) = unat (rg_len r) * unat ?bs" by (intro unat_mult_u32) simp
    have l64: "unat (min (ucast (rg_len r * ?bs)) n :: u64) = l"
      by (simp add: min_def word_le_nat_alt unat_ucast_u64 m l_def)
    define w where "w = (ucast (min (ucast (rg_len r * ?bs)) n :: u64) :: u32)"
    have w: "unat w = l" "w = word_of_nat l" "unat (ucast w :: u64) = l"
    proof -
      have "l < 2 ^ 32" using small by (simp add: l_def)
      then show "unat w = l" unfolding w_def using l64 by (subst unat_ucast_u32) simp_all
      then show "w = word_of_nat l" "unat (ucast w :: u64) = l" by (simp_all add: word_of_nat_eqI unat_ucast_u64)
    qed
    have n: "unat (n - ucast w) = unat n - l" by (subst unat_sub) (simp_all add: word_le_nat_alt w(3) l_def)
    let ?alloc = "alloc\<lparr>ba_list := (ba_list alloc)\<lparr>rl_iter := rg_next r, rl_partial := 0\<rparr>\<rparr>"
    have step: "backing_loop fuel s alloc buf off n = backing_loop f (queued s [(buf off, w, rg_block r)]) ?alloc buf (off + l) (n - ucast w)"
      using False r Cons.prems(2,3) f w(1)
      by (subst backing_loop.simps) (simp add: get_region_def get_next_region_def get_reg_def queue_data_def queued_def w_def [symmetric] Let_def)
    have "unat n - l \<le> length (chain_blocks (fx_m s) as) * unat ?bs"
      using Cons.prems(6) r(2) by (auto simp: l_def cell_blocks_def add_mult_distrib)
    then obtain q where "backing_loop f (queued s [(buf off, w, rg_block r)]) ?alloc buf (off + l) (n - ucast w) =
        Inr (?alloc\<lparr>ba_list := (ba_list ?alloc)\<lparr>rl_iter := q\<rparr>\<rparr>,
          queued (queued s [(buf off, w, rg_block r)]) (pieces (fx_m s) buf (unat ?bs) (off + l) (unat n - l) as))"
      using Cons.IH [of "queued s [(buf off, w, rg_block r)]" "rg_next r" ?alloc f "n - ucast w" "off + l"] Cons.prems(4,5) r(3) f n by auto
    then show ?thesis using step False r w(2) Cons.prems(3) by (intro exI [of _ q]) (simp add: l_def [symmetric] Let_def unat_eq_0)
  qed
qed

text \<open>The same by the extents of the inode: every extent gets the bytes of the file at its place.\<close>

definition extent_pieces :: "(nat \<Rightarrow> buffer) \<Rightarrow> nat \<Rightarrow> nat \<Rightarrow> (u32 \<times> u16 \<times> u32) list \<Rightarrow> (buffer \<times> u32 \<times> u32) list" where
  "extent_pieces buf bs n xs = concat (map (\<lambda>(f, l, b). if unat f * bs < n
     then [(buf (unat f * bs), word_of_nat (min (unat l * bs) (n - unat f * bs)), b)] else []) xs)"

lemma pieces_extents:
  assumes "nchain m p as" "\<forall>a \<in> set as. \<forall>r. rm_cells m a = Some r \<longrightarrow> unat (rg_len r) < 2 ^ 16"
    "unat fb + length (chain_blocks m as) < 2 ^ 32"
  shows "pieces m buf bs (unat fb * bs) (n - unat fb * bs) as = extent_pieces buf bs n (dec_extents (length as) (ext_list m fb as @ rest))"
  using assms
proof (induction as arbitrary: p fb)
  case Nil
  then show ?case by (simp add: extent_pieces_def)
next
  case (Cons a as)
  obtain r where r: "p = Some a" "rm_cells m a = Some r" "nchain m (rg_next r) as"
    using Cons.prems(1) by (auto split: option.splits)
  have l: "unat (ucast (rg_len r) :: u16) = unat (rg_len r)"
    using Cons.prems(2) r(2) by (simp add: unsigned_ucast_eq take_bit_nat_eq_self)
  have sum: "unat fb + unat (rg_len r) + length (chain_blocks m as) < 2 ^ 32"
    using Cons.prems(3) r(2) by (simp add: cell_blocks_def)
  then have fb: "unat (fb + rg_len r) = unat fb + unat (rg_len r)" by (intro unat_add_u32) simp
  have ih: "pieces m buf bs (unat (fb + rg_len r) * bs) (n - unat (fb + rg_len r) * bs) as =
      extent_pieces buf bs n (dec_extents (length as) (ext_list m (fb + rg_len r) as @ rest))"
    using Cons.prems(2) sum by (intro Cons.IH [OF r(3)]) (auto simp: fb)
  have dec: "dec_extents (length (a # as)) (ext_list m fb (a # as) @ rest) =
      (fb, ucast (rg_len r), rg_block r) # dec_extents (length as) (ext_list m (fb + rg_len r) as @ rest)"
    using r(2) by (simp add: ext4_extent_def)
  show ?case
  proof (cases "n \<le> unat fb * bs")
    case True
    then have "n - unat (fb + rg_len r) * bs = 0" by (simp add: fb add_mult_distrib)
    then have "extent_pieces buf bs n (dec_extents (length as) (ext_list m (fb + rg_len r) as @ rest)) = []" using ih by simp
    then show ?thesis using True unfolding dec by (simp add: extent_pieces_def)
  next
    case False
    let ?L = "unat (rg_len r) * bs" and ?k = "n - unat fb * bs"
    have "pieces m buf bs (unat fb * bs + min ?L ?k) (?k - min ?L ?k) as = pieces m buf bs (unat (fb + rg_len r) * bs) (n - unat (fb + rg_len r) * bs) as"
      by (cases "?L \<le> ?k") (simp_all add: fb add_mult_distrib min_def)
    then show ?thesis using False r(2) ih unfolding dec by (simp add: extent_pieces_def Let_def l)
  qed
qed

section \<open>A file\<close>

lemma file_extents_run:
  assumes "fs_ok N (fx_e s)" "N < 2 ^ 16" "length (i_block inode) = 60" "fx_block_size s \<noteq> 0" "fx_block_size s \<le> 65536"
    "ucast ((len + ucast (fx_block_size s) - 1) div ucast (fx_block_size s)) = w" "unat w + 1 < 2 ^ 32" "unat len \<le> unat w * unat (fx_block_size s)"
    "allocate_blocks (fx_e s) (fx_m s) (w + 1) = Inr (Some alloc, m, e)"
    "block_allocation_num_regions m alloc = Inr k" "k \<le> 3" "get_region m alloc = Inr (b, l)" "1 < l"
  shows "\<exists>alloc' inode' s'. inode_allocate_file_extents s inode len name = Inr (Some alloc', inode', s') \<and> fs_ok N (fx_e s') \<and>
    contiguous 0 (inode_extents inode') \<and> length (extent_blocks (inode_extents inode')) = unat w \<and>
    distinct (extent_blocks (inode_extents inode')) \<and> set (extent_blocks (inode_extents inode')) \<subseteq> fs_free N (fx_e s) \<and>
    fs_free N (fx_e s') = fs_free N (fx_e s) - set (extent_blocks (inode_extents inode')) \<and>
    ex_queue (fx_e s') = ex_queue (fx_e s) @
      extent_pieces (\<lambda>off. File_Data name (int off)) (unat (fx_block_size s)) (unat len) (inode_extents inode')"
proof -
  obtain m2 e2 as rest inode' where R: "do_inode_allocate_extents s inode len =
      Inr (Some (alloc\<lparr>ba_list := (ba_list alloc)\<lparr>rl_partial := 0\<rparr>\<rparr>), inode', s\<lparr>fx_e := e2, fx_m := m2\<rparr>)"
    "reduce_allocation e m alloc 1 = Inr (alloc, m2, e2)" "fs_ok N e2" "nchain m2 (rl_iter (ba_list alloc)) as" "length as \<le> rm_fresh m2"
    "length (chain_blocks m2 as) = unat w" "distinct (chain_blocks m2 as)" "set (chain_blocks m2 as) \<subseteq> fs_free N (fx_e s)"
    "fs_free N e2 = fs_free N (fx_e s) - set (chain_blocks m2 as)"
    "\<forall>c \<in> set as. \<forall>q. rm_cells m2 c = Some q \<longrightarrow> unat (rg_len q) < 2 ^ 16"
    "inode_extents inode' = dec_extents (length as) (ext_list m2 0 as @ rest)"
    "i_size_lo inode' = ucast len" "i_size_high inode' = ucast (drop_bit 32 len)"
    by (rule do_inode_allocate_extents_shape [OF assms(1-4,6,7,9-13)])
  have bl: "extent_blocks (inode_extents inode') = chain_blocks m2 as" "contiguous 0 (inode_extents inode')"
    unfolding R(11) by (intro dec_ext_list [OF R(4), of 0, simplified]; use R(6,10) assms(7) in simp)+
  let ?s = "s\<lparr>fx_e := e2, fx_m := m2\<rparr>" and ?buf = "\<lambda>off. File_Data name (int off)"
  have "only_bgs (fx_e s) e" by (rule allocate_blocks_only_bgs [OF assms(9)])
  also have "only_bgs e e2" using R(2) unfolding reduce_allocation_def by (rule give_back_loop_only_bgs)
  finally have q: "ex_queue e2 = ex_queue (fx_e s)" "ex_info e2 = ex_info (fx_e s)" using only_bgs_queue by blast+
  then have bs: "fx_block_size ?s = fx_block_size s" by (simp add: fx_block_size_def)
  have small: "\<forall>a \<in> set as. \<forall>r. rm_cells (fx_m ?s) a = Some r \<longrightarrow> unat (rg_len r) * unat (fx_block_size ?s) < 2 ^ 32"
  proof (intro ballI allI impI)
    fix a r assume "a \<in> set as" "rm_cells (fx_m ?s) a = Some r"
    then have "unat (rg_len r) \<le> 65535" using R(10) by fastforce
    moreover have "unat (fx_block_size s) \<le> 65536" using assms(5) by (simp add: word_le_nat_alt)
    ultimately have "unat (rg_len r) * unat (fx_block_size s) \<le> 65535 * 65536" by (rule mult_le_mono)
    then show "unat (rg_len r) * unat (fx_block_size ?s) < 2 ^ 32" unfolding bs by simp
  qed
  obtain p where "backing_loop (Suc (rm_fresh m2)) ?s (alloc\<lparr>ba_list := (ba_list alloc)\<lparr>rl_partial := 0\<rparr>\<rparr>) ?buf 0 len =
      Inr (alloc\<lparr>ba_list := (ba_list alloc)\<lparr>rl_partial := 0, rl_iter := p\<rparr>\<rparr>, queued ?s (pieces m2 ?buf (unat (fx_block_size s)) 0 (unat len) as))"
    using backing_loop_chain [OF _ _ _ _ small, of "rl_iter (ba_list alloc)" "alloc\<lparr>ba_list := (ba_list alloc)\<lparr>rl_partial := 0\<rparr>\<rparr>" "Suc (rm_fresh m2)" len ?buf 0]
      R(4-6) assms(8) bs by auto
  moreover have "pieces m2 ?buf (unat (fx_block_size s)) 0 (unat len) as = extent_pieces ?buf (unat (fx_block_size s)) (unat len) (inode_extents inode')"
    unfolding R(11) using pieces_extents [OF R(4,10), of 0 ?buf "unat (fx_block_size s)" "unat len" rest] R(6) assms(7) by simp
  ultimately have "inode_allocate_file_extents s inode len name = Inr (Some (alloc\<lparr>ba_list := (ba_list alloc)\<lparr>rl_partial := 0, rl_iter := p\<rparr>\<rparr>), inode',
      queued ?s (extent_pieces ?buf (unat (fx_block_size s)) (unat len) (inode_extents inode')))"
    using R(1) by (simp add: inode_allocate_file_extents_def extent_create_backing_file_def)
  then show ?thesis by (intro exI conjI, assumption) (simp_all add: R(3,6-9) bl q)
qed



section \<open>Releasing an allocation\<close>

lemma free_loop_chain:
  assumes "nchain m p as" "distinct as" "length as \<le> fuel"
  shows "\<exists>m'. free_loop fuel m p = Inr m' \<and> rm_fresh m' = rm_fresh m"
  using assms
proof (induction as arbitrary: m p fuel)
  case Nil
  then show ?case by (simp add: free_loop.simps)
next
  case (Cons a as)
  obtain f where f: "fuel = Suc f" using Cons.prems(3) by (cases fuel) auto
  obtain r where r: "p = Some a" "rm_cells m a = Some r" "nchain m (rg_next r) as"
    using Cons.prems(1) by (auto split: option.splits)
  let ?m = "m\<lparr>rm_cells := (rm_cells m)(a := None)\<rparr>"
  have "nchain ?m (rg_next r) as = nchain m (rg_next r) as" by (rule nchain_cong) (use Cons.prems(2) in auto)
  then have "nchain ?m (rg_next r) as" using r(3) by simp
  then show ?case using Cons.IH [of ?m "rg_next r" f] Cons.prems r f
    by (subst free_loop.simps) (auto simp: get_reg_def free_reg_def)
qed

lemma free_alloc_chain:
  assumes "nchain m (rl_first (ba_list alloc)) as" "distinct as" "length as \<le> rm_fresh m" "rl_first (ba_oob alloc) = None"
  shows "\<exists>m'. free_alloc m alloc = Inr m'"
  using free_loop_chain [OF assms(1-3)] assms(4) by (auto simp: free_alloc_def free_loop.simps)

end
